(* ===== verification/Prelude.thy ===== *)
theory Prelude
  imports Main "HOL-Library.Word"
begin

text \<open>
  What every component shares: bytes, Go's \<open>error\<close> values, the built-in \<open>copy\<close>, the
  \<open>bytes.Buffer\<close> of the standard library, counting over a list of goroutines, and labelled
  machines (a step function on a state, its runs, its reachable states and the locale in which
  invariants are lifted from one step to every reachable state).
\<close>

section \<open>Collections of facts\<close>

named_theorems inv_defs \<open>definitions that make up a component's invariant\<close>

section \<open>Bytes and errors\<close>

type_synonym byte = "8 word"

text \<open>
  The error values the sources produce or compare with. A nil error is \<open>None\<close>;
  \<open>ErrOther\<close> stands for any error of a library, with its text.
\<close>

datatype go_error = EOF | ErrUnexpectedEOF | ErrShortWrite | ErrInvalidWrite | ErrOther string

type_synonym err = "go_error option"

text \<open>The pair \<open>(int, error)\<close> of Go's \<open>Read\<close> and \<open>Write\<close>.\<close>

type_synonym io_result = "nat \<times> err"

section \<open>Lists\<close>

text \<open>Go's \<open>copy(dst[i:], src)\<close>: the new destination and the number of elements copied.\<close>

definition go_copy :: "'a list \<Rightarrow> nat \<Rightarrow> 'a list \<Rightarrow> 'a list \<times> nat" where
  "go_copy dst i src =
     (let n = min (length dst - i) (length src)
      in (take i dst @ take n src @ drop (i + n) dst, n))"

lemma go_copy_count [simp]: "snd (go_copy dst i src) = min (length dst - i) (length src)"
  by (simp add: go_copy_def Let_def)

lemma go_copy_length [simp]: "i \<le> length dst \<Longrightarrow> length (fst (go_copy dst i src)) = length dst"
  by (auto simp: go_copy_def Let_def)

lemma take_go_copy:
  "j \<le> i \<Longrightarrow> i \<le> length dst \<Longrightarrow> take j (fst (go_copy dst i src)) = take j dst"
  by (simp add: go_copy_def Let_def min_absorb1)

text \<open>The half-open slice \<open>xs[i:j]\<close>, for \<open>i \<le> j \<le> len(xs)\<close>.\<close>

definition slice :: "nat \<Rightarrow> nat \<Rightarrow> 'a list \<Rightarrow> 'a list" where
  "slice i j xs = drop i (take j xs)"

lemma slice_empty [simp]: "slice i i xs = []"
  by (simp add: slice_def)

lemma slice_length [simp]: "j \<le> length xs \<Longrightarrow> length (slice i j xs) = j - i"
  by (simp add: slice_def)

lemma slice_append:
  assumes "i \<le> j" and "j \<le> k"
  shows "slice i j xs @ slice j k xs = slice i k xs"
proof -
  have "take j (take k xs) = take j xs"
    using assms(2) by (simp add: min_absorb1)
  then have split: "take k xs = take j xs @ drop j (take k xs)"
    by (metis append_take_drop_id)
  show ?thesis
  proof (cases "i \<le> length xs")
    case True
    then have "i \<le> length (take j xs)"
      using assms(1) by simp
    then show ?thesis
      unfolding slice_def by (subst (2) split) simp
  next
    case False
    then show ?thesis
      using assms by (simp add: slice_def)
  qed
qed

text \<open>
  Appending through \<open>go_copy\<close> at index \<open>j\<close> extends every slice that ends at \<open>j\<close> by what
  was copied, and leaves the slice below \<open>j\<close> alone.
\<close>

lemma slice_go_copy_below:
  "k \<le> j \<Longrightarrow> j \<le> length dst \<Longrightarrow> slice i k (fst (go_copy dst j src)) = slice i k dst"
  by (simp add: slice_def take_go_copy)

lemma slice_go_copy_extend:
  assumes "i \<le> j" and "j \<le> length dst" and n: "n = min (length dst - j) (length src)"
  shows "slice i (j + n) (fst (go_copy dst j src)) = slice i j dst @ take n src"
proof -
  have "take (j + n) (fst (go_copy dst j src)) = take j dst @ take n src"
    using assms by (simp add: go_copy_def Let_def)
  then show ?thesis
    using assms(1,2) by (simp add: slice_def)
qed

text \<open>Counting the goroutines of a pool that are at given program points.\<close>

definition count_if :: "('a \<Rightarrow> bool) \<Rightarrow> 'a list \<Rightarrow> nat" where
  "count_if P xs = length (filter P xs)"

lemma count_if_simps [simp]:
  "count_if P [] = 0"
  "count_if P (x # xs) = (if P x then Suc (count_if P xs) else count_if P xs)"
  by (simp_all add: count_if_def)

lemma count_if_replicate [simp]: "count_if P (replicate n x) = (if P x then n else 0)"
  by (simp add: count_if_def)

lemma count_if_update:
  "i < length xs \<Longrightarrow>
    count_if P (xs[i := y]) + (if P (xs ! i) then 1 else 0) = count_if P xs + (if P y then 1 else 0)"
proof (induction xs arbitrary: i)
  case (Cons x xs)
  then show ?case by (cases i) auto
qed simp

lemma count_if_update_same [simp]:
  assumes "i < length xs" and "P (xs ! i) = P y"
  shows "count_if P (xs[i := y]) = count_if P xs"
  using count_if_update [OF assms(1), of P y] assms(2) by (simp split: if_splits)

lemma count_if_update_in [simp]:
  assumes "i < length xs" and "\<not> P (xs ! i)" and "P y"
  shows "count_if P (xs[i := y]) = Suc (count_if P xs)"
  using count_if_update [OF assms(1), of P y] assms(2,3) by simp

lemma count_if_update_out [simp]:
  assumes "i < length xs" and "P (xs ! i)" and "\<not> P y"
  shows "count_if P (xs[i := y]) = count_if P xs - 1"
  using count_if_update [OF assms(1), of P y] assms(2,3) by simp

lemma count_if_update_mono: "\<not> P (xs ! i) \<Longrightarrow> count_if P xs \<le> count_if P (xs[i := y])"
  using count_if_update [of i xs P y] by (cases "i < length xs") (auto simp: list_update_beyond)

lemma count_if_pos: "i < length xs \<Longrightarrow> P (xs ! i) \<Longrightarrow> 0 < count_if P xs"
  by (auto simp: count_if_def filter_empty_conv)

lemma count_if_pos_ex: "0 < count_if P xs \<Longrightarrow> \<exists>i < length xs. P (xs ! i)"
  by (auto simp: count_if_def filter_empty_conv in_set_conv_nth)

lemma count_if_map: "map P xs = map P ys \<Longrightarrow> count_if P xs = count_if P ys"
proof (induction xs arbitrary: ys)
  case (Cons x xs)
  then show ?case by (cases ys) auto
qed simp

section \<open>The standard library's bytes.Buffer\<close>

text \<open>
  A \<open>bytes.Buffer\<close> is its unread contents. \<open>Read\<close> hands out the next bytes; on an empty
  buffer it returns \<open>(0, nil)\<close> for an empty destination and \<open>(0, io.EOF)\<close> otherwise.
\<close>

type_synonym bytes_buffer = "byte list"

definition buffer_write :: "bytes_buffer \<Rightarrow> byte list \<Rightarrow> bytes_buffer" where
  "buffer_write b p = b @ p"

definition buffer_read :: "bytes_buffer \<Rightarrow> nat \<Rightarrow> bytes_buffer \<times> byte list \<times> err" where
  "buffer_read b len =
     (if b = [] then ([], [], if len = 0 then None else Some EOF)
      else (drop len b, take len b, None))"

lemma buffer_read_conserves: "buffer_read b len = (b', out, e) \<Longrightarrow> out @ b' = b"
  by (auto simp: buffer_read_def split: if_splits)

lemma buffer_read_bound: "buffer_read b len = (b', out, e) \<Longrightarrow> length out \<le> len"
  by (auto simp: buffer_read_def split: if_splits)

section \<open>SSH requests\<close>

text \<open>The fields of an \<open>ssh.Request\<close> the proxy looks at.\<close>

record request =
  rq_type :: string
  rq_want_reply :: bool
  rq_payload :: "byte list"

section \<open>Labelled machines\<close>

text \<open>
  A component with goroutines is a step function: an event (one atomic section of one goroutine,
  with what its environment answers) takes a state to the next one, or is not enabled
  (\<open>None\<close>). A run is a list of events; a schedule of the Go runtime is one such list.
\<close>

fun run :: "('e \<Rightarrow> 's \<Rightarrow> 's option) \<Rightarrow> 'e list \<Rightarrow> 's \<Rightarrow> 's option" where
  "run step [] s = Some s"
| "run step (e # es) s = (case step e s of None \<Rightarrow> None | Some t \<Rightarrow> run step es t)"

inductive reaches :: "('e \<Rightarrow> 's \<Rightarrow> 's option) \<Rightarrow> 's \<Rightarrow> 's \<Rightarrow> bool" for step s where
  here: "reaches step s s"
| move: "reaches step s t \<Longrightarrow> step e t = Some u \<Longrightarrow> reaches step s u"

lemma run_append:
  "run step (as @ bs) s = (case run step as s of None \<Rightarrow> None | Some t \<Rightarrow> run step bs t)"
  by (induction as arbitrary: s) (auto split: option.splits)

lemma reaches_first: "step e s = Some t \<Longrightarrow> reaches step t u \<Longrightarrow> reaches step s u"
  by (rotate_tac 1, induction rule: reaches.induct) (auto intro: reaches.intros)

lemma run_reaches: "run step es s = Some t \<Longrightarrow> reaches step s t"
  by (induction es arbitrary: s)
     (auto intro: reaches.here reaches_first split: option.splits)

lemma reaches_single: "step e s = Some t \<Longrightarrow> reaches step s t"
  by (rule reaches_first) (auto intro: reaches.here)

lemma reaches_trans: "reaches step t u \<Longrightarrow> reaches step s t \<Longrightarrow> reaches step s u"
  by (induction rule: reaches.induct) (auto intro: reaches.move)

text \<open>A run of events of one kind.\<close>

definition runs_to :: "('e \<Rightarrow> 's \<Rightarrow> 's option) \<Rightarrow> ('e \<Rightarrow> bool) \<Rightarrow> 's \<Rightarrow> 's \<Rightarrow> bool" where
  "runs_to step P s t \<longleftrightarrow> (\<exists>es. (\<forall>e \<in> set es. P e) \<and> run step es s = Some t)"

lemma runs_toI: "run step es s = Some t \<Longrightarrow> \<forall>e \<in> set es. P e \<Longrightarrow> runs_to step P s t"
  by (auto simp: runs_to_def)

lemma runs_to_here: "runs_to step P s s"
  by (rule runs_toI [of step "[]"]) simp_all

lemma runs_to_single: "P e \<Longrightarrow> step e s = Some t \<Longrightarrow> runs_to step P s t"
  by (rule runs_toI [of step "[e]"]) simp_all

lemma runs_to_trans:
  assumes "runs_to step P s t" and "runs_to step P t u"
  shows "runs_to step P s u"
proof -
  obtain as bs where "\<forall>e \<in> set as. P e" "run step as s = Some t" "\<forall>e \<in> set bs. P e"
    "run step bs t = Some u"
    using assms by (auto simp: runs_to_def)
  then show ?thesis
    by (intro runs_toI [of step "as @ bs"]) (auto simp: run_append)
qed

lemma runs_to_first: "P e \<Longrightarrow> step e s = Some t \<Longrightarrow> runs_to step P t u \<Longrightarrow> runs_to step P s u"
  by (rule runs_to_trans [OF runs_to_single])

lemma runs_to_reaches: "runs_to step P s t \<Longrightarrow> reaches step s t"
  by (auto simp: runs_to_def intro: run_reaches)

lemma runs_to_mono: "runs_to step P s t \<Longrightarrow> (\<And>e. P e \<Longrightarrow> Q e) \<Longrightarrow> runs_to step Q s t"
  by (auto simp: runs_to_def)

text \<open>
  The contract of a machine whose invariant is inductive, and what a client gets from it: the
  invariant in every reachable state and along every run.
\<close>

locale invariant_machine =
  fixes start :: "'s \<Rightarrow> bool"
    and step :: "'e \<Rightarrow> 's \<Rightarrow> 's option"
    and inv :: "'s \<Rightarrow> bool"
  assumes inv_start: "start s \<Longrightarrow> inv s"
    and inv_step: "inv s \<Longrightarrow> step e s = Some t \<Longrightarrow> inv t"
begin

lemma inv_reaches: "reaches step s t \<Longrightarrow> inv s \<Longrightarrow> inv t"
  by (induction rule: reaches.induct) (auto intro: inv_step)

lemma reachable_inv: "start s \<Longrightarrow> reaches step s t \<Longrightarrow> inv t"
  by (blast intro: inv_reaches inv_start)

lemma run_inv: "start s \<Longrightarrow> run step es s = Some t \<Longrightarrow> inv t"
  by (blast intro: reachable_inv run_reaches)

end

end
