(* ===== verification/RingBuffer.thy ===== *)
theory RingBuffer
  imports Prelude
begin

text \<open>
  The ring inside \<open>RingDelayer\<close> (\<open>internal/predictive/delay.go\<close>): the slots, the send times
  beside them, the head and the tail index, with the store of \<open>Write\<close> and the removal of the
  delivering goroutine as they stand in the code. The interface is a bounded queue; the clients'
  lemmas are proved from its laws, and the ring is shown to satisfy them.
\<close>

section \<open>The interface: a bounded first-in first-out queue\<close>

datatype 'x fifo_op = Put 'x | Pop

text \<open>
  A schedule of stores and removals, with what the removals return. A store into a full queue and
  a removal from an empty one do not happen (the code waits), so such a schedule has no result.
\<close>

fun fifo_exec ::
  "('r \<Rightarrow> bool) \<Rightarrow> ('x \<Rightarrow> 'r \<Rightarrow> 'r) \<Rightarrow> ('r \<Rightarrow> 'x option) \<Rightarrow> ('r \<Rightarrow> 'r)
    \<Rightarrow> 'x fifo_op list \<Rightarrow> 'r \<Rightarrow> ('r \<times> 'x list) option" where
  "fifo_exec full put front pop [] r = Some (r, [])"
| "fifo_exec full put front pop (Put x # ops) r =
     (if full r then None else fifo_exec full put front pop ops (put x r))"
| "fifo_exec full put front pop (Pop # ops) r =
     (case front r of None \<Rightarrow> None
      | Some x \<Rightarrow> map_option (\<lambda>(r', outs). (r', x # outs)) (fifo_exec full put front pop ops (pop r)))"

fun fifo_puts :: "'x fifo_op list \<Rightarrow> 'x list" where
  "fifo_puts [] = []"
| "fifo_puts (Put x # ops) = x # fifo_puts ops"
| "fifo_puts (Pop # ops) = fifo_puts ops"

locale bounded_fifo =
  fixes rep :: "'r \<Rightarrow> 'x list \<Rightarrow> bool"
    and capacity :: "'r \<Rightarrow> nat"
    and full :: "'r \<Rightarrow> bool"
    and put :: "'x \<Rightarrow> 'r \<Rightarrow> 'r"
    and front :: "'r \<Rightarrow> 'x option"
    and pop :: "'r \<Rightarrow> 'r"
  assumes rep_bound: "rep r q \<Longrightarrow> length q \<le> capacity r"
    and full_iff: "rep r q \<Longrightarrow> full r \<longleftrightarrow> length q = capacity r"
    and rep_put: "rep r q \<Longrightarrow> \<not> full r \<Longrightarrow> rep (put x r) (q @ [x])"
    and front_iff: "rep r q \<Longrightarrow> front r = (case q of [] \<Rightarrow> None | x # _ \<Rightarrow> Some x)"
    and rep_pop: "rep r (x # q) \<Longrightarrow> rep (pop r) q"
    and capacity_put: "capacity (put x r) = capacity r"
    and capacity_pop: "capacity (pop r) = capacity r"
begin

text \<open>Nothing is lost, duplicated or reordered: outputs and contents are the inputs, in order.\<close>

lemma exec_conserves:
  "rep r q \<Longrightarrow> fifo_exec full put front pop ops r = Some (r', outs) \<Longrightarrow>
    \<exists>q'. rep r' q' \<and> outs @ q' = q @ fifo_puts ops"
proof (induction ops arbitrary: r q outs)
  case (Cons op ops)
  show ?case
  proof (cases op)
    case (Put x)
    then show ?thesis
      using Cons.prems Cons.IH [OF rep_put [OF Cons.prems(1)], of x outs]
      by (auto split: if_splits)
  next
    case Pop
    then obtain x outs' where x: "front r = Some x" and outs: "outs = x # outs'"
      and rest: "fifo_exec full put front pop ops (pop r) = Some (r', outs')"
      using Cons.prems(2) by (auto split: option.splits)
    from x obtain q' where q: "q = x # q'"
      using front_iff [OF Cons.prems(1)] by (auto split: list.splits)
    from Cons.IH [OF rep_pop [OF Cons.prems(1) [unfolded q]] rest]
    show ?thesis
      by (auto simp: Pop outs q)
  qed
qed auto

lemma exec_fifo:
  "rep r [] \<Longrightarrow> fifo_exec full put front pop ops r = Some (r', outs) \<Longrightarrow>
    outs = take (length outs) (fifo_puts ops)"
  using exec_conserves [of r "[]" ops r' outs] by (metis append_Nil append_eq_conv_conj)

lemma front_None_iff: "rep r q \<Longrightarrow> front r = None \<longleftrightarrow> q = []"
  by (simp add: front_iff split: list.splits)

lemma put_pop_room: "rep r (x # q) \<Longrightarrow> \<not> full (pop r)"
  using full_iff [OF rep_pop [of r x q]] rep_bound [of r "x # q"] capacity_pop [of r] by auto

end

section \<open>The ring of the delayer\<close>

text \<open>
  The four fields of \<open>struct RingDelayer\<close>; a slot is nil (\<open>None\<close>) or a buffer, and a time is in
  nanoseconds. The struct's other fields extend this record in theory \<open>RingDelay\<close>.
\<close>

record ring =
  rd_ring :: "byte list option list"
  rd_sendTime :: "int list"
  rd_head :: nat
  rd_tail :: nat

definition ring_full :: "'a ring_scheme \<Rightarrow> bool" where
  "ring_full r \<longleftrightarrow> rd_ring r ! rd_tail r \<noteq> None"

definition ring_put :: "int \<times> byte list \<Rightarrow> 'a ring_scheme \<Rightarrow> 'a ring_scheme" where
  "ring_put x r = r\<lparr>
     rd_ring := (rd_ring r)[rd_tail r := Some (snd x)],
     rd_sendTime := (rd_sendTime r)[rd_tail r := fst x],
     rd_tail := Suc (rd_tail r) mod length (rd_ring r)\<rparr>"

definition ring_pop :: "'a ring_scheme \<Rightarrow> 'a ring_scheme" where
  "ring_pop r = r\<lparr>
     rd_ring := (rd_ring r)[rd_head r := None],
     rd_head := Suc (rd_head r) mod length (rd_ring r)\<rparr>"

definition ring_front :: "'a ring_scheme \<Rightarrow> (int \<times> byte list) option" where
  "ring_front r = map_option (Pair (rd_sendTime r ! rd_head r)) (rd_ring r ! rd_head r)"

lemma ring_length [simp]:
  "length (rd_ring (ring_put x r)) = length (rd_ring r)"
  "length (rd_ring (ring_pop r)) = length (rd_ring r)"
  by (simp_all add: ring_put_def ring_pop_def)

text \<open>
  The ring holds the queue \<open>q\<close>: from the head on, the next \<open>length q\<close> slots hold its elements
  and the others are nil, and the tail is the slot after the last element.
\<close>

definition ring_rep :: "'a ring_scheme \<Rightarrow> (int \<times> byte list) list \<Rightarrow> bool" where
  "ring_rep r q \<longleftrightarrow>
     (let n = length (rd_ring r)
      in 0 < n \<and> length (rd_sendTime r) = n \<and> rd_head r < n \<and> length q \<le> n \<and>
         rd_tail r = (rd_head r + length q) mod n \<and>
         (\<forall>j < n. rd_ring r ! ((rd_head r + j) mod n) =
            (if j < length q then Some (snd (q ! j)) else None)) \<and>
         (\<forall>j < length q. rd_sendTime r ! ((rd_head r + j) mod n) = fst (q ! j)))"

lemma mod_offset_le:
  assumes "i \<le> j" and "j < n" and "(h + i) mod n = (h + j) mod n"
  shows "i = (j :: nat)"
proof -
  have "n dvd (h + j) - (h + i)"
    using assms(1) assms(3) [symmetric] by (subst mod_eq_dvd_iff_nat [symmetric]) auto
  then have "n dvd j - i"
    by simp
  then show ?thesis
    using assms(1,2) by (auto dest: dvd_imp_le)
qed

lemma mod_offset_inj:
  "i < n \<Longrightarrow> j < n \<Longrightarrow> (h + i) mod n = (h + j) mod n \<Longrightarrow> i = (j :: nat)"
  using mod_offset_le [of i j n h] mod_offset_le [of j i n h] by (cases "i \<le> j") simp_all

lemma mod_offset_eq_iff [simp]:
  "i < n \<Longrightarrow> j < n \<Longrightarrow> (h + i) mod n = (h + j) mod n \<longleftrightarrow> i = (j :: nat)"
  using mod_offset_inj by blast

lemma ring_rep_bounds:
  assumes "ring_rep r q"
  shows "0 < length (rd_ring r)" and "rd_head r < length (rd_ring r)"
    and "rd_tail r < length (rd_ring r)" and "length (rd_sendTime r) = length (rd_ring r)"
    and "length q \<le> length (rd_ring r)"
  using assms by (auto simp: ring_rep_def Let_def)

lemma ring_rep_nil:
  "0 < n \<Longrightarrow> rd_ring r = replicate n None \<Longrightarrow> length (rd_sendTime r) = n \<Longrightarrow> rd_head r = 0 \<Longrightarrow>
    rd_tail r = 0 \<Longrightarrow> ring_rep r []"
  by (simp add: ring_rep_def)

lemma ring_rep_slot:
  assumes "ring_rep r q" and "j < length (rd_ring r)"
  shows "rd_ring r ! ((rd_head r + j) mod length (rd_ring r)) =
    (if j < length q then Some (snd (q ! j)) else None)"
  using assms by (simp add: ring_rep_def Let_def)

lemma ring_rep_time:
  assumes "ring_rep r q" and "j < length q"
  shows "rd_sendTime r ! ((rd_head r + j) mod length (rd_ring r)) = fst (q ! j)"
  using assms by (simp add: ring_rep_def Let_def)

lemma ring_rep_full_iff:
  assumes "ring_rep r q"
  shows "ring_full r \<longleftrightarrow> length q = length (rd_ring r)"
proof (cases "length q < length (rd_ring r)")
  case True
  then show ?thesis
    using ring_rep_slot [OF assms True] assms by (simp add: ring_full_def ring_rep_def Let_def)
next
  case False
  then have "length q = length (rd_ring r)" and "rd_tail r = rd_head r"
    using assms by (auto simp: ring_rep_def Let_def)
  then show ?thesis
    using ring_rep_slot [OF assms, of 0] ring_rep_bounds [OF assms]
    by (simp add: ring_full_def)
qed

lemma ring_rep_front:
  assumes "ring_rep r q"
  shows "ring_front r = (case q of [] \<Rightarrow> None | x # _ \<Rightarrow> Some x)"
  using ring_rep_slot [OF assms, of 0] ring_rep_time [OF assms, of 0] ring_rep_bounds [OF assms]
  by (cases q) (auto simp: ring_front_def)

lemma ring_rep_put:
  assumes "ring_rep r q" and room: "\<not> ring_full r"
  shows "ring_rep (ring_put x r) (q @ [x])"
proof -
  let ?n = "length (rd_ring r)"
  have len: "length q < ?n"
    using ring_rep_full_iff [OF assms(1)] ring_rep_bounds(5) [OF assms(1)] room by linarith
  have tail: "rd_tail r = (rd_head r + length q) mod ?n"
    using assms(1) by (simp add: ring_rep_def Let_def)
  have next_tail: "Suc (rd_tail r) mod ?n = (rd_head r + length (q @ [x])) mod ?n"
    by (simp add: tail mod_Suc_eq)
  have slots: "(rd_ring r)[rd_tail r := Some (snd x)] ! ((rd_head r + j) mod ?n) =
      (if j < length (q @ [x]) then Some (snd ((q @ [x]) ! j)) else None)" if "j < ?n" for j
    using that len ring_rep_slot [OF assms(1) that] ring_rep_bounds [OF assms(1)]
    by (auto simp: tail nth_list_update nth_append)
  have times: "(rd_sendTime r)[rd_tail r := fst x] ! ((rd_head r + j) mod ?n) = fst ((q @ [x]) ! j)"
    if "j < length (q @ [x])" for j
    using that len ring_rep_time [OF assms(1), of j] ring_rep_bounds [OF assms(1)]
    by (auto simp: tail nth_list_update nth_append)
  show ?thesis
    using slots times next_tail len ring_rep_bounds [OF assms(1)]
    by (simp add: ring_rep_def ring_put_def Let_def)
qed

lemma ring_rep_pop:
  assumes "ring_rep r (x # q)"
  shows "ring_rep (ring_pop r) q"
proof -
  let ?n = "length (rd_ring r)" and ?h = "rd_head r"
  have bounds: "0 < ?n" "?h < ?n" "length q < ?n" "length (rd_sendTime r) = ?n"
    using ring_rep_bounds [OF assms] by auto
  have shift: "(Suc ?h mod ?n + j) mod ?n = (?h + Suc j) mod ?n" for j
    by (simp add: mod_add_left_eq)
  have slots: "(rd_ring r)[?h := None] ! ((?h + Suc j) mod ?n) =
      (if j < length q then Some (snd (q ! j)) else None)" if j: "j < ?n" for j
  proof (cases "Suc j < ?n")
    case True
    then have "(?h + Suc j) mod ?n \<noteq> ?h"
      using mod_offset_eq_iff [of "Suc j" ?n 0 ?h] bounds by simp
    then show ?thesis
      using True ring_rep_slot [OF assms True] by simp
  next
    case False
    with j have "Suc j = ?n"
      by simp
    then show ?thesis
      using bounds by auto
  qed
  have times: "rd_sendTime r ! ((?h + Suc j) mod ?n) = fst (q ! j)" if "j < length q" for j
    using ring_rep_time [OF assms, of "Suc j"] that by simp
  have "rd_tail r = (Suc ?h mod ?n + length q) mod ?n"
    using assms shift [of "length q"] by (simp add: ring_rep_def Let_def)
  then show ?thesis
    using slots times bounds by (simp add: ring_rep_def ring_pop_def Let_def shift)
qed

text \<open>The ring satisfies the queue's laws, so every lemma of the interface is one of the ring.\<close>

interpretation ring_fifo: bounded_fifo
  "ring_rep :: 'a ring_scheme \<Rightarrow> (int \<times> byte list) list \<Rightarrow> bool" "\<lambda>r. length (rd_ring r)"
  ring_full ring_put ring_front ring_pop
  by unfold_locales
     (auto simp: ring_rep_full_iff ring_rep_front ring_rep_put ring_rep_pop ring_rep_bounds)

end
