(* ===== verification/CondVar.thy ===== *)
theory CondVar
  imports Prelude
begin

text \<open>
  \<open>sync.Cond\<close> as both \<open>RingDelayer\<close> and \<open>Asynk\<close> use it: a wait list of goroutines (indices into the
  pool of writers) beside their program counters. \<open>Wait\<close> puts a goroutine on the list,
  \<open>Signal\<close> releases one (which one is the runtime's choice), \<open>Broadcast\<close> releases all.
\<close>

lemma set_take_drop_nth:
  assumes "k < length xs" and "distinct xs"
  shows "set (take k xs @ drop (Suc k) xs) = set xs - {xs ! k}"
    and "distinct (take k xs @ drop (Suc k) xs)"
proof -
  have xs: "xs = take k xs @ xs ! k # drop (Suc k) xs"
    using assms(1) by (simp add: id_take_nth_drop [symmetric])
  have d: "distinct (take k xs @ xs ! k # drop (Suc k) xs)"
    using assms(2) by (subst (asm) xs) simp
  show "set (take k xs @ drop (Suc k) xs) = set xs - {xs ! k}"
    using d by (subst (3) xs) auto
  show "distinct (take k xs @ drop (Suc k) xs)"
    using d by auto
qed

section \<open>Operations\<close>

text \<open>\<open>release\<close> is what a released goroutine does next; the results are the new list and pool.\<close>

definition cond_signal ::
  "('w \<Rightarrow> 'w) \<Rightarrow> nat \<Rightarrow> nat list \<Rightarrow> 'w list \<Rightarrow> (nat list \<times> 'w list) option" where
  "cond_signal release k wt ws =
     (if wt = [] then Some (wt, ws)
      else if k < length wt
      then Some (take k wt @ drop (Suc k) wt, ws[wt ! k := release (ws ! (wt ! k))])
      else None)"

definition cond_broadcast :: "('w \<Rightarrow> 'w) \<Rightarrow> nat list \<Rightarrow> 'w list \<Rightarrow> nat list \<times> 'w list" where
  "cond_broadcast release wt ws =
     ([], map (\<lambda>i. if i \<in> set wt then release (ws ! i) else ws ! i) [0..<length ws])"

section \<open>The wait list holds exactly the sleeping goroutines\<close>

definition waiters_ok :: "('w \<Rightarrow> bool) \<Rightarrow> nat list \<Rightarrow> 'w list \<Rightarrow> bool" where
  "waiters_ok asleep wt ws \<longleftrightarrow> distinct wt \<and> (\<forall>i. i \<in> set wt \<longleftrightarrow> i < length ws \<and> asleep (ws ! i))"

lemma waiters_ok_nth:
  "waiters_ok asleep wt ws \<Longrightarrow> k < length wt \<Longrightarrow> wt ! k < length ws \<and> asleep (ws ! (wt ! k))"
  unfolding waiters_ok_def by (metis nth_mem)

lemma waiters_ok_start: "\<not> asleep w \<Longrightarrow> waiters_ok asleep [] (replicate n w)"
  by (auto simp: waiters_ok_def)

lemma waiters_ok_update:
  assumes "waiters_ok asleep wt ws" and "\<not> asleep (ws ! i)" and "\<not> asleep w"
  shows "waiters_ok asleep wt (ws[i := w])"
proof -
  have "asleep (ws[i := w] ! j) \<longleftrightarrow> asleep (ws ! j)" if "j < length ws" for j
    using that assms(2,3) by (cases "j = i") simp_all
  then show ?thesis
    using assms(1) unfolding waiters_ok_def by (metis length_list_update)
qed

lemma waiters_ok_sleep:
  assumes "waiters_ok asleep wt ws" and "i < length ws" and "\<not> asleep (ws ! i)" and "asleep w"
  shows "waiters_ok asleep (wt @ [i]) (ws[i := w])"
proof -
  have "asleep (ws[i := w] ! j) \<longleftrightarrow> j = i \<or> asleep (ws ! j)" if "j < length ws" for j
    using that assms(2,4) by (cases "j = i") simp_all
  then show ?thesis
    using assms(1-3) by (simp add: waiters_ok_def) blast
qed

text \<open>
  A signal wakes nobody when nobody waits, and otherwise one sleeping goroutine: counts of program
  points that neither the sleeping nor the released goroutines are at do not change.
\<close>

lemma cond_signal_cases:
  assumes "cond_signal release k wt ws = Some (wt', ws')" and "waiters_ok asleep wt ws"
    and "\<And>w. asleep w \<Longrightarrow> \<not> asleep (release w)"
  obtains "wt = []" "wt' = []" "ws' = ws"
  | i where "i < length ws" "asleep (ws ! i)" "ws' = ws[i := release (ws ! i)]" "wt \<noteq> []"
    "waiters_ok asleep wt' ws'"
proof (cases "wt = []")
  case True
  then show ?thesis
    using assms(1) that(1) by (simp add: cond_signal_def)
next
  case False
  let ?i = "wt ! k"
  have k: "k < length wt" and wt': "wt' = take k wt @ drop (Suc k) wt"
    and ws': "ws' = ws[?i := release (ws ! ?i)]"
    using assms(1) False by (auto simp: cond_signal_def split: if_splits)
  have i: "?i < length ws" and sl: "asleep (ws ! ?i)"
    using waiters_ok_nth [OF assms(2) k] by auto
  have "distinct wt'" and "set wt' = set wt - {?i}"
    using set_take_drop_nth [OF k] assms(2) wt' by (auto simp: waiters_ok_def)
  moreover have "asleep (ws' ! j) \<longleftrightarrow> j \<noteq> ?i \<and> asleep (ws ! j)" if "j < length ws" for j
    using that i sl assms(3) ws' by (cases "j = ?i") auto
  ultimately have "waiters_ok asleep wt' ws'"
    using assms(2) unfolding waiters_ok_def ws'
    by (metis DiffE DiffI insertCI length_list_update singletonD)
  then show ?thesis
    using that(2) [OF i sl ws' False] by simp
qed

lemma cond_signal_enabled: "cond_signal release 0 wt ws \<noteq> None"
  by (simp add: cond_signal_def)

lemma cond_broadcast_awake:
  assumes "waiters_ok asleep wt ws" and "\<And>w. asleep w \<Longrightarrow> \<not> asleep (release w)"
    and "cond_broadcast release wt ws = (wt', ws')"
  shows "waiters_ok asleep wt' ws'"
  using assms by (auto simp: waiters_ok_def cond_broadcast_def split: if_splits)

end
