(* ===== verification/RingDelay.thy ===== *)
theory RingDelay
  imports RingBuffer CondVar
begin

text \<open>
  \<open>RingDelayer\<close> (\<open>internal/predictive/delay.go\<close>): the writer that holds every buffer back for a
  fixed delay. The struct extends the record \<open>ring\<close>; the goroutine started by \<open>RingDelay\<close>, the
  goroutines that call \<open>Write\<close> and the one that calls \<open>Close\<close> are program counters in the state,
  and an event is one atomic section (a critical section of \<open>rd.cond.L\<close>, a channel operation, an
  unsynchronised access to \<open>rd.termination\<close>, a call of the upstream). The clock is a field that
  only \<open>Tick\<close> moves. The fields from \<open>rd_now\<close> on are the environment and the history.
\<close>

section \<open>State\<close>

text \<open>
  The delivering goroutine: waiting for a notification; holding one; asleep until a deadline with
  the buffer it read; about to call \<open>upstream.Write\<close>; inside that call; finished.
\<close>

datatype rd_pump =
    PumpRecv | PumpTaken | PumpSleep int "byte list option" | PumpWrite "byte list option"
  | PumpResult | PumpDone

text \<open>
  A goroutine in \<open>Write(p)\<close>: outside; at the lock with the send time it computed; in
  \<open>cond.Wait\<close>; between \<open>Unlock\<close> and the second check of \<open>termination\<close>; at the channel send; after
  it; returned.
\<close>

datatype rd_writer =
    WIdle | WPut int "byte list" | WSleep int "byte list" | WCheck nat | WSend nat | WSent nat
  | WRet nat err

text \<open>A goroutine in \<open>Close()\<close>, between its four accesses to shared state.\<close>

datatype rd_closer = CIdle | CChecked | CMarked | CClosed | CRet err

record ring_delayer = ring +
  rd_delay :: int
  rd_termination :: err
  rd_tokens :: nat               \<comment> \<open>notifications buffered in \<open>notifyChan\<close>\<close>
  rd_closed :: bool              \<comment> \<open>\<open>notifyChan\<close> has been closed\<close>
  rd_pump :: rd_pump
  rd_writers :: "rd_writer list"
  rd_waiting :: "nat list"       \<comment> \<open>the wait list of \<open>rd.cond\<close>: indices of writers\<close>
  rd_closer :: rd_closer
  rd_timers :: "int list"        \<comment> \<open>deadlines of the callbacks set with \<open>Callback\<close>\<close>
  rd_now :: int
  rd_accepted :: "(int \<times> byte list) list"   \<comment> \<open>every buffer stored, with its send time\<close>
  rd_delivered :: "(int \<times> byte list option) list"
    \<comment> \<open>every call of \<open>upstream.Write\<close>, with the time it was made\<close>
  rd_fired :: "(int \<times> int) list"  \<comment> \<open>callbacks run: deadline and time\<close>
  rd_upstream_closed :: bool
  rd_panicked :: bool

text \<open>
  \<open>RingDelay(rwc, delay, ringSize)\<close>, at clock \<open>now\<close>, with a pool of \<open>w\<close> goroutines that may call
  \<open>Write\<close>. The zero \<open>time.Time\<close> of a fresh slot is never read, so any number will do.
\<close>

definition ring_delay :: "int \<Rightarrow> nat \<Rightarrow> int \<Rightarrow> nat \<Rightarrow> ring_delayer" where
  "ring_delay delay ringSize now w =
     \<lparr>rd_ring = replicate ringSize None, rd_sendTime = replicate ringSize 0,
      rd_head = 0, rd_tail = 0,
      rd_delay = delay, rd_termination = None, rd_tokens = 0, rd_closed = False,
      rd_pump = PumpRecv, rd_writers = replicate w WIdle, rd_waiting = [], rd_closer = CIdle,
      rd_timers = [], rd_now = now, rd_accepted = [], rd_delivered = [], rd_fired = [],
      rd_upstream_closed = False, rd_panicked = False\<rparr>"

section \<open>The delivering goroutine\<close>

text \<open>
  \<open>cond.Signal()\<close> releases one waiting goroutine, if there is one: the one at index \<open>k\<close> of the
  wait list (the runtime's choice). It returns to the test of the \<open>for\<close> loop.
\<close>

fun rd_release :: "rd_writer \<Rightarrow> rd_writer" where
  "rd_release (WSleep st p) = WPut st p"
| "rd_release w = w"

definition rd_signal :: "nat \<Rightarrow> ring_delayer \<Rightarrow> ring_delayer option" where
  "rd_signal k s =
     map_option (\<lambda>(wt, ws). s\<lparr>rd_waiting := wt, rd_writers := ws\<rparr>)
       (cond_signal rd_release k (rd_waiting s) (rd_writers s))"

text \<open>\<open>for range rd.notifyChan\<close>: a receive takes a notification, or ends the loop once the channel is
  closed and drained.\<close>

definition rd_take :: "ring_delayer \<Rightarrow> ring_delayer option" where
  "rd_take s =
     (if rd_pump s = PumpRecv \<and> 0 < rd_tokens s
      then Some (s\<lparr>rd_tokens := rd_tokens s - 1, rd_pump := PumpTaken\<rparr>)
      else if rd_pump s = PumpRecv \<and> rd_closed s then Some (s\<lparr>rd_pump := PumpDone\<rparr>)
      else None)"

text \<open>The removal and the signal, at the end of the critical section.\<close>

definition rd_remove :: "nat \<Rightarrow> byte list option \<Rightarrow> ring_delayer \<Rightarrow> ring_delayer option" where
  "rd_remove k buffer s = map_option (\<lambda>t. t\<lparr>rd_pump := PumpWrite buffer\<rparr>) (rd_signal k (ring_pop s))"

text \<open>
  The first critical section: read the head's time and buffer; sleep without the lock when the
  time has not come, otherwise remove at once.
\<close>

definition rd_inspect :: "nat \<Rightarrow> ring_delayer \<Rightarrow> ring_delayer option" where
  "rd_inspect k s =
     (if rd_pump s = PumpTaken then
        (if rd_head s < length (rd_ring s) \<and> rd_head s < length (rd_sendTime s) then
          (let wait = rd_sendTime s ! rd_head s - rd_now s; buffer = rd_ring s ! rd_head s
           in if 0 < wait then Some (s\<lparr>rd_pump := PumpSleep (rd_now s + wait) buffer\<rparr>)
              else rd_remove k buffer s)
         else Some (s\<lparr>rd_panicked := True\<rparr>))
      else None)"

definition rd_awake :: "nat \<Rightarrow> ring_delayer \<Rightarrow> ring_delayer option" where
  "rd_awake k s =
     (case rd_pump s of
        PumpSleep deadline buffer \<Rightarrow> if deadline \<le> rd_now s then rd_remove k buffer s else None
      | _ \<Rightarrow> None)"

text \<open>The call \<open>rd.upstream.Write(buffer)\<close>, and the critical section that looks at its error.\<close>

definition rd_upstream_write :: "ring_delayer \<Rightarrow> ring_delayer option" where
  "rd_upstream_write s =
     (case rd_pump s of
        PumpWrite buffer \<Rightarrow>
          Some (s\<lparr>rd_delivered := rd_delivered s @ [(rd_now s, buffer)], rd_pump := PumpResult\<rparr>)
      | _ \<Rightarrow> None)"

text \<open>Closing a closed channel panics, and a panic ends the program.\<close>

definition rd_close_chan :: "ring_delayer \<Rightarrow> ring_delayer" where
  "rd_close_chan s = (if rd_closed s then s\<lparr>rd_panicked := True\<rparr> else s\<lparr>rd_closed := True\<rparr>)"

definition rd_result :: "err \<Rightarrow> ring_delayer \<Rightarrow> ring_delayer option" where
  "rd_result e s =
     (if rd_pump s = PumpResult then
        (case e of None \<Rightarrow> Some (s\<lparr>rd_pump := PumpRecv\<rparr>)
         | Some _ \<Rightarrow> Some (rd_close_chan (s\<lparr>rd_pump := PumpRecv, rd_termination := e\<rparr>)))
      else None)"

section \<open>Write\<close>

abbreviation set_writer :: "nat \<Rightarrow> rd_writer \<Rightarrow> ring_delayer \<Rightarrow> ring_delayer" where
  "set_writer i w s \<equiv> s\<lparr>rd_writers := (rd_writers s)[i := w]\<rparr>"

text \<open>Entry: the check of \<open>termination\<close>, the clock and the private copy of the argument.\<close>

definition rd_write :: "nat \<Rightarrow> byte list \<Rightarrow> ring_delayer \<Rightarrow> ring_delayer option" where
  "rd_write i p s =
     (if i < length (rd_writers s) then
        (case rd_writers s ! i of
           WIdle \<Rightarrow> Some (if rd_termination s \<noteq> None then set_writer i (WRet 0 (rd_termination s)) s
                          else set_writer i (WPut (rd_now s + rd_delay s) p) s)
         | WRet _ _ \<Rightarrow> Some (if rd_termination s \<noteq> None then set_writer i (WRet 0 (rd_termination s)) s
                          else set_writer i (WPut (rd_now s + rd_delay s) p) s)
         | _ \<Rightarrow> None)
      else None)"

text \<open>
  The critical section: wait while the tail slot is taken, then store. The index is checked as Go
  does (a ring of size 0 panics here).
\<close>

definition rd_put :: "nat \<Rightarrow> ring_delayer \<Rightarrow> ring_delayer option" where
  "rd_put i s =
     (if i < length (rd_writers s) then
        (case rd_writers s ! i of
           WPut st p \<Rightarrow>
             if \<not> rd_tail s < length (rd_ring s) then Some (s\<lparr>rd_panicked := True\<rparr>)
             else if ring_full s
             then Some (set_writer i (WSleep st p) s\<lparr>rd_waiting := rd_waiting s @ [i]\<rparr>)
             else Some (set_writer i (WCheck (length p))
                         (ring_put (st, p) s)\<lparr>rd_accepted := rd_accepted s @ [(st, p)]\<rparr>)
         | _ \<Rightarrow> None)
      else None)"

definition rd_check :: "nat \<Rightarrow> ring_delayer \<Rightarrow> ring_delayer option" where
  "rd_check i s =
     (if i < length (rd_writers s) then
        (case rd_writers s ! i of
           WCheck n \<Rightarrow> Some (if rd_termination s \<noteq> None then set_writer i (WRet 0 (rd_termination s)) s
                             else set_writer i (WSend n) s)
         | _ \<Rightarrow> None)
      else None)"

text \<open>\<open>rd.notifyChan <- true\<close>: panics on a closed channel, blocks on a full one.\<close>

definition rd_send :: "nat \<Rightarrow> ring_delayer \<Rightarrow> ring_delayer option" where
  "rd_send i s =
     (if i < length (rd_writers s) then
        (case rd_writers s ! i of
           WSend n \<Rightarrow>
             if rd_closed s then Some (s\<lparr>rd_panicked := True\<rparr>)
             else if rd_tokens s < length (rd_ring s)
             then Some (set_writer i (WSent n) s\<lparr>rd_tokens := Suc (rd_tokens s)\<rparr>)
             else None
         | _ \<Rightarrow> None)
      else None)"

text \<open>\<open>return len(p), rd.termination\<close>, which reads the field once more.\<close>

definition rd_return :: "nat \<Rightarrow> ring_delayer \<Rightarrow> ring_delayer option" where
  "rd_return i s =
     (if i < length (rd_writers s) then
        (case rd_writers s ! i of
           WSent n \<Rightarrow> Some (set_writer i (WRet n (rd_termination s)) s)
         | _ \<Rightarrow> None)
      else None)"

section \<open>Close, Callback and the clock\<close>

definition rd_close :: "err \<Rightarrow> ring_delayer \<Rightarrow> ring_delayer option" where
  "rd_close upstreamErr s =
     (case rd_closer s of
        CIdle \<Rightarrow> Some (if rd_termination s \<noteq> None then s\<lparr>rd_closer := CRet (rd_termination s)\<rparr>
                       else s\<lparr>rd_closer := CChecked\<rparr>)
      | CRet _ \<Rightarrow> Some (if rd_termination s \<noteq> None then s\<lparr>rd_closer := CRet (rd_termination s)\<rparr>
                       else s\<lparr>rd_closer := CChecked\<rparr>)
      | CChecked \<Rightarrow> Some (s\<lparr>rd_closer := CMarked, rd_termination := Some EOF\<rparr>)
      | CMarked \<Rightarrow> Some (rd_close_chan (s\<lparr>rd_closer := CClosed\<rparr>))
      | CClosed \<Rightarrow> Some (s\<lparr>rd_closer := CRet upstreamErr, rd_upstream_closed := True\<rparr>))"

definition rd_callback :: "ring_delayer \<Rightarrow> ring_delayer option" where
  "rd_callback s = Some (s\<lparr>rd_timers := rd_timers s @ [rd_now s + rd_delay s]\<rparr>)"

definition rd_fire :: "nat \<Rightarrow> ring_delayer \<Rightarrow> ring_delayer option" where
  "rd_fire k s =
     (if k < length (rd_timers s) \<and> rd_timers s ! k \<le> rd_now s
      then Some (s\<lparr>rd_fired := rd_fired s @ [(rd_timers s ! k, rd_now s)],
                   rd_timers := take k (rd_timers s) @ drop (Suc k) (rd_timers s)\<rparr>)
      else None)"

datatype rd_event =
    Take | Inspect nat | Awake nat | UpstreamWrite | Result err
  | Write nat "byte list" | Put nat | Check nat | Send nat | Return nat
  | Close err | Callback | Fire nat | Tick nat

fun rd_dispatch :: "rd_event \<Rightarrow> ring_delayer \<Rightarrow> ring_delayer option" where
  "rd_dispatch Take s = rd_take s"
| "rd_dispatch (Inspect k) s = rd_inspect k s"
| "rd_dispatch (Awake k) s = rd_awake k s"
| "rd_dispatch UpstreamWrite s = rd_upstream_write s"
| "rd_dispatch (Result e) s = rd_result e s"
| "rd_dispatch (Write i p) s = rd_write i p s"
| "rd_dispatch (Put i) s = rd_put i s"
| "rd_dispatch (Check i) s = rd_check i s"
| "rd_dispatch (Send i) s = rd_send i s"
| "rd_dispatch (Return i) s = rd_return i s"
| "rd_dispatch (Close e) s = rd_close e s"
| "rd_dispatch Callback s = rd_callback s"
| "rd_dispatch (Fire k) s = rd_fire k s"
| "rd_dispatch (Tick d) s = Some (s\<lparr>rd_now := rd_now s + int d\<rparr>)"

definition rd_step :: "rd_event \<Rightarrow> ring_delayer \<Rightarrow> ring_delayer option" where
  "rd_step e s = (if rd_panicked s then None else rd_dispatch e s)"

section \<open>The delayer as a ReadWriteCloser\<close>

text \<open>
  The three methods as one goroutine sees them when no other is inside them: \<open>Read\<close> is the
  upstream's (only writes are delayed), \<open>Write\<close> and \<open>Close\<close> are their sections one after the
  other. A call that would wait has no result here; the machine above has it.
\<close>

definition rd_read ::
  "(nat \<Rightarrow> 'u \<Rightarrow> ('u \<times> byte list \<times> err) option) \<Rightarrow> nat \<Rightarrow> 'u \<Rightarrow> ('u \<times> byte list \<times> err) option" where
  "rd_read upstreamRead len u = upstreamRead len u"

definition rd_write_call :: "byte list \<Rightarrow> ring_delayer \<Rightarrow> (ring_delayer \<times> io_result) option" where
  "rd_write_call p s =
     (case rd_step (Write 0 p) s of None \<Rightarrow> None
      | Some t \<Rightarrow>
          (case rd_writers t ! 0 of
             WRet n e \<Rightarrow> Some (t, n, e)
           | _ \<Rightarrow>
               (case run rd_step [Put 0, Check 0, Send 0, Return 0] t of None \<Rightarrow> None
                | Some u \<Rightarrow> (case rd_writers u ! 0 of WRet n e \<Rightarrow> Some (u, n, e) | _ \<Rightarrow> None))))"

definition rd_close_call :: "err \<Rightarrow> ring_delayer \<Rightarrow> (ring_delayer \<times> err) option" where
  "rd_close_call upstreamErr s =
     (case rd_step (Close upstreamErr) s of None \<Rightarrow> None
      | Some t \<Rightarrow>
          (case rd_closer t of
             CRet e \<Rightarrow> Some (t, e)
           | _ \<Rightarrow>
               (case run rd_step [Close upstreamErr, Close upstreamErr, Close upstreamErr] t of
                  None \<Rightarrow> None
                | Some u \<Rightarrow> (case rd_closer u of CRet e \<Rightarrow> Some (u, e) | _ \<Rightarrow> None))))"

section \<open>The invariant\<close>

text \<open>
  The queue the ring holds is what was stored and not yet taken out; the pump takes the buffers
  out in order.
\<close>

definition rd_inhand :: "ring_delayer \<Rightarrow> nat" where
  "rd_inhand s = (case rd_pump s of PumpWrite _ \<Rightarrow> 1 | _ \<Rightarrow> 0)"

definition rd_queue :: "ring_delayer \<Rightarrow> (int \<times> byte list) list" where
  "rd_queue s = drop (length (rd_delivered s) + rd_inhand s) (rd_accepted s)"

definition rd_held :: "ring_delayer \<Rightarrow> nat" where
  "rd_held s = (case rd_pump s of PumpTaken \<Rightarrow> 1 | PumpSleep _ _ \<Rightarrow> 1 | _ \<Rightarrow> 0)"

fun notifying :: "rd_writer \<Rightarrow> bool" where
  "notifying (WCheck _) = True" | "notifying (WSend _) = True" | "notifying _ = False"

fun putting :: "rd_writer \<Rightarrow> bool" where
  "putting (WPut _ _) = True" | "putting _ = False"

fun sleeping :: "rd_writer \<Rightarrow> bool" where
  "sleeping (WSleep _ _) = True" | "sleeping _ = False"

text \<open>What the pump holds is the head of the ring, and once removed its time has come.\<close>

fun pump_ok :: "rd_pump \<Rightarrow> (int \<times> byte list) option \<Rightarrow> int \<times> byte list \<Rightarrow> int \<Rightarrow> bool" where
  "pump_ok (PumpSleep d b) front oldest now \<longleftrightarrow> b \<noteq> None \<and> front = Some (d, the b)"
| "pump_ok (PumpWrite b) front oldest now \<longleftrightarrow> b = Some (snd oldest) \<and> fst oldest \<le> now"
| "pump_ok _ front oldest now \<longleftrightarrow> True"

text \<open>Deliveries are the stored buffers, in order, none before its time.\<close>

definition inv_data :: "ring_delayer \<Rightarrow> bool" where
  "inv_data s \<longleftrightarrow>
     ring_rep s (rd_queue s) \<and>
     length (rd_delivered s) + rd_inhand s \<le> length (rd_accepted s) \<and>
     (\<forall>j < length (rd_delivered s).
        snd (rd_delivered s ! j) = Some (snd (rd_accepted s ! j)) \<and>
        fst (rd_accepted s ! j) \<le> fst (rd_delivered s ! j)) \<and>
     pump_ok (rd_pump s) (ring_front s) (rd_accepted s ! length (rd_delivered s)) (rd_now s)"

text \<open>Every notification is backed by a stored buffer of its own.\<close>

definition inv_tokens :: "ring_delayer \<Rightarrow> bool" where
  "inv_tokens s \<longleftrightarrow>
     (let n = rd_tokens s + rd_held s + count_if notifying (rd_writers s)
      in n \<le> length (rd_queue s) \<and> (rd_termination s = None \<longrightarrow> n = length (rd_queue s)))"

text \<open>The wait list is the sleeping writers, and a free slot has an awake writer to take it.\<close>

definition inv_waiting :: "ring_delayer \<Rightarrow> bool" where
  "inv_waiting s \<longleftrightarrow> waiters_ok sleeping (rd_waiting s) (rd_writers s) \<and>
     (rd_waiting s \<noteq> [] \<longrightarrow>
        length (rd_ring s) \<le> length (rd_queue s) + count_if putting (rd_writers s))"

text \<open>The channel is closed only after the termination error is set, and only then can it panic.\<close>

definition inv_term :: "ring_delayer \<Rightarrow> bool" where
  "inv_term s \<longleftrightarrow>
     (rd_closed s \<or> rd_panicked s \<or> rd_closer s = CMarked \<longrightarrow> rd_termination s \<noteq> None) \<and>
     (rd_pump s = PumpDone \<longrightarrow> rd_closed s) \<and>
     (\<forall>x \<in> set (rd_fired s). fst x \<le> snd x)"

definition rd_inv :: "ring_delayer \<Rightarrow> bool" where
  "rd_inv s \<longleftrightarrow> inv_data s \<and> inv_tokens s \<and> inv_waiting s \<and> inv_term s"

lemmas rd_inv_parts [inv_defs] = inv_data_def inv_tokens_def inv_waiting_def inv_term_def
lemmas rd_counts = rd_inhand_def rd_held_def rd_queue_def

subsection \<open>Frames\<close>

text \<open>The ring does not depend on the fields that extend it, and its operations do not touch them.\<close>

lemma ring_rep_frame [simp]:
  "ring_rep (s\<lparr>rd_delay := x1\<rparr>) q = ring_rep s q"
  "ring_rep (s\<lparr>rd_termination := x2\<rparr>) q = ring_rep s q"
  "ring_rep (s\<lparr>rd_tokens := x3\<rparr>) q = ring_rep s q"
  "ring_rep (s\<lparr>rd_closed := x4\<rparr>) q = ring_rep s q"
  "ring_rep (s\<lparr>rd_pump := x5\<rparr>) q = ring_rep s q"
  "ring_rep (s\<lparr>rd_writers := x6\<rparr>) q = ring_rep s q"
  "ring_rep (s\<lparr>rd_waiting := x7\<rparr>) q = ring_rep s q"
  "ring_rep (s\<lparr>rd_closer := x8\<rparr>) q = ring_rep s q"
  "ring_rep (s\<lparr>rd_timers := x9\<rparr>) q = ring_rep s q"
  "ring_rep (s\<lparr>rd_now := x10\<rparr>) q = ring_rep s q"
  "ring_rep (s\<lparr>rd_accepted := x11\<rparr>) q = ring_rep s q"
  "ring_rep (s\<lparr>rd_delivered := x12\<rparr>) q = ring_rep s q"
  "ring_rep (s\<lparr>rd_fired := x13\<rparr>) q = ring_rep s q"
  "ring_rep (s\<lparr>rd_upstream_closed := x14\<rparr>) q = ring_rep s q"
  "ring_rep (s\<lparr>rd_panicked := x15\<rparr>) q = ring_rep s q"
  by (simp_all add: ring_rep_def)

lemma ring_front_frame [simp]:
  "ring_front (s\<lparr>rd_delay := x16\<rparr>) = ring_front s"
  "ring_front (s\<lparr>rd_termination := x17\<rparr>) = ring_front s"
  "ring_front (s\<lparr>rd_tokens := x18\<rparr>) = ring_front s"
  "ring_front (s\<lparr>rd_closed := x19\<rparr>) = ring_front s"
  "ring_front (s\<lparr>rd_pump := x20\<rparr>) = ring_front s"
  "ring_front (s\<lparr>rd_writers := x21\<rparr>) = ring_front s"
  "ring_front (s\<lparr>rd_waiting := x22\<rparr>) = ring_front s"
  "ring_front (s\<lparr>rd_closer := x23\<rparr>) = ring_front s"
  "ring_front (s\<lparr>rd_timers := x24\<rparr>) = ring_front s"
  "ring_front (s\<lparr>rd_now := x25\<rparr>) = ring_front s"
  "ring_front (s\<lparr>rd_accepted := x26\<rparr>) = ring_front s"
  "ring_front (s\<lparr>rd_delivered := x27\<rparr>) = ring_front s"
  "ring_front (s\<lparr>rd_fired := x28\<rparr>) = ring_front s"
  "ring_front (s\<lparr>rd_upstream_closed := x29\<rparr>) = ring_front s"
  "ring_front (s\<lparr>rd_panicked := x30\<rparr>) = ring_front s"
  by (simp_all add: ring_front_def)

lemma ring_full_frame [simp]:
  "ring_full (s\<lparr>rd_delay := x31\<rparr>) = ring_full s"
  "ring_full (s\<lparr>rd_termination := x32\<rparr>) = ring_full s"
  "ring_full (s\<lparr>rd_tokens := x33\<rparr>) = ring_full s"
  "ring_full (s\<lparr>rd_closed := x34\<rparr>) = ring_full s"
  "ring_full (s\<lparr>rd_pump := x35\<rparr>) = ring_full s"
  "ring_full (s\<lparr>rd_writers := x36\<rparr>) = ring_full s"
  "ring_full (s\<lparr>rd_waiting := x37\<rparr>) = ring_full s"
  "ring_full (s\<lparr>rd_closer := x38\<rparr>) = ring_full s"
  "ring_full (s\<lparr>rd_timers := x39\<rparr>) = ring_full s"
  "ring_full (s\<lparr>rd_now := x40\<rparr>) = ring_full s"
  "ring_full (s\<lparr>rd_accepted := x41\<rparr>) = ring_full s"
  "ring_full (s\<lparr>rd_delivered := x42\<rparr>) = ring_full s"
  "ring_full (s\<lparr>rd_fired := x43\<rparr>) = ring_full s"
  "ring_full (s\<lparr>rd_upstream_closed := x44\<rparr>) = ring_full s"
  "ring_full (s\<lparr>rd_panicked := x45\<rparr>) = ring_full s"
  by (simp_all add: ring_full_def)

lemma ring_put_frame [simp]:
  "rd_delay (ring_put y s) = rd_delay s"
  "rd_termination (ring_put y s) = rd_termination s"
  "rd_tokens (ring_put y s) = rd_tokens s"
  "rd_closed (ring_put y s) = rd_closed s"
  "rd_pump (ring_put y s) = rd_pump s"
  "rd_writers (ring_put y s) = rd_writers s"
  "rd_waiting (ring_put y s) = rd_waiting s"
  "rd_closer (ring_put y s) = rd_closer s"
  "rd_timers (ring_put y s) = rd_timers s"
  "rd_now (ring_put y s) = rd_now s"
  "rd_accepted (ring_put y s) = rd_accepted s"
  "rd_delivered (ring_put y s) = rd_delivered s"
  "rd_fired (ring_put y s) = rd_fired s"
  "rd_upstream_closed (ring_put y s) = rd_upstream_closed s"
  "rd_panicked (ring_put y s) = rd_panicked s"
  by (simp_all add: ring_put_def)

lemma ring_pop_frame [simp]:
  "rd_delay (ring_pop s) = rd_delay s"
  "rd_termination (ring_pop s) = rd_termination s"
  "rd_tokens (ring_pop s) = rd_tokens s"
  "rd_closed (ring_pop s) = rd_closed s"
  "rd_pump (ring_pop s) = rd_pump s"
  "rd_writers (ring_pop s) = rd_writers s"
  "rd_waiting (ring_pop s) = rd_waiting s"
  "rd_closer (ring_pop s) = rd_closer s"
  "rd_timers (ring_pop s) = rd_timers s"
  "rd_now (ring_pop s) = rd_now s"
  "rd_accepted (ring_pop s) = rd_accepted s"
  "rd_delivered (ring_pop s) = rd_delivered s"
  "rd_fired (ring_pop s) = rd_fired s"
  "rd_upstream_closed (ring_pop s) = rd_upstream_closed s"
  "rd_panicked (ring_pop s) = rd_panicked s"
  by (simp_all add: ring_pop_def)

lemma rd_count_frame [simp]:
  "rd_queue (s\<lparr>rd_delay := x101\<rparr>) = rd_queue s"
  "rd_queue (s\<lparr>rd_termination := x102\<rparr>) = rd_queue s"
  "rd_queue (s\<lparr>rd_tokens := x103\<rparr>) = rd_queue s"
  "rd_queue (s\<lparr>rd_closed := x104\<rparr>) = rd_queue s"
  "rd_queue (s\<lparr>rd_writers := x105\<rparr>) = rd_queue s"
  "rd_queue (s\<lparr>rd_waiting := x106\<rparr>) = rd_queue s"
  "rd_queue (s\<lparr>rd_closer := x107\<rparr>) = rd_queue s"
  "rd_queue (s\<lparr>rd_timers := x108\<rparr>) = rd_queue s"
  "rd_queue (s\<lparr>rd_now := x109\<rparr>) = rd_queue s"
  "rd_queue (s\<lparr>rd_fired := x110\<rparr>) = rd_queue s"
  "rd_queue (s\<lparr>rd_upstream_closed := x111\<rparr>) = rd_queue s"
  "rd_queue (s\<lparr>rd_panicked := x112\<rparr>) = rd_queue s"
  "rd_inhand (s\<lparr>rd_delay := x113\<rparr>) = rd_inhand s"
  "rd_inhand (s\<lparr>rd_termination := x114\<rparr>) = rd_inhand s"
  "rd_inhand (s\<lparr>rd_tokens := x115\<rparr>) = rd_inhand s"
  "rd_inhand (s\<lparr>rd_closed := x116\<rparr>) = rd_inhand s"
  "rd_inhand (s\<lparr>rd_writers := x117\<rparr>) = rd_inhand s"
  "rd_inhand (s\<lparr>rd_waiting := x118\<rparr>) = rd_inhand s"
  "rd_inhand (s\<lparr>rd_closer := x119\<rparr>) = rd_inhand s"
  "rd_inhand (s\<lparr>rd_timers := x120\<rparr>) = rd_inhand s"
  "rd_inhand (s\<lparr>rd_now := x121\<rparr>) = rd_inhand s"
  "rd_inhand (s\<lparr>rd_accepted := x122\<rparr>) = rd_inhand s"
  "rd_inhand (s\<lparr>rd_delivered := x123\<rparr>) = rd_inhand s"
  "rd_inhand (s\<lparr>rd_fired := x124\<rparr>) = rd_inhand s"
  "rd_inhand (s\<lparr>rd_upstream_closed := x125\<rparr>) = rd_inhand s"
  "rd_inhand (s\<lparr>rd_panicked := x126\<rparr>) = rd_inhand s"
  "rd_held (s\<lparr>rd_delay := x127\<rparr>) = rd_held s"
  "rd_held (s\<lparr>rd_termination := x128\<rparr>) = rd_held s"
  "rd_held (s\<lparr>rd_tokens := x129\<rparr>) = rd_held s"
  "rd_held (s\<lparr>rd_closed := x130\<rparr>) = rd_held s"
  "rd_held (s\<lparr>rd_writers := x131\<rparr>) = rd_held s"
  "rd_held (s\<lparr>rd_waiting := x132\<rparr>) = rd_held s"
  "rd_held (s\<lparr>rd_closer := x133\<rparr>) = rd_held s"
  "rd_held (s\<lparr>rd_timers := x134\<rparr>) = rd_held s"
  "rd_held (s\<lparr>rd_now := x135\<rparr>) = rd_held s"
  "rd_held (s\<lparr>rd_accepted := x136\<rparr>) = rd_held s"
  "rd_held (s\<lparr>rd_delivered := x137\<rparr>) = rd_held s"
  "rd_held (s\<lparr>rd_fired := x138\<rparr>) = rd_held s"
  "rd_held (s\<lparr>rd_upstream_closed := x139\<rparr>) = rd_held s"
  "rd_held (s\<lparr>rd_panicked := x140\<rparr>) = rd_held s"
  by (simp_all add: rd_queue_def rd_inhand_def rd_held_def)

lemma rd_count_pump [simp]:
  "rd_inhand (s\<lparr>rd_pump := p\<rparr>) = (case p of PumpWrite _ \<Rightarrow> 1 | _ \<Rightarrow> 0)"
  "rd_held (s\<lparr>rd_pump := p\<rparr>) = (case p of PumpTaken \<Rightarrow> 1 | PumpSleep _ _ \<Rightarrow> 1 | _ \<Rightarrow> 0)"
  by (simp_all add: rd_inhand_def rd_held_def)

lemma inv_data_frame [simp]:
  "inv_data (s\<lparr>rd_delay := x141\<rparr>) = inv_data s"
  "inv_data (s\<lparr>rd_termination := x142\<rparr>) = inv_data s"
  "inv_data (s\<lparr>rd_tokens := x143\<rparr>) = inv_data s"
  "inv_data (s\<lparr>rd_closed := x144\<rparr>) = inv_data s"
  "inv_data (s\<lparr>rd_writers := x145\<rparr>) = inv_data s"
  "inv_data (s\<lparr>rd_waiting := x146\<rparr>) = inv_data s"
  "inv_data (s\<lparr>rd_closer := x147\<rparr>) = inv_data s"
  "inv_data (s\<lparr>rd_timers := x148\<rparr>) = inv_data s"
  "inv_data (s\<lparr>rd_fired := x149\<rparr>) = inv_data s"
  "inv_data (s\<lparr>rd_upstream_closed := x150\<rparr>) = inv_data s"
  "inv_data (s\<lparr>rd_panicked := x151\<rparr>) = inv_data s"
  by (simp_all add: inv_data_def)

lemma inv_waiting_frame [simp]:
  "inv_waiting (s\<lparr>rd_delay := x152\<rparr>) = inv_waiting s"
  "inv_waiting (s\<lparr>rd_termination := x153\<rparr>) = inv_waiting s"
  "inv_waiting (s\<lparr>rd_tokens := x154\<rparr>) = inv_waiting s"
  "inv_waiting (s\<lparr>rd_closed := x155\<rparr>) = inv_waiting s"
  "inv_waiting (s\<lparr>rd_closer := x156\<rparr>) = inv_waiting s"
  "inv_waiting (s\<lparr>rd_timers := x157\<rparr>) = inv_waiting s"
  "inv_waiting (s\<lparr>rd_now := x158\<rparr>) = inv_waiting s"
  "inv_waiting (s\<lparr>rd_fired := x159\<rparr>) = inv_waiting s"
  "inv_waiting (s\<lparr>rd_upstream_closed := x160\<rparr>) = inv_waiting s"
  "inv_waiting (s\<lparr>rd_panicked := x161\<rparr>) = inv_waiting s"
  by (simp_all add: inv_waiting_def)

lemma inv_tokens_frame [simp]:
  "inv_tokens (s\<lparr>rd_delay := x162\<rparr>) = inv_tokens s"
  "inv_tokens (s\<lparr>rd_closed := x163\<rparr>) = inv_tokens s"
  "inv_tokens (s\<lparr>rd_waiting := x164\<rparr>) = inv_tokens s"
  "inv_tokens (s\<lparr>rd_closer := x165\<rparr>) = inv_tokens s"
  "inv_tokens (s\<lparr>rd_timers := x166\<rparr>) = inv_tokens s"
  "inv_tokens (s\<lparr>rd_now := x167\<rparr>) = inv_tokens s"
  "inv_tokens (s\<lparr>rd_fired := x168\<rparr>) = inv_tokens s"
  "inv_tokens (s\<lparr>rd_upstream_closed := x169\<rparr>) = inv_tokens s"
  "inv_tokens (s\<lparr>rd_panicked := x170\<rparr>) = inv_tokens s"
  by (simp_all add: inv_tokens_def)

lemma inv_term_frame [simp]:
  "inv_term (s\<lparr>rd_delay := x171\<rparr>) = inv_term s"
  "inv_term (s\<lparr>rd_tokens := x172\<rparr>) = inv_term s"
  "inv_term (s\<lparr>rd_writers := x173\<rparr>) = inv_term s"
  "inv_term (s\<lparr>rd_waiting := x174\<rparr>) = inv_term s"
  "inv_term (s\<lparr>rd_timers := x175\<rparr>) = inv_term s"
  "inv_term (s\<lparr>rd_now := x176\<rparr>) = inv_term s"
  "inv_term (s\<lparr>rd_accepted := x177\<rparr>) = inv_term s"
  "inv_term (s\<lparr>rd_delivered := x178\<rparr>) = inv_term s"
  "inv_term (s\<lparr>rd_upstream_closed := x179\<rparr>) = inv_term s"
  by (simp_all add: inv_term_def)

text \<open>
  The pump moves between points where it holds no buffer, and a writer between points where it
  neither sleeps nor waits for a slot: the queue and the wait list do not see it.
\<close>

lemma rd_queue_pump [simp]:
  "rd_inhand s = 0 \<Longrightarrow> \<forall>b. p \<noteq> PumpWrite b \<Longrightarrow> rd_queue (s\<lparr>rd_pump := p\<rparr>) = rd_queue s"
  by (cases p) (simp_all add: rd_queue_def)

lemma inv_data_pump [simp]:
  "inv_data s \<Longrightarrow> rd_inhand s = 0 \<Longrightarrow> p \<in> {PumpRecv, PumpTaken, PumpResult, PumpDone} \<Longrightarrow>
    inv_data (s\<lparr>rd_pump := p\<rparr>)"
  by (auto simp: inv_data_def)

lemma inv_waiting_pump [simp]:
  "inv_waiting s \<Longrightarrow> rd_inhand s = 0 \<Longrightarrow> \<forall>b. p \<noteq> PumpWrite b \<Longrightarrow>
    inv_waiting (s\<lparr>rd_pump := p\<rparr>)"
  by (simp add: inv_waiting_def)

lemma inv_waiting_writer:
  assumes "inv_waiting s" and "\<not> sleeping (rd_writers s ! i)"
    and "\<not> putting (rd_writers s ! i)" and "\<not> sleeping w"
  shows "inv_waiting (set_writer i w s)"
  using assms waiters_ok_update [OF _ assms(2,4)]
    count_if_update_mono [of putting "rd_writers s" i w]
  by (auto simp: inv_waiting_def)

lemma inv_tokens_writer:
  assumes "inv_tokens s" and "i < length (rd_writers s)"
    and "notifying (rd_writers s ! i) = notifying w"
  shows "inv_tokens (set_writer i w s)"
  using assms by (simp add: inv_tokens_def)

lemma rd_inv_start: "0 < n \<Longrightarrow> rd_inv (ring_delay d n t w)"
  by (auto simp: rd_inv_def inv_defs waiters_ok_def rd_counts ring_delay_def intro!: ring_rep_nil)

lemma rd_queue_front:
  assumes "inv_data s" and "rd_queue s \<noteq> []" and "rd_inhand s = 0"
  shows "ring_front s = Some (rd_accepted s ! length (rd_delivered s))"
    and "rd_queue s = rd_accepted s ! length (rd_delivered s) # tl (rd_queue s)"
proof -
  have "length (rd_delivered s) < length (rd_accepted s)"
    using assms(2,3) by (simp add: rd_queue_def)
  then show q: "rd_queue s = rd_accepted s ! length (rd_delivered s) # tl (rd_queue s)"
    using assms(3) by (simp add: rd_queue_def Cons_nth_drop_Suc [symmetric])
  show "ring_front s = Some (rd_accepted s ! length (rd_delivered s))"
    using assms(1) ring_rep_front [of s "rd_queue s"] by (simp add: inv_data_def, subst (asm) q) simp
qed

subsection \<open>Signals and removals\<close>

lemma rd_release_kind [simp]:
  "sleeping w \<Longrightarrow> putting (rd_release w)" "sleeping w \<Longrightarrow> \<not> notifying (rd_release w)"
  "\<not> sleeping (rd_release w)" "sleeping w \<Longrightarrow> \<not> putting w" "sleeping w \<Longrightarrow> \<not> notifying w"
  by (cases w; simp)+

lemma rd_signal_cases:
  assumes "rd_signal k s = Some t" and "waiters_ok sleeping (rd_waiting s) (rd_writers s)"
  obtains ws wt where "t = s\<lparr>rd_waiting := wt, rd_writers := ws\<rparr>"
    and "count_if notifying ws = count_if notifying (rd_writers s)"
    and "count_if putting ws =
      count_if putting (rd_writers s) + (if rd_waiting s = [] then 0 else 1)"
    and "waiters_ok sleeping wt ws" and "rd_waiting s = [] \<Longrightarrow> wt = []"
proof -
  obtain wt ws where c: "cond_signal rd_release k (rd_waiting s) (rd_writers s) = Some (wt, ws)"
    and t: "t = s\<lparr>rd_waiting := wt, rd_writers := ws\<rparr>"
    using assms(1) by (auto simp: rd_signal_def)
  from cond_signal_cases [OF c assms(2) rd_release_kind(3)] show ?thesis
    using that [OF t] assms(2) by cases auto
qed

text \<open>
  Removing the head once its time has come: the queue loses its first element to the pump's hand,
  a slot becomes free and one waiting writer wakes up for it.
\<close>

lemma rd_remove_inv:
  assumes inv: "rd_inv s" and held: "rd_held s = 1"
    and front: "ring_front s = Some (d, b)" and due: "d \<le> rd_now s"
    and rem: "rd_remove k (Some b) s = Some t"
  shows "rd_inv t"
proof -
  have hand: "rd_inhand s = 0"
    using held by (auto simp: rd_held_def rd_inhand_def split: rd_pump.splits)
  have data: "inv_data s" and tok: "inv_tokens s" and wait: "inv_waiting s" and trm: "inv_term s"
    using inv by (auto simp: rd_inv_def)
  have rep: "ring_rep s (rd_queue s)"
    using data by (simp add: inv_data_def)
  have ne: "rd_queue s \<noteq> []"
    using front ring_rep_front [OF rep] by (auto split: list.splits)
  note q = rd_queue_front [OF data ne hand]
  let ?x = "rd_accepted s ! length (rd_delivered s)"
  have x: "?x = (d, b)"
    using front q(1) by simp
  have rep': "ring_rep (ring_pop s) (tl (rd_queue s))"
    using rep q(2) by (metis ring_rep_pop)
  obtain u where u: "rd_signal k (ring_pop s) = Some u" and t: "t = u\<lparr>rd_pump := PumpWrite (Some b)\<rparr>"
    using rem by (auto simp: rd_remove_def)
  have wok: "waiters_ok sleeping (rd_waiting (ring_pop s)) (rd_writers (ring_pop s))"
    using wait by (simp add: inv_waiting_def)
  obtain ws wt where u': "u = ring_pop s\<lparr>rd_waiting := wt, rd_writers := ws\<rparr>"
    and n: "count_if notifying ws = count_if notifying (rd_writers s)"
    and p: "count_if putting ws =
      count_if putting (rd_writers s) + (if rd_waiting s = [] then 0 else 1)"
    and w: "waiters_ok sleeping wt ws" "rd_waiting s = [] \<Longrightarrow> wt = []"
    by (rule rd_signal_cases [OF u wok]) auto
  have queue: "rd_queue t = tl (rd_queue s)"
    using hand by (simp add: t u' rd_queue_def rd_inhand_def tl_drop drop_Suc)
  have qlen: "length (rd_queue s) = Suc (length (rd_queue t))"
    using ne by (simp add: queue)
  have lens: "length (rd_delivered s) < length (rd_accepted s)"
    using ne hand by (simp add: rd_queue_def)
  have "inv_data t"
    using data rep' lens x due unfolding inv_data_def queue
    by (simp add: t u' rd_inhand_def)
  moreover have "inv_tokens t"
    using tok held n qlen unfolding inv_tokens_def
    by (simp add: t u' rd_held_def Let_def)
  moreover have "inv_waiting t"
    using wait w p qlen unfolding inv_waiting_def
    by (auto simp: t u')
  moreover have "inv_term t"
    using trm by (auto simp: inv_term_def t u')
  ultimately show ?thesis
    by (simp add: rd_inv_def)
qed

subsection \<open>Every step keeps the invariant\<close>

lemma rd_front_held:
  assumes "rd_inv s" and "rd_held s = 1"
  obtains b where "ring_front s = Some (rd_sendTime s ! rd_head s, b)"
    and "rd_ring s ! rd_head s = Some b" and "rd_head s < length (rd_ring s)"
    and "rd_head s < length (rd_sendTime s)"
proof -
  have rep: "ring_rep s (rd_queue s)" and "rd_queue s \<noteq> []"
    using assms by (auto simp: rd_inv_def inv_data_def inv_tokens_def Let_def)
  then obtain x where "ring_front s = Some x"
    using ring_rep_front [OF rep] by (auto split: list.splits)
  then show ?thesis
    using that ring_rep_bounds [OF rep] by (auto simp: ring_front_def)
qed

lemma rd_take_inv:
  assumes "rd_inv s" and "rd_take s = Some t"
  shows "rd_inv t"
proof -
  have hand: "rd_inhand s = 0" and held: "rd_held s = 0"
    using assms(2) by (auto simp: rd_take_def rd_inhand_def rd_held_def split: if_splits)
  consider "0 < rd_tokens s" "t = s\<lparr>rd_tokens := rd_tokens s - 1, rd_pump := PumpTaken\<rparr>"
    | "rd_closed s" "t = s\<lparr>rd_pump := PumpDone\<rparr>"
    using assms(2) by (auto simp: rd_take_def split: if_splits)
  then show ?thesis
  proof cases
    case 1
    then show ?thesis
      using assms(1) hand held
      by (auto simp: rd_inv_def inv_tokens_def inv_term_def Let_def)
  next
    case 2
    then show ?thesis
      using assms(1) hand held
      by (auto simp: rd_inv_def inv_tokens_def inv_term_def Let_def)
  qed
qed

lemma rd_inspect_inv:
  assumes "rd_inv s" and "rd_inspect k s = Some t"
  shows "rd_inv t"
proof -
  have taken: "rd_pump s = PumpTaken"
    using assms(2) by (auto simp: rd_inspect_def split: if_splits)
  then have held: "rd_held s = 1"
    by (simp add: rd_held_def)
  obtain b where front: "ring_front s = Some (rd_sendTime s ! rd_head s, b)"
    and b: "rd_ring s ! rd_head s = Some b"
    and bounds: "rd_head s < length (rd_ring s)" "rd_head s < length (rd_sendTime s)"
    by (rule rd_front_held [OF assms(1) held])
  show ?thesis
  proof (cases "rd_now s < rd_sendTime s ! rd_head s")
    case True
    then have t: "t = s\<lparr>rd_pump := PumpSleep (rd_sendTime s ! rd_head s) (Some b)\<rparr>"
      using assms(2) taken bounds b by (simp add: rd_inspect_def Let_def)
    show ?thesis
      using assms(1) front taken
      by (auto simp: t rd_inv_def inv_defs rd_counts Let_def)
  next
    case False
    then show ?thesis
      using assms(2) taken bounds b rd_remove_inv [OF assms(1) held front]
      by (simp add: rd_inspect_def Let_def)
  qed
qed

lemma rd_awake_inv:
  assumes "rd_inv s" and "rd_awake k s = Some t"
  shows "rd_inv t"
proof -
  obtain d b where pump: "rd_pump s = PumpSleep d b" and due: "d \<le> rd_now s"
    and rem: "rd_remove k b s = Some t"
    using assms(2) by (auto simp: rd_awake_def split: rd_pump.splits if_splits)
  have "ring_front s = Some (d, the b)" and "b = Some (the b)"
    using assms(1) pump by (auto simp: rd_inv_def inv_data_def)
  then show ?thesis
    using rd_remove_inv [OF assms(1) _ _ due, of "the b" k t] pump rem by (simp add: rd_held_def)
qed

lemma rd_upstream_write_inv:
  assumes "rd_inv s" and "rd_upstream_write s = Some t"
  shows "rd_inv t"
proof -
  obtain b where pump: "rd_pump s = PumpWrite b"
    and t: "t = s\<lparr>rd_delivered := rd_delivered s @ [(rd_now s, b)], rd_pump := PumpResult\<rparr>"
    using assms(2) by (auto simp: rd_upstream_write_def split: rd_pump.splits)
  have queue: "rd_queue t = rd_queue s"
    by (simp add: t rd_queue_def rd_inhand_def pump)
  have "inv_data t"
    using assms(1) pump unfolding rd_inv_def inv_data_def queue
    by (simp add: t rd_inhand_def nth_append less_Suc_eq)
  then show ?thesis
    using assms(1) pump queue
    by (simp add: t rd_inv_def inv_tokens_def inv_waiting_def inv_term_def rd_held_def)
qed

lemma rd_result_inv:
  assumes "rd_inv s" and "rd_result e s = Some t"
  shows "rd_inv t"
proof -
  have "rd_inhand s = 0" and "rd_held s = 0"
    using assms(2) by (auto simp: rd_result_def rd_inhand_def rd_held_def split: if_splits)
  then show ?thesis
    using assms
    by (auto simp: rd_inv_def inv_tokens_def inv_term_def rd_result_def
        rd_close_chan_def Let_def
        split: if_splits option.splits)
qed

lemma rd_write_inv: "rd_inv s \<Longrightarrow> rd_write i p s = Some t \<Longrightarrow> rd_inv t"
  by (auto simp: rd_inv_def rd_write_def intro!: inv_waiting_writer inv_tokens_writer
      split: if_splits rd_writer.splits)

text \<open>The two outcomes of a goroutine's turn at the lock.\<close>

lemma rd_put_full_inv:
  assumes inv: "rd_inv s" and i: "i < length (rd_writers s)" and w: "rd_writers s ! i = WPut st p"
    and "ring_full s"
  shows "rd_inv (set_writer i (WSleep st p) s\<lparr>rd_waiting := rd_waiting s @ [i]\<rparr>)"
proof -
  have "length (rd_queue s) = length (rd_ring s)"
    using inv assms(4) ring_rep_full_iff [of s] by (auto simp: rd_inv_def inv_data_def)
  moreover have "waiters_ok sleeping (rd_waiting s @ [i]) ((rd_writers s)[i := WSleep st p])"
    using inv i w by (intro waiters_ok_sleep) (auto simp: rd_inv_def inv_waiting_def)
  ultimately show ?thesis
    using inv i w by (auto simp: rd_inv_def inv_waiting_def inv_tokens_def)
qed

lemma rd_put_store_inv:
  assumes inv: "rd_inv s" and i: "i < length (rd_writers s)" and w: "rd_writers s ! i = WPut st p"
    and room: "\<not> ring_full s"
  defines "t \<equiv> set_writer i (WCheck (length p))
    (ring_put (st, p) s)\<lparr>rd_accepted := rd_accepted s @ [(st, p)]\<rparr>"
  shows "rd_inv t"
proof -
  have data: "inv_data s" and rep: "ring_rep s (rd_queue s)"
    and lens: "length (rd_delivered s) + rd_inhand s \<le> length (rd_accepted s)"
    using inv by (auto simp: rd_inv_def inv_data_def)
  have queue: "rd_queue t = rd_queue s @ [(st, p)]"
    using lens by (simp add: t_def rd_queue_def rd_inhand_def)
  have front: "ring_front t = Some x" if "ring_front s = Some x" for x
    using that ring_rep_front [OF rep] ring_rep_front [OF ring_rep_put [OF rep room, of "(st, p)"]]
    by (simp add: t_def split: list.splits)
  have hand: "rd_inhand t = rd_inhand s"
    by (simp add: t_def rd_inhand_def)
  have pump: "pump_ok (rd_pump t) (ring_front t) (rd_accepted t ! length (rd_delivered t)) (rd_now t)"
    using data front lens by (cases "rd_pump s") (auto simp: t_def inv_data_def rd_inhand_def nth_append)
  have "inv_data t"
    using data ring_rep_put [OF rep room, of "(st, p)"] pump lens hand
    unfolding inv_data_def queue by (auto simp: t_def nth_append)
  moreover have "inv_tokens t"
    using inv i w unfolding rd_inv_def inv_tokens_def queue
    by (auto simp: t_def rd_held_def Let_def)
  moreover have "waiters_ok sleeping (rd_waiting s) ((rd_writers s)[i := WCheck (length p)])"
    using inv w by (intro waiters_ok_update) (auto simp: rd_inv_def inv_waiting_def)
  then have "inv_waiting t"
    using inv i w count_if_pos [of i "rd_writers s" putting]
    unfolding rd_inv_def inv_waiting_def queue by (auto simp: t_def)
  moreover have "inv_term t"
    using inv by (simp add: rd_inv_def inv_term_def t_def)
  ultimately show ?thesis
    by (simp add: rd_inv_def)
qed

lemma rd_put_inv:
  assumes "rd_inv s" and "rd_put i s = Some t"
  shows "rd_inv t"
proof -
  have "rd_tail s < length (rd_ring s)"
    using assms(1) ring_rep_bounds(3) by (auto simp: rd_inv_def inv_data_def)
  then show ?thesis
    using assms rd_put_full_inv [OF assms(1), of i] rd_put_store_inv [OF assms(1), of i]
    by (auto simp: rd_put_def split: if_splits rd_writer.splits)
qed

lemma rd_check_inv: "rd_inv s \<Longrightarrow> rd_check i s = Some t \<Longrightarrow> rd_inv t"
  by (auto simp: rd_inv_def rd_check_def inv_tokens_def intro!: inv_waiting_writer
      split: if_splits rd_writer.splits)

lemma rd_send_inv: "rd_inv s \<Longrightarrow> rd_send i s = Some t \<Longrightarrow> rd_inv t"
  using count_if_pos [of i "rd_writers s" notifying]
  by (auto simp: rd_inv_def rd_send_def inv_tokens_def inv_term_def intro!: inv_waiting_writer
      split: if_splits rd_writer.splits)

lemma rd_return_inv: "rd_inv s \<Longrightarrow> rd_return i s = Some t \<Longrightarrow> rd_inv t"
  by (auto simp: rd_inv_def rd_return_def intro!: inv_waiting_writer inv_tokens_writer
      split: if_splits rd_writer.splits)

lemma rd_close_inv: "rd_inv s \<Longrightarrow> rd_close e s = Some t \<Longrightarrow> rd_inv t"
  by (auto simp: rd_inv_def rd_close_def rd_close_chan_def inv_term_def inv_tokens_def Let_def
      split: if_splits rd_closer.splits)

lemma rd_fire_inv: "rd_inv s \<Longrightarrow> rd_fire k s = Some t \<Longrightarrow> rd_inv t"
  by (auto simp: rd_inv_def rd_fire_def inv_term_def split: if_splits)

lemma pump_ok_later: "pump_ok p f x now \<Longrightarrow> now \<le> now' \<Longrightarrow> pump_ok p f x now'"
  by (cases p) auto

lemma rd_tick_inv: "rd_inv s \<Longrightarrow> rd_inv (s\<lparr>rd_now := rd_now s + int d\<rparr>)"
  using pump_ok_later [of "rd_pump s" _ _ "rd_now s" "rd_now s + int d"]
  by (auto simp: rd_inv_def inv_data_def)

lemma rd_callback_inv: "rd_inv s \<Longrightarrow> rd_callback s = Some t \<Longrightarrow> rd_inv t"
  by (auto simp: rd_inv_def rd_callback_def)

lemma rd_step_inv: "rd_inv s \<Longrightarrow> rd_step e s = Some t \<Longrightarrow> rd_inv t"
  by (cases e)
     (auto simp: rd_step_def split: if_splits
       dest: rd_take_inv rd_inspect_inv rd_awake_inv rd_upstream_write_inv rd_result_inv rd_write_inv
         rd_put_inv rd_check_inv rd_send_inv rd_return_inv rd_close_inv rd_fire_inv rd_callback_inv
       intro: rd_tick_inv)

definition rd_start :: "ring_delayer \<Rightarrow> bool" where
  "rd_start s \<longleftrightarrow> (\<exists>d n t w. 0 < n \<and> s = ring_delay d n t w)"

lemma rd_startI: "0 < n \<Longrightarrow> rd_start (ring_delay d n t w)"
  by (auto simp: rd_start_def)

interpretation rd: invariant_machine rd_start rd_step rd_inv
  by unfold_locales (auto simp: rd_start_def rd_inv_start rd_step_inv)

lemmas rd_reachable = rd.reachable_inv [OF rd_startI]

text \<open>Everything a concrete schedule unfolds to.\<close>

lemmas rd_step_defs = rd_step_def rd_take_def rd_inspect_def rd_remove_def rd_signal_def cond_signal_def
  rd_awake_def rd_upstream_write_def rd_result_def rd_close_chan_def rd_write_def rd_check_def
  rd_send_def rd_return_def rd_put_def rd_close_def rd_callback_def rd_fire_def ring_delay_def
  ring_put_def ring_pop_def ring_full_def

end
