(* ===== verification/IoStreams.thy ===== *)
theory IoStreams
  imports Prelude
begin

text \<open>
  The interfaces of Go's package \<open>io\<close> that the program's parts are written against:
  \<open>io.ReadWriteCloser\<close> as a record of operations on a world, the contract of \<open>io.Writer\<close> as a
  locale, and \<open>io.Copy\<close>, the loop that moves a channel's bytes and relies on that contract.
\<close>

section \<open>ReadWriteCloser\<close>

text \<open>
  The operations of an \<open>io.ReadWriteCloser\<close> on a world \<open>'w\<close> (whatever the objects behind it
  keep). \<open>Read\<close> takes the length of its destination and gives the bytes it put there. A call
  that does not return (it blocks, or the program has ended) is \<open>None\<close>.
\<close>

type_synonym 's writer = "byte list \<Rightarrow> 's \<Rightarrow> ('s \<times> io_result) option"

record 'w rwc =
  rwc_read :: "nat \<Rightarrow> 'w \<Rightarrow> ('w \<times> byte list \<times> err) option"
  rwc_write :: "'w writer"
  rwc_close :: "'w \<Rightarrow> ('w \<times> err) option"

section \<open>io.Copy\<close>

text \<open>
  \<open>io.Copy(dst, src)\<close> for a source whose successive reads return the chunks of the list, the last
  one followed by \<open>io.EOF\<close>: a count outside the chunk is an invalid write, a write error ends the
  copy, and so does a short write. The result is the destination, the total and the error.
\<close>

fun io_copy :: "'s writer \<Rightarrow> byte list list \<Rightarrow> nat \<Rightarrow> 's \<Rightarrow> ('s \<times> io_result) option" where
  "io_copy write [] written s = Some (s, written, None)"
| "io_copy write (buf # bufs) written s =
     (if buf = [] then io_copy write bufs written s
      else case write buf s of
        None \<Rightarrow> None
      | Some (t, nw, ew) \<Rightarrow>
          (let bad = length buf < nw;
               nw' = (if bad then 0 else nw);
               ew' = (if bad \<and> ew = None then Some ErrInvalidWrite else ew)
           in if ew' \<noteq> None then Some (t, written + nw', ew')
              else if length buf \<noteq> nw' then Some (t, written + nw', Some ErrShortWrite)
              else io_copy write bufs (written + nw') t))"

section \<open>The contract of io.Writer\<close>

text \<open>
  From the documentation of \<open>io.Writer\<close>: \<open>Write\<close> returns the number of bytes written from \<open>p\<close>
  (\<open>0 \<le> n \<le> len(p)\<close>), and must return a non-nil error if it returns \<open>n < len(p)\<close>. The bytes it
  has taken are \<open>sunk\<close>.
\<close>

locale io_writer =
  fixes wr :: "'s writer"
    and ok :: "'s \<Rightarrow> bool"
    and sunk :: "'s \<Rightarrow> byte list"
  assumes write_ok: "ok s \<Longrightarrow> wr p s = Some (t, n, e) \<Longrightarrow> ok t"
    and write_count: "ok s \<Longrightarrow> wr p s = Some (t, n, e) \<Longrightarrow> n \<le> length p"
    and write_full: "ok s \<Longrightarrow> wr p s = Some (t, n, None) \<Longrightarrow> n = length p"
    and write_sunk: "ok s \<Longrightarrow> wr p s = Some (t, n, e) \<Longrightarrow> sunk t = sunk s @ take n p"
begin

text \<open>A copy moves a prefix of the source, of the length it reports, and all of it without error.\<close>

lemma copy_prefix:
  "ok s \<Longrightarrow> io_copy wr bufs k s = Some (t, n, e) \<Longrightarrow>
    ok t \<and> k \<le> n \<and> sunk t = sunk s @ take (n - k) (concat bufs) \<and> n - k \<le> length (concat bufs) \<and>
    (e = None \<longrightarrow> n - k = length (concat bufs))"
proof (induction bufs arbitrary: k s)
  case (Cons buf bufs)
  show ?case
  proof (cases "buf = []")
    case True
    then show ?thesis
      using Cons by simp
  next
    case False
    then obtain u m f where w: "wr buf s = Some (u, m, f)"
      using Cons.prems(2) by (auto split: option.splits)
    have u: "ok u" "m \<le> length buf" "sunk u = sunk s @ take m buf"
      using write_ok write_count write_sunk Cons.prems(1) w by blast+
    show ?thesis
    proof (cases "f = None \<and> m = length buf")
      case True
      then have "io_copy wr bufs (k + m) u = Some (t, n, e)"
        using Cons.prems(2) False w by (simp add: Let_def)
      from Cons.IH [OF u(1) this] show ?thesis
        using True u(3) by (auto simp: take_Cons' le_diff_conv)
    next
      case False
      then have f: "f \<noteq> None"
        using write_full [OF Cons.prems(1), of buf u m] w by auto
      then have "t = u" and "n = k + m" and "e = f"
        using Cons.prems(2) \<open>buf \<noteq> []\<close> w u(2) by (auto simp: Let_def split: if_splits)
      then show ?thesis
        using u f by auto
    qed
  qed
qed simp

lemma copy_complete:
  "ok s \<Longrightarrow> io_copy wr bufs 0 s = Some (t, n, None) \<Longrightarrow>
    sunk t = sunk s @ concat bufs \<and> n = length (concat bufs)"
  using copy_prefix [of s bufs 0 t n None] by simp

lemma copy_never_short:
  assumes "ok s" and "io_copy wr bufs k s = Some (t, n, Some ErrShortWrite)"
  shows "\<exists>u p v m. ok u \<and> wr p u = Some (v, m, Some ErrShortWrite)"
  using assms
proof (induction bufs arbitrary: k s)
  case (Cons buf bufs)
  show ?case
  proof (cases "buf = []")
    case True
    then show ?thesis
      using Cons by auto
  next
    case False
    then obtain u m f where w: "wr buf s = Some (u, m, f)"
      using Cons.prems(2) by (auto split: option.splits)
    have m: "m \<le> length buf"
      using write_count Cons.prems(1) w by blast
    show ?thesis
    proof (cases f)
      case None
      then have "m = length buf"
        using write_full Cons.prems(1) w by blast
      then have "io_copy wr bufs (k + m) u = Some (t, n, Some ErrShortWrite)"
        using Cons.prems(2) False w None by (simp add: Let_def)
      then show ?thesis
        using Cons.IH write_ok Cons.prems(1) w by blast
    next
      case (Some g)
      then have "f = Some ErrShortWrite"
        using Cons.prems(2) False w m by (simp add: Let_def)
      then show ?thesis
        using Cons.prems(1) w by blast
    qed
  qed
qed simp

end

end
