(* ===== verification/IoSwitch.thy ===== *)
theory IoSwitch
  imports IoStreams
begin

text \<open>
  \<open>IoSwitch\<close> (\<open>internal/predictive/ioswitch.go\<close>): a \<open>ReadWriteCloser\<close> that passes through to one
  object until \<open>Enable\<close> replaces it, once, by another.
\<close>

section \<open>State and operations\<close>

record 'w ioswitch =
  ios_passthrough :: "'w rwc"
  ios_refractor :: "'w rwc option"
  ios_enabled :: bool

definition make_ioswitch :: "'w rwc \<Rightarrow> 'w ioswitch" where
  "make_ioswitch passthrough =
     \<lparr>ios_passthrough = passthrough, ios_refractor = None, ios_enabled = False\<rparr>"

text \<open>A call through a nil \<open>refractor\<close> is a nil dereference: \<open>None\<close>.\<close>

definition ios_read :: "'w ioswitch \<Rightarrow> nat \<Rightarrow> 'w \<Rightarrow> ('w \<times> byte list \<times> err) option" where
  "ios_read ios len w =
     (if ios_enabled ios then (case ios_refractor ios of None \<Rightarrow> None | Some r \<Rightarrow> rwc_read r len w)
      else rwc_read (ios_passthrough ios) len w)"

definition ios_write :: "'w ioswitch \<Rightarrow> 'w writer" where
  "ios_write ios p w =
     (if ios_enabled ios then (case ios_refractor ios of None \<Rightarrow> None | Some r \<Rightarrow> rwc_write r p w)
      else rwc_write (ios_passthrough ios) p w)"

definition ios_close :: "'w ioswitch \<Rightarrow> 'w \<Rightarrow> ('w \<times> err) option" where
  "ios_close ios w =
     (if ios_enabled ios then (case ios_refractor ios of None \<Rightarrow> None | Some r \<Rightarrow> rwc_close r w)
      else rwc_close (ios_passthrough ios) w)"

text \<open>The argument of \<open>Enable\<close> may be nil.\<close>

definition ios_enable :: "'w rwc option \<Rightarrow> 'w ioswitch \<Rightarrow> 'w ioswitch" where
  "ios_enable refractor ios =
     (if \<not> ios_enabled ios then ios\<lparr>ios_refractor := refractor, ios_enabled := True\<rparr> else ios)"

section \<open>A client's calls\<close>

datatype 'w ios_op = OpRead nat | OpWrite "byte list" | OpClose | OpEnable "'w rwc option"

datatype ios_obs = ObsRead "byte list" err | ObsWrite io_result | ObsClose err

text \<open>One call on the switch, and the same call made on an object directly.\<close>

fun ios_call ::
  "'w ios_op \<Rightarrow> 'w ioswitch \<times> 'w \<Rightarrow> (('w ioswitch \<times> 'w) \<times> ios_obs list) option" where
  "ios_call (OpRead len) (ios, w) =
     map_option (\<lambda>(w', bs, e). ((ios, w'), [ObsRead bs e])) (ios_read ios len w)"
| "ios_call (OpWrite p) (ios, w) = map_option (\<lambda>(w', r). ((ios, w'), [ObsWrite r])) (ios_write ios p w)"
| "ios_call OpClose (ios, w) = map_option (\<lambda>(w', e). ((ios, w'), [ObsClose e])) (ios_close ios w)"
| "ios_call (OpEnable r) (ios, w) = Some ((ios_enable r ios, w), [])"

fun rwc_call :: "'w rwc \<Rightarrow> 'w ios_op \<Rightarrow> 'w \<Rightarrow> ('w \<times> ios_obs list) option" where
  "rwc_call r (OpRead len) w = map_option (\<lambda>(w', bs, e). (w', [ObsRead bs e])) (rwc_read r len w)"
| "rwc_call r (OpWrite p) w = map_option (\<lambda>(w', res). (w', [ObsWrite res])) (rwc_write r p w)"
| "rwc_call r OpClose w = map_option (\<lambda>(w', e). (w', [ObsClose e])) (rwc_close r w)"
| "rwc_call r (OpEnable _) w = Some (w, [])"

fun ios_exec ::
  "'w ios_op list \<Rightarrow> 'w ioswitch \<times> 'w \<Rightarrow> (('w ioswitch \<times> 'w) \<times> ios_obs list) option" where
  "ios_exec [] c = Some (c, [])"
| "ios_exec (op # ops) c =
     (case ios_call op c of None \<Rightarrow> None
      | Some (c', os) \<Rightarrow> map_option (\<lambda>(c'', os'). (c'', os @ os')) (ios_exec ops c'))"

fun rwc_exec :: "'w rwc \<Rightarrow> 'w ios_op list \<Rightarrow> 'w \<Rightarrow> ('w \<times> ios_obs list) option" where
  "rwc_exec r [] w = Some (w, [])"
| "rwc_exec r (op # ops) w =
     (case rwc_call r op w of None \<Rightarrow> None
      | Some (w', os) \<Rightarrow> map_option (\<lambda>(w'', os'). (w'', os @ os')) (rwc_exec r ops w'))"

fun is_enable :: "'w ios_op \<Rightarrow> bool" where
  "is_enable (OpEnable _) = True" | "is_enable _ = False"

section \<open>Properties\<close>

lemma ios_exec_append:
  "ios_exec (xs @ ys) c =
    (case ios_exec xs c of None \<Rightarrow> None
     | Some (c', os) \<Rightarrow> map_option (\<lambda>(c'', os'). (c'', os @ os')) (ios_exec ys c'))"
  by (induction xs arbitrary: c)
     (auto simp: option.map_comp option.map_id comp_def split: option.splits prod.splits
       intro!: option.map_cong)

lemmas ios_defs = ios_read_def ios_write_def ios_close_def ios_enable_def

lemma ios_exec_passthrough:
  "\<not> ios_enabled ios \<Longrightarrow> \<forall>op \<in> set ops. \<not> is_enable op \<Longrightarrow>
    ios_exec ops (ios, w) = map_option (\<lambda>(w', os). ((ios, w'), os)) (rwc_exec (ios_passthrough ios) ops w)"
proof (induction ops arbitrary: w)
  case (Cons op ops)
  then show ?case
    by (cases op) (auto simp: ios_defs option.map_comp comp_def split: option.splits
        intro!: option.map_cong)
qed simp

lemma ios_exec_enabled:
  "ios_enabled ios \<Longrightarrow> ios_refractor ios = Some r \<Longrightarrow>
    ios_exec ops (ios, w) = map_option (\<lambda>(w', os). ((ios, w'), os)) (rwc_exec r ops w)"
proof (induction ops arbitrary: w)
  case (Cons op ops)
  then show ?case
    by (cases op) (auto simp: ios_defs option.map_comp comp_def split: option.splits
        intro!: option.map_cong)
qed simp

text \<open>
  The switch is the passthrough until the first \<open>Enable\<close> and the enabled object from then on,
  for every sequence of calls: later \<open>Enable\<close>s change nothing, and no call is lost or answered by
  the wrong object.
\<close>

theorem ios_switches_once:
  assumes "\<forall>op \<in> set before. \<not> is_enable op"
  shows "ios_exec (before @ OpEnable (Some r) # after) (make_ioswitch p, w) =
    (case rwc_exec p before w of None \<Rightarrow> None
     | Some (w1, os1) \<Rightarrow> map_option (\<lambda>(w2, os2). ((ios_enable (Some r) (make_ioswitch p), w2), os1 @ os2))
         (rwc_exec r after w1))"
proof -
  have "ios_exec before (make_ioswitch p, w) =
      map_option (\<lambda>(w', os). ((make_ioswitch p, w'), os)) (rwc_exec p before w)"
    using ios_exec_passthrough [of "make_ioswitch p" before w] assms by (simp add: make_ioswitch_def)
  moreover have "ios_exec after (ios_enable (Some r) (make_ioswitch p), w') =
      map_option (\<lambda>(w'', os). ((ios_enable (Some r) (make_ioswitch p), w''), os)) (rwc_exec r after w')"
    for w'
    by (rule ios_exec_enabled) (simp_all add: ios_enable_def make_ioswitch_def)
  ultimately show ?thesis
    by (auto simp: ios_exec_append option.map_comp comp_def split: option.splits
        intro!: option.map_cong)
qed

text \<open>A witness: two logs of writes in one world, the second object enabled between two writes.\<close>

definition log_fst :: "(byte list \<times> byte list) rwc" where
  "log_fst = \<lparr>rwc_read = (\<lambda>len w. Some (w, [], Some EOF)),
     rwc_write = (\<lambda>p w. Some ((fst w @ p, snd w), length p, None)), rwc_close = (\<lambda>w. Some (w, None))\<rparr>"

definition log_snd :: "(byte list \<times> byte list) rwc" where
  "log_snd = \<lparr>rwc_read = (\<lambda>len w. Some (w, [], Some EOF)),
     rwc_write = (\<lambda>p w. Some ((fst w, snd w @ p), length p, None)), rwc_close = (\<lambda>w. Some (w, None))\<rparr>"

theorem ios_switches_once_witness:
  "\<exists>c os. ios_exec ([OpWrite [1]] @ OpEnable (Some log_snd) # [OpEnable (Some log_fst), OpWrite [2]])
      (make_ioswitch log_fst, ([], [])) = Some (c, os) \<and> snd c = ([1], [2])"
  using ios_switches_once [of "[OpWrite [1]]" log_snd "[OpEnable (Some log_fst), OpWrite [2]]"
      log_fst "([], [])"]
  by (simp add: log_fst_def log_snd_def)

section \<open>The switch keeps the writer's contract\<close>

text \<open>
  A switch whose current target keeps the contract of \<open>io.Writer\<close> keeps it too. The locale is
  interpreted on the delayer behind an enabled switch, in theory \<open>RingDelayCorrect\<close>.
\<close>

locale switched_writer =
  target: io_writer "rwc_write r" ok sunk
  for r :: "'w rwc" and ok :: "'w \<Rightarrow> bool" and sunk :: "'w \<Rightarrow> byte list" +
  fixes ios :: "'w ioswitch"
  assumes switched: "(if ios_enabled ios then ios_refractor ios else Some (ios_passthrough ios)) = Some r"
begin

lemma ios_write_eq: "ios_write ios p w = rwc_write r p w"
  using switched by (simp add: ios_write_def split: if_splits)

end

sublocale switched_writer \<subseteq> through: io_writer "ios_write ios" ok sunk
  using target.write_ok target.write_count target.write_full target.write_sunk
  by unfold_locales (auto simp: ios_write_eq)

end
