(* ===== verification/RingDelayCorrect.thy ===== *)
theory RingDelayCorrect
  imports RingDelay IoSwitch
begin

text \<open>
  What the delayer promises: delivery in order and not early, notifications that always fit,
  no lost wake-up, an empty queue within reach while the upstream accepts writes; and the two
  ways a \<open>Close\<close> with a write in flight ends the program.
\<close>

section \<open>Progress\<close>

text \<open>
  How far the delayer is from an empty queue: the buffers still in the ring, the point of the
  delivering goroutine and the notifications still to be sent.
\<close>

fun pump_weight :: "rd_pump \<Rightarrow> nat" where
  "pump_weight PumpRecv = 3" | "pump_weight PumpTaken = 2" | "pump_weight (PumpSleep _ _) = 1"
| "pump_weight (PumpWrite _) = 5" | "pump_weight PumpResult = 4" | "pump_weight PumpDone = 0"

fun unsent :: "rd_writer \<Rightarrow> bool" where
  "unsent (WCheck _) = True" | "unsent _ = False"

definition rd_weight :: "ring_delayer \<Rightarrow> nat" where
  "rd_weight s = 5 * length (rd_queue s) + pump_weight (rd_pump s)
     + count_if notifying (rd_writers s) + count_if unsent (rd_writers s)"

definition rd_running :: "ring_delayer \<Rightarrow> bool" where
  "rd_running s \<longleftrightarrow> rd_inv s \<and> rd_termination s = None \<and> \<not> rd_panicked s"

text \<open>The events of the delayer itself, over an upstream that accepts every write.\<close>

fun rd_internal :: "rd_event \<Rightarrow> bool" where
  "rd_internal (Write _ _) = False" | "rd_internal (Close _) = False" | "rd_internal Callback = False"
| "rd_internal (Result e) = (e = None)" | "rd_internal _ = True"

text \<open>The state \<open>t\<close> is one the delayer gets to on its own from \<open>s\<close>, nearer to an empty queue.\<close>

definition rd_nearer :: "ring_delayer \<Rightarrow> ring_delayer \<Rightarrow> bool" where
  "rd_nearer s t \<longleftrightarrow> runs_to rd_step rd_internal s t \<and> rd_running t \<and> rd_accepted t = rd_accepted s \<and>
     rd_weight t < rd_weight s"

lemma rd_runningD:
  assumes "rd_running s"
  shows "rd_inv s" "rd_termination s = None" "\<not> rd_panicked s" "\<not> rd_closed s"
    "rd_pump s \<noteq> PumpDone"
    "rd_tokens s + rd_held s + count_if notifying (rd_writers s) = length (rd_queue s)"
    "length (rd_queue s) \<le> length (rd_ring s)"
  using assms ring_rep_bounds(5) [of s "rd_queue s"]
  by (auto simp: rd_running_def rd_inv_def inv_term_def inv_tokens_def inv_data_def Let_def)

lemma rd_nearerI:
  assumes "rd_running s" and "rd_step e s = Some t" and "rd_internal e" and "rd_termination t = None"
    and "\<not> rd_panicked t" and "rd_accepted t = rd_accepted s" and "rd_weight t < rd_weight s"
  shows "rd_nearer s t"
  using assms rd_step_inv [of s e t] runs_to_single [of rd_internal e rd_step s t]
  by (auto simp: rd_nearer_def rd_running_def)

lemma rd_signal_enabled:
  assumes "waiters_ok sleeping (rd_waiting s) (rd_writers s)"
  shows "\<exists>ws wt. rd_signal 0 s = Some (s\<lparr>rd_waiting := wt, rd_writers := ws\<rparr>) \<and>
    count_if notifying ws = count_if notifying (rd_writers s) \<and>
    count_if unsent ws = count_if unsent (rd_writers s)"
proof (cases "rd_waiting s")
  case Nil
  then show ?thesis
    by (intro exI [of _ "rd_writers s"] exI [of _ "rd_waiting s"]) (simp add: rd_signal_def cond_signal_def)
next
  case (Cons i wt)
  then have "i < length (rd_writers s)" and sl: "sleeping (rd_writers s ! i)"
    using assms by (auto simp: waiters_ok_def)
  moreover have "\<not> unsent (rd_writers s ! i)" and "\<not> unsent (rd_release (rd_writers s ! i))"
    using sl by (cases "rd_writers s ! i"; simp)+
  ultimately show ?thesis
    using Cons by (auto simp: rd_signal_def cond_signal_def Let_def)
qed

lemma rd_remove_nearer:
  assumes run: "rd_running s" and held: "rd_held s = 1"
  shows "\<exists>t. rd_remove 0 b s = Some t \<and> rd_termination t = None \<and> \<not> rd_panicked t \<and>
    rd_accepted t = rd_accepted s \<and> rd_weight t < rd_weight s"
proof -
  have hand: "rd_inhand s = 0"
    using held by (auto simp: rd_held_def rd_inhand_def split: rd_pump.splits)
  have ne: "0 < length (rd_queue s)"
    using rd_runningD(6) [OF run] held by linarith
  have pw: "1 \<le> pump_weight (rd_pump s)"
    using held by (auto simp: rd_held_def split: rd_pump.splits)
  have "waiters_ok sleeping (rd_waiting (ring_pop s)) (rd_writers (ring_pop s))"
    using rd_runningD(1) [OF run] by (simp add: rd_inv_def inv_waiting_def)
  from rd_signal_enabled [OF this] obtain ws wt where
    sig: "rd_signal 0 (ring_pop s) = Some (ring_pop s\<lparr>rd_waiting := wt, rd_writers := ws\<rparr>)"
    and n: "count_if notifying ws = count_if notifying (rd_writers s)"
    and u: "count_if unsent ws = count_if unsent (rd_writers s)"
    by auto
  define t where "t = ring_pop s\<lparr>rd_waiting := wt, rd_writers := ws, rd_pump := PumpWrite b\<rparr>"
  have "length (rd_queue s) = Suc (length (rd_queue t))"
    using ne hand by (simp add: t_def rd_queue_def rd_inhand_def)
  then have "rd_weight t < rd_weight s"
    using pw by (simp add: rd_weight_def t_def n u)
  then show ?thesis
    using rd_runningD(2,3) [OF run] by (intro exI [of _ t]) (simp add: rd_remove_def sig t_def)
qed

text \<open>Each goroutine that has something to do can do it; the clock may have to move first.\<close>

lemma rd_pump_nearer:
  assumes run: "rd_running s" and busy: "rd_pump s \<noteq> PumpRecv"
  shows "\<exists>t. rd_nearer s t"
proof (cases "rd_pump s")
  case PumpTaken
  then have held: "rd_held s = 1"
    by (simp add: rd_held_def)
  obtain b where bounds: "rd_head s < length (rd_ring s)" "rd_head s < length (rd_sendTime s)"
    and b: "rd_ring s ! rd_head s = Some b"
    by (rule rd_front_held [OF rd_runningD(1) [OF run] held])
  show ?thesis
  proof (cases "rd_now s < rd_sendTime s ! rd_head s")
    case True
    let ?t = "s\<lparr>rd_pump := PumpSleep (rd_sendTime s ! rd_head s) (Some b)\<rparr>"
    have "rd_step (Inspect 0) s = Some ?t"
      using PumpTaken True bounds b rd_runningD(3) [OF run]
      by (simp add: rd_step_def rd_inspect_def Let_def)
    then show ?thesis
      using rd_nearerI [OF run, of "Inspect 0" ?t] rd_runningD(2,3) [OF run] PumpTaken
      by (auto simp: rd_weight_def rd_inhand_def)
  next
    case False
    obtain t where t: "rd_remove 0 (rd_ring s ! rd_head s) s = Some t" "rd_termination t = None"
      "\<not> rd_panicked t" "rd_accepted t = rd_accepted s" "rd_weight t < rd_weight s"
      using rd_remove_nearer [OF run held] by blast
    then have "rd_step (Inspect 0) s = Some t"
      using PumpTaken False bounds rd_runningD(3) [OF run]
      by (simp add: rd_step_def rd_inspect_def Let_def)
    then show ?thesis
      using rd_nearerI [OF run, of "Inspect 0" t] t(2-5) by auto
  qed
next
  case (PumpSleep d b)
  let ?u = "s\<lparr>rd_now := rd_now s + int (nat (d - rd_now s))\<rparr>"
  have tick: "rd_step (Tick (nat (d - rd_now s))) s = Some ?u"
    using rd_runningD(3) [OF run] by (simp add: rd_step_def)
  have u: "rd_running ?u" and held: "rd_held ?u = 1"
    using run rd_tick_inv [of s "nat (d - rd_now s)"] PumpSleep
    by (auto simp: rd_running_def rd_held_def)
  obtain t where t: "rd_remove 0 b ?u = Some t" "rd_termination t = None" "\<not> rd_panicked t"
    "rd_accepted t = rd_accepted ?u" "rd_weight t < rd_weight ?u"
    using rd_remove_nearer [OF u held] by blast
  then have "rd_step (Awake 0) ?u = Some t"
    using PumpSleep rd_runningD(3) [OF run] by (simp add: rd_step_def rd_awake_def)
  then have "rd_nearer ?u t"
    using rd_nearerI [OF u, of "Awake 0" t] t(2-5) by auto
  moreover have "rd_weight ?u = rd_weight s"
    by (simp add: rd_weight_def)
  ultimately show ?thesis
    using runs_to_first [of rd_internal _ rd_step s ?u t, OF _ tick] by (auto simp: rd_nearer_def)
next
  case (PumpWrite b)
  let ?t = "s\<lparr>rd_delivered := rd_delivered s @ [(rd_now s, b)], rd_pump := PumpResult\<rparr>"
  have "rd_step UpstreamWrite s = Some ?t"
    using PumpWrite rd_runningD(3) [OF run] by (simp add: rd_step_def rd_upstream_write_def)
  moreover have "rd_queue ?t = rd_queue s"
    by (simp add: rd_queue_def rd_inhand_def PumpWrite)
  ultimately show ?thesis
    using rd_nearerI [OF run, of UpstreamWrite ?t] rd_runningD(2,3) [OF run] PumpWrite
    by (auto simp: rd_weight_def)
next
  case PumpResult
  let ?t = "s\<lparr>rd_pump := PumpRecv\<rparr>"
  have "rd_step (Result None) s = Some ?t"
    using PumpResult rd_runningD(3) [OF run] by (simp add: rd_step_def rd_result_def)
  then show ?thesis
    using rd_nearerI [OF run, of "Result None" ?t] rd_runningD(2,3) [OF run] PumpResult
    by (auto simp: rd_weight_def rd_inhand_def)
qed (use busy rd_runningD(5) [OF run] in auto)

lemma rd_writer_nearer:
  assumes run: "rd_running s" and i: "i < length (rd_writers s)" and w: "notifying (rd_writers s ! i)"
  shows "\<exists>t. rd_nearer s t"
proof (cases "rd_writers s ! i")
  case (WCheck n)
  let ?t = "set_writer i (WSend n) s"
  have "rd_step (Check i) s = Some ?t"
    using WCheck i rd_runningD(2,3) [OF run] by (simp add: rd_step_def rd_check_def)
  moreover have "0 < count_if unsent (rd_writers s)"
    using count_if_pos [OF i] WCheck by simp
  ultimately show ?thesis
    using rd_nearerI [OF run, of "Check i" ?t] rd_runningD(2,3) [OF run] WCheck i
    by (auto simp: rd_weight_def)
next
  case (WSend n)
  let ?t = "set_writer i (WSent n) s\<lparr>rd_tokens := Suc (rd_tokens s)\<rparr>"
  have pos: "0 < count_if notifying (rd_writers s)"
    using count_if_pos [OF i] WSend by simp
  then have "rd_step (Send i) s = Some ?t"
    using WSend i rd_runningD(2-7) [OF run] by (simp add: rd_step_def rd_send_def)
  then show ?thesis
    using rd_nearerI [OF run, of "Send i" ?t] rd_runningD(2,3) [OF run] WSend i pos
    by (auto simp: rd_weight_def)
qed (use w in auto)

lemma rd_progress:
  assumes run: "rd_running s" and work: "rd_queue s \<noteq> [] \<or> rd_inhand s \<noteq> 0"
  shows "\<exists>t. rd_nearer s t"
proof (cases "rd_pump s = PumpRecv")
  case True
  then have idle: "rd_held s = 0" "rd_inhand s = 0"
    by (simp_all add: rd_held_def rd_inhand_def)
  show ?thesis
  proof (cases "rd_tokens s = 0")
    case True
    then have "0 < count_if notifying (rd_writers s)"
      using rd_runningD(6) [OF run] work idle by simp
    then show ?thesis
      using rd_writer_nearer [OF run] count_if_pos_ex by blast
  next
    case False
    let ?t = "s\<lparr>rd_tokens := rd_tokens s - 1, rd_pump := PumpTaken\<rparr>"
    have "rd_step Take s = Some ?t"
      using False \<open>rd_pump s = PumpRecv\<close> rd_runningD(3) [OF run]
      by (simp add: rd_step_def rd_take_def)
    then show ?thesis
      using rd_nearerI [OF run, of Take ?t] rd_runningD(2,3) [OF run] \<open>rd_pump s = PumpRecv\<close> idle
      by (auto simp: rd_weight_def)
  qed
qed (rule rd_pump_nearer [OF run])

lemma rd_drains_running:
  "rd_running s \<Longrightarrow> \<exists>t. runs_to rd_step rd_internal s t \<and> rd_running t \<and> rd_accepted t = rd_accepted s \<and>
    rd_queue t = [] \<and> rd_inhand t = 0"
proof (induction s rule: measure_induct_rule [where f = rd_weight])
  case (less s)
  show ?case
  proof (cases "rd_queue s = [] \<and> rd_inhand s = 0")
    case True
    then show ?thesis
      using less.prems by (auto intro: runs_to_here)
  next
    case False
    then obtain t where t: "rd_nearer s t"
      using rd_progress [OF less.prems] by blast
    then show ?thesis
      using less.IH [of t] by (auto simp: rd_nearer_def intro: runs_to_trans)
  qed
qed

section \<open>The contract of io.Writer\<close>

text \<open>The sections of \<open>Write\<close>, one at a time.\<close>

lemma rd_write_section:
  assumes "rd_step (Write i p) s = Some t"
  shows "i < length (rd_writers s) \<and>
    t = set_writer i (if rd_termination s \<noteq> None then WRet 0 (rd_termination s)
      else WPut (rd_now s + rd_delay s) p) s"
  using assms by (auto simp: rd_step_def rd_write_def split: if_splits rd_writer.splits)

lemma rd_put_section:
  assumes "rd_step (Put i) s = Some t" and "rd_step (Check i) t \<noteq> None" and "rd_writers s ! i = WPut st p"
  shows "i < length (rd_writers s) \<and>
    t = set_writer i (WCheck (length p)) (ring_put (st, p) s)\<lparr>rd_accepted := rd_accepted s @ [(st, p)]\<rparr>"
  using assms by (auto simp: rd_step_def rd_put_def rd_check_def split: if_splits)

lemma rd_check_section:
  assumes "rd_step (Check i) s = Some t" and "rd_writers s ! i = WCheck n" and "rd_termination s = None"
  shows "t = set_writer i (WSend n) s"
  using assms by (auto simp: rd_step_def rd_check_def split: if_splits)

lemma rd_send_section:
  assumes "rd_step (Send i) s = Some t" and "rd_step (Return i) t \<noteq> None" and "rd_writers s ! i = WSend n"
  shows "t = set_writer i (WSent n) s\<lparr>rd_tokens := Suc (rd_tokens s)\<rparr>"
  using assms by (auto simp: rd_step_def rd_send_def split: if_splits)

lemma rd_return_section:
  assumes "rd_step (Return i) s = Some t" and "rd_writers s ! i = WSent n"
  shows "t = set_writer i (WRet n (rd_termination s)) s"
  using assms by (auto simp: rd_step_def rd_return_def split: if_splits)

lemma rd_put_run:
  assumes "run rd_step [Put 0, Check 0, Send 0, Return 0] s = Some u"
    and w: "rd_writers s ! 0 = WPut st p" and live: "rd_termination s = None"
  shows "rd_writers u ! 0 = WRet (length p) None \<and> rd_accepted u = rd_accepted s @ [(st, p)]"
proof -
  obtain a b c where a: "rd_step (Put 0) s = Some a" and b: "rd_step (Check 0) a = Some b"
    and c: "rd_step (Send 0) b = Some c" and u: "rd_step (Return 0) c = Some u"
    using assms(1) by (auto split: option.splits)
  have a': "0 < length (rd_writers s)" "a = set_writer 0 (WCheck (length p))
      (ring_put (st, p) s)\<lparr>rd_accepted := rd_accepted s @ [(st, p)]\<rparr>"
    using rd_put_section [OF a _ w] b by auto
  then have b': "b = set_writer 0 (WSend (length p)) a"
    using rd_check_section [OF b] live by simp
  then have c': "c = set_writer 0 (WSent (length p)) b\<lparr>rd_tokens := Suc (rd_tokens b)\<rparr>"
    using rd_send_section [OF c] u a' by simp
  then have "u = set_writer 0 (WRet (length p) (rd_termination c)) c"
    using rd_return_section [OF u] a' b' by simp
  then show ?thesis
    using a' b' c' live by simp
qed

text \<open>What an uncontended \<open>Write\<close> does, on each of its branches.\<close>

lemma rd_write_call_cases:
  assumes "rd_write_call p s = Some (t, n, e)"
  shows "(rd_termination s \<noteq> None \<and> n = 0 \<and> e = rd_termination s \<and> rd_accepted t = rd_accepted s) \<or>
    (rd_termination s = None \<and> n = length p \<and> e = None \<and>
     rd_accepted t = rd_accepted s @ [(rd_now s + rd_delay s, p)])"
proof -
  obtain a where a: "rd_step (Write 0 p) s = Some a"
    using assms by (auto simp: rd_write_call_def split: option.splits)
  note sec = rd_write_section [OF a]
  show ?thesis
  proof (cases "rd_termination s")
    case None
    then have w: "rd_writers a ! 0 = WPut (rd_now s + rd_delay s) p"
      using sec by simp
    then obtain u where u: "run rd_step [Put 0, Check 0, Send 0, Return 0] a = Some u"
      and res: "rd_writers u ! 0 = WRet n e" "t = u"
      using assms a unfolding rd_write_call_def
      by (simp del: run.simps split: option.splits rd_writer.splits)
    then show ?thesis
      using rd_put_run [OF u w] None sec by simp
  next
    case (Some f)
    then have "t = a" and "n = 0" and "e = Some f"
      using assms a sec by (auto simp: rd_write_call_def)
    then show ?thesis
      using Some sec by simp
  qed
qed

lemma rd_write_call_inv:
  assumes "rd_inv s" and "rd_write_call p s = Some (t, n, e)"
  shows "rd_inv t"
proof -
  obtain a where a: "rd_step (Write 0 p) s = Some a"
    and t: "t = a \<or> run rd_step [Put 0, Check 0, Send 0, Return 0] a = Some t"
    using assms(2) unfolding rd_write_call_def
    by (auto simp del: run.simps split: option.splits rd_writer.splits)
  have "rd_inv a"
    using assms(1) a by (rule rd_step_inv)
  then show ?thesis
    using t rd.inv_reaches [OF run_reaches] by blast
qed

interpretation rd_writer: io_writer rd_write_call rd_inv "\<lambda>s. concat (map snd (rd_accepted s))"
proof unfold_locales
  fix s p t n e
  assume inv: "rd_inv s" and call: "rd_write_call p s = Some (t, n, e)"
  note c = rd_write_call_cases [OF call]
  show "rd_inv t"
    using inv call by (rule rd_write_call_inv)
  show "n \<le> length p"
    using c by auto
  show "concat (map snd (rd_accepted t)) = concat (map snd (rd_accepted s)) @ take n p"
    using c by auto
qed (use rd_write_call_cases in fastforce)

text \<open>Behind an enabled switch the delayer is still such a writer.\<close>

definition rd_rwc ::
  "(nat \<Rightarrow> 'u \<Rightarrow> ('u \<times> byte list \<times> err) option) \<Rightarrow> err \<Rightarrow> (ring_delayer \<times> 'u) rwc" where
  "rd_rwc upstreamRead upstreamErr =
     \<lparr>rwc_read = (\<lambda>len (s, u). map_option (\<lambda>(u', r). ((s, u'), r)) (rd_read upstreamRead len u)),
      rwc_write = (\<lambda>p (s, u). map_option (\<lambda>(s', r). ((s', u), r)) (rd_write_call p s)),
      rwc_close = (\<lambda>(s, u). map_option (\<lambda>(s', e). ((s', u), e)) (rd_close_call upstreamErr s))\<rparr>"

lemma rd_rwc_write_iff:
  "rwc_write (rd_rwc rd e) p w = Some (w', r) \<longleftrightarrow>
    rd_write_call p (fst w) = Some (fst w', r) \<and> snd w' = snd w"
  by (cases w; cases w'; cases r) (auto simp: rd_rwc_def)

interpretation rd_switch: switched_writer "rd_rwc upstreamRead upstreamErr" "rd_inv \<circ> fst"
  "\<lambda>w. concat (map snd (rd_accepted (fst w)))"
  "ios_enable (Some (rd_rwc upstreamRead upstreamErr)) (make_ioswitch sshChannel)"
  for upstreamRead upstreamErr sshChannel
proof unfold_locales
  fix s p t n e
  assume "(rd_inv \<circ> fst) s" and "rwc_write (rd_rwc upstreamRead upstreamErr) p s = Some (t, n, e)"
  then have inv: "rd_inv (fst s)" and call: "rd_write_call p (fst s) = Some (fst t, n, e)"
    by (auto simp: rd_rwc_write_iff)
  show "(rd_inv \<circ> fst) t"
    using rd_writer.write_ok [OF inv call] by simp
  show "n \<le> length p"
    using inv call by (rule rd_writer.write_count)
  show "concat (map snd (rd_accepted (fst t))) = concat (map snd (rd_accepted (fst s))) @ take n p"
    using inv call by (rule rd_writer.write_sunk)
next
  fix s p t n
  assume "(rd_inv \<circ> fst) s" and "rwc_write (rd_rwc upstreamRead upstreamErr) p s = Some (t, n, None)"
  then show "n = length p"
    by (auto simp: rd_rwc_write_iff intro: rd_writer.write_full)
qed (simp add: ios_enable_def make_ioswitch_def)

section \<open>Properties\<close>



text \<open>
  Every notification has room: in every reachable state the channel holds at most as many
  notifications as the ring holds buffers, so the send at the end of \<open>Write\<close> never blocks.
\<close>

theorem rd_send_never_blocks:
  assumes "0 < n" and "reaches rd_step (ring_delay d n t w) s" and "\<not> rd_panicked s"
    and "i < length (rd_writers s)" and "rd_writers s ! i = WSend k"
  shows "rd_tokens s < length (rd_ring s) \<and> rd_step (Send i) s \<noteq> None"
proof -
  have "rd_tokens s + count_if notifying (rd_writers s) \<le> length (rd_ring s)"
    using rd_reachable [OF assms(1,2)] ring_rep_bounds(5) [of s "rd_queue s"]
    by (auto simp: rd_inv_def inv_data_def inv_tokens_def Let_def)
  moreover have "0 < count_if notifying (rd_writers s)"
    using count_if_pos [OF assms(4)] assms(5) by simp
  ultimately show ?thesis
    using assms by (simp add: rd_step_def rd_send_def)
qed

theorem rd_send_never_blocks_witness:
  "\<exists>s. run rd_step [Write 0 [97], Put 0, Check 0] (ring_delay 5 1 0 1) = Some s \<and>
     rd_writers s ! 0 = WSend 1 \<and> rd_tokens s < length (rd_ring s) \<and> rd_step (Send 0) s \<noteq> None"
proof -
  obtain s where s: "run rd_step [Write 0 [97], Put 0, Check 0] (ring_delay 5 1 0 1) = Some s"
    and w: "\<not> rd_panicked s" "0 < length (rd_writers s)" "rd_writers s ! 0 = WSend 1"
    by (simp add: rd_step_defs Let_def)
  show ?thesis
    using s w(3) rd_send_never_blocks [OF _ run_reaches [OF s] w] by auto
qed



lemma rd_delivered_all:
  assumes "rd_running u" and "rd_queue u = []" and "rd_inhand u = 0"
  shows "map snd (rd_delivered u) = map (Some \<circ> snd) (rd_accepted u)"
proof -
  have "length (rd_delivered u) = length (rd_accepted u)"
    and "\<And>j. j < length (rd_delivered u) \<Longrightarrow> snd (rd_delivered u ! j) = Some (snd (rd_accepted u ! j))"
    using assms by (auto simp: rd_running_def rd_inv_def inv_data_def rd_queue_def)
  then show ?thesis
    by (auto intro!: nth_equalityI)
qed

text \<open>
  C2. While the delayer has not terminated, everything that \<open>Write\<close> has stored can still be
  delivered: from every such state there is a continuation of internal events (no new \<open>Write\<close>, no \<open>Close\<close>,
  no error of the upstream) after which all stored buffers have been handed to the upstream.
\<close>

theorem rd_drains:
  assumes "0 < n" and "reaches rd_step (ring_delay d n t w) s" and "\<not> rd_panicked s"
    and "rd_termination s = None"
  shows "\<exists>u. runs_to rd_step rd_internal s u \<and> rd_accepted u = rd_accepted s \<and>
    map snd (rd_delivered u) = map (Some \<circ> snd) (rd_accepted s)"
proof -
  have "rd_running s"
    using rd_reachable [OF assms(1,2)] assms(3,4) by (simp add: rd_running_def)
  from rd_drains_running [OF this] obtain u where u: "runs_to rd_step rd_internal s u" "rd_running u"
    "rd_accepted u = rd_accepted s" "rd_queue u = []" "rd_inhand u = 0"
    by blast
  then show ?thesis
    using rd_delivered_all [OF u(2,4,5)] by auto
qed

theorem rd_drains_witness:
  "\<exists>s. run rd_step [Write 0 [97], Put 0] (ring_delay 5 1 0 1) = Some s \<and> rd_accepted s = [(5, [97])] \<and>
     (\<exists>u. runs_to rd_step rd_internal s u \<and> map snd (rd_delivered u) = [Some [97]])"
proof -
  obtain s where s: "run rd_step [Write 0 [97], Put 0] (ring_delay 5 1 0 1) = Some s"
    and w: "\<not> rd_panicked s" "rd_termination s = None" "rd_accepted s = [(5, [97])]"
    by (simp add: rd_step_defs Let_def)
  show ?thesis
    using s w(3) rd_drains [OF _ run_reaches [OF s] w(1,2)] by auto
qed

lemma rd_signal_size:
  "rd_signal k s = Some t \<Longrightarrow> rd_ring t = rd_ring s \<and> rd_sendTime t = rd_sendTime s \<and>
     length (rd_writers t) = length (rd_writers s)"
  by (auto simp: rd_signal_def cond_signal_def split: if_splits)

lemma rd_remove_size:
  assumes "rd_remove k b s = Some t"
  shows "length (rd_ring t) = length (rd_ring s) \<and> rd_sendTime t = rd_sendTime s \<and>
    length (rd_writers t) = length (rd_writers s)"
proof -
  obtain u where u: "rd_signal k (ring_pop s) = Some u" and t: "t = u\<lparr>rd_pump := PumpWrite b\<rparr>"
    using assms by (auto simp: rd_remove_def)
  show ?thesis
    using rd_signal_size [OF u] by (simp add: t ring_pop_def)
qed

lemma rd_step_size:
  assumes "rd_step e s = Some t"
  shows "length (rd_ring t) = length (rd_ring s) \<and> length (rd_sendTime t) = length (rd_sendTime s) \<and>
    length (rd_writers t) = length (rd_writers s)"
proof -
  have d: "rd_dispatch e s = Some t"
    using assms by (simp add: rd_step_def split: if_splits)
  show ?thesis
  proof (cases e)
    case (Inspect k)
    then show ?thesis
      using d by (auto simp: rd_inspect_def Let_def split: if_splits dest: rd_remove_size)
  next
    case (Awake k)
    then show ?thesis
      using d by (auto simp: rd_awake_def split: if_splits rd_pump.splits dest: rd_remove_size)
  qed (use d in \<open>auto simp: rd_take_def rd_upstream_write_def rd_result_def rd_close_chan_def
      rd_write_def rd_put_def ring_put_def rd_check_def rd_send_def rd_return_def rd_close_def
      rd_callback_def rd_fire_def
      split: if_splits rd_pump.splits rd_writer.splits rd_closer.splits option.splits\<close>)
qed

lemma rd_size:
  "reaches rd_step (ring_delay d n t w) s \<Longrightarrow>
     length (rd_ring s) = n \<and> length (rd_sendTime s) = n \<and> length (rd_writers s) = w"
  by (induction rule: reaches.induct) (auto simp: ring_delay_def dest: rd_step_size)

text \<open>
  C35. The delayer's state is well formed in every reachable state: ring and send times keep their
  size, head and tail are slots, notifications and stored buffers fit, the wait list of the condition
  variable is exactly the writers that are asleep, each once; and the program cannot panic inside the
  delayer as long as nothing has terminated it (no failed upstream write and no \<open>Close\<close>).
\<close>

theorem rd_well_formed:
  assumes "0 < n" and "reaches rd_step (ring_delay d n t w) s"
  shows "length (rd_ring s) = n \<and> length (rd_sendTime s) = n \<and> rd_head s < n \<and> rd_tail s < n \<and>
    rd_tokens s \<le> n \<and> length (rd_accepted s) \<le> length (rd_delivered s) + n + 1 \<and>
    distinct (rd_waiting s) \<and>
    set (rd_waiting s) = {i. i < w \<and> sleeping (rd_writers s ! i)} \<and>
    (rd_panicked s \<longrightarrow> rd_termination s \<noteq> None)"
proof -
  have inv: "inv_data s" "inv_tokens s" "inv_waiting s" "inv_term s"
    using rd_reachable [OF assms] by (simp_all add: rd_inv_def)
  have size: "length (rd_ring s) = n" "length (rd_sendTime s) = n" "length (rd_writers s) = w"
    using rd_size [OF assms(2)] by simp_all
  have rep: "ring_rep s (rd_queue s)"
    using inv(1) by (simp add: inv_data_def)
  have queue: "length (rd_queue s) \<le> n"
    using ring_rep_bounds(5) [OF rep] size(1) by simp
  have "rd_inhand s \<le> 1"
    by (simp add: rd_inhand_def split: rd_pump.splits)
  then have "length (rd_accepted s) \<le> length (rd_delivered s) + n + 1"
    using queue by (simp add: rd_queue_def)
  moreover have "rd_tokens s \<le> n"
    using inv(2) queue by (simp add: inv_tokens_def Let_def)
  moreover have "distinct (rd_waiting s)" and
    "set (rd_waiting s) = {i. i < w \<and> sleeping (rd_writers s ! i)}"
    using inv(3) size(3) by (auto simp: inv_waiting_def waiters_ok_def)
  ultimately show ?thesis
    using ring_rep_bounds(2,3) [OF rep] size inv(4) by (simp add: inv_term_def)
qed

theorem rd_well_formed_witness:
  "\<exists>s. run rd_step [Write 0 [97], Write 1 [98], Put 0, Put 1] (ring_delay 5 1 0 2) = Some s \<and>
     set (rd_waiting s) = {1} \<and> rd_tail s < 1 \<and> \<not> rd_panicked s"
proof -
  obtain s where s: "run rd_step [Write 0 [97], Write 1 [98], Put 0, Put 1] (ring_delay 5 1 0 2) = Some s"
    and w: "rd_waiting s = [1]" "rd_termination s = None"
    by (simp add: rd_step_defs Let_def)
  show ?thesis
    using s w rd_well_formed [OF _ run_reaches [OF s]] by auto
qed

text \<open>
  C36. \<open>Close\<close> while a write is still queued ends the program: \<open>Close\<close> closes the channel and the
  upstream, the goroutine goes on with the queued buffer, the closed upstream refuses it, and the
  goroutine closes the channel a second time. This holds for every delay, ring size, payload and
  error.
\<close>

theorem rd_close_with_queued_write_panics:
  assumes "0 < n" and "0 \<le> d"
  shows "\<exists>s. run rd_step [Write 0 p, Put 0, Check 0, Send 0, Return 0,
      Close None, Close None, Close None, Close None,
      Take, Tick (nat d), Inspect 0, UpstreamWrite, Result (Some e)] (ring_delay d n t 1) = Some s \<and>
    rd_writers s ! 0 = WRet (length p) None \<and> rd_closer s = CRet None \<and> rd_panicked s"
  using assms by (simp add: rd_step_defs Let_def)

theorem rd_close_with_queued_write_panics_witness:
  "\<exists>s. run rd_step [Write 0 [97], Put 0, Check 0, Send 0, Return 0,
      Close None, Close None, Close None, Close None,
      Take, Tick (nat 5), Inspect 0, UpstreamWrite, Result (Some EOF)] (ring_delay 5 512 0 1) = Some s \<and>
    rd_panicked s"
  using rd_close_with_queued_write_panics [of 512 5 "[97]" EOF 0] by auto

text \<open>
  A \<open>Write\<close> that has stored its buffer when \<open>Close\<close> closes the channel panics too: its send
  comes after the close.
\<close>

theorem rd_write_racing_close_panics:
  assumes "0 < n"
  shows "\<exists>s. run rd_step [Write 0 p, Put 0, Check 0, Close None, Close None, Close None, Send 0]
      (ring_delay d n t 1) = Some s \<and> rd_panicked s"
  using assms by (simp add: rd_step_defs Let_def)

theorem rd_write_racing_close_panics_witness:
  "\<exists>s. run rd_step [Write 0 [97], Put 0, Check 0, Close None, Close None, Close None, Send 0]
      (ring_delay 5 512 0 1) = Some s \<and> rd_panicked s"
  using rd_write_racing_close_panics [of 512 "[97]" 5 0] by auto

text \<open>
  The error contract of an uncontended \<open>Write\<close>: after termination it stores nothing and returns
  \<open>0\<close> with the termination error; otherwise it stores the whole buffer, stamped with the clock plus
  the delay, and returns its length without error.
\<close>

theorem rd_write_outcome:
  assumes "rd_write_call p s = Some (t, n, e)"
  shows "if rd_termination s \<noteq> None
    then n = 0 \<and> e = rd_termination s \<and> rd_accepted t = rd_accepted s
    else n = length p \<and> e = None \<and> rd_accepted t = rd_accepted s @ [(rd_now s + rd_delay s, p)]"
  using rd_write_call_cases [OF assms] by auto

theorem rd_write_outcome_witness:
  "\<exists>t. rd_write_call [97, 98] (ring_delay 5 2 100 1) = Some (t, 2, None) \<and>
     rd_accepted t = [(105, [97, 98])]"
proof -
  obtain t where t: "rd_write_call [97, 98] (ring_delay 5 2 100 1) = Some (t, 2, None)"
    by (simp add: rd_write_call_def rd_step_defs Let_def)
  show ?thesis
    using t rd_write_outcome [OF t] by (auto simp: ring_delay_def)
qed

text \<open>
  Copying a channel into the delayer (\<open>io.Copy\<close> in \<open>handleSshChannel\<close>, when only the delay is
  on) never ends with a short write, and a copy without error has stored every byte in order.
\<close>

theorem rd_copy_complete:
  assumes "0 < n" and "reaches rd_step (ring_delay d n t w) s"
    and "io_copy rd_write_call bufs 0 s = Some (u, k, None)"
  shows "concat (map snd (rd_accepted u)) = concat (map snd (rd_accepted s)) @ concat bufs \<and>
    k = length (concat bufs)"
  by (rule rd_writer.copy_complete [OF rd_reachable [OF assms(1,2)] assms(3)])

theorem rd_copy_complete_witness:
  "\<exists>u. io_copy rd_write_call [[97], [98, 99]] 0 (ring_delay 5 4 0 1) = Some (u, 3, None) \<and>
     concat (map snd (rd_accepted u)) = [97, 98, 99]"
proof -
  obtain u where u: "io_copy rd_write_call [[97], [98, 99]] 0 (ring_delay 5 4 0 1) = Some (u, 3, None)"
    by (simp add: rd_write_call_def rd_step_defs Let_def)
  show ?thesis
    using u rd_copy_complete [OF _ reaches.here u] by (auto simp: ring_delay_def)
qed

end
