(* ===== verification/Asynk.thy ===== *)
theory Asynk
  imports CondVar
begin

text \<open>
  \<open>Asynk\<close>, the asynchronous sink writer (\<open>internal/predictive/asynk.go\<close>): a buffer of fixed
  capacity, a goroutine that hands it to the upstream, writers that copy into it and wait when it
  is full. The goroutine of \<open>MakeAsynk\<close>, the goroutines inside \<open>Write\<close> and the one inside \<open>Close\<close>
  are program counters; an event is one atomic section, as in theory \<open>RingDelay\<close>. The field
  \<open>upstreamErr\<close> is read and written without the lock, so its accesses are events of their own.
\<close>

section \<open>State\<close>

text \<open>
  The goroutine: waiting for a notification; holding one; about to call \<open>upstream.Write\<close> up to an
  index; inside the call; after it, about to read \<open>upstreamErr\<close> again; at the last critical
  section; returned.
\<close>

datatype ak_pump =
    AkRecv | AkTaken | AkWrite nat | AkWriting nat | AkWritten nat | AkFinish nat | AkStopped

text \<open>
  A goroutine in \<open>Write(p)\<close>: outside; at the check of \<open>upstreamErr\<close>; at the lock; at the \<open>select\<close> with
  the count it copied; about to wait; waiting; returned. The recursive calls of \<open>Write\<close> on the rest
  of \<open>p\<close> are tail calls, so they go back to the entry with the rest.
\<close>

datatype ak_writer =
    KIdle | KEntry "byte list" | KCopy "byte list" | KSelect "byte list" nat
  | KWait "byte list" nat | KSleep "byte list" nat | KRet nat err

datatype ak_closer = ClIdle | ClMark | ClChan | ClBroadcast | ClUpstream | ClRet err

record asynk =
  ak_buffer :: "byte list"
  ak_bufferIndex :: nat
  ak_notify :: bool                  \<comment> \<open>a notification is buffered in \<open>writeNotify\<close>\<close>
  ak_closed :: bool                  \<comment> \<open>\<open>writeNotify\<close> has been closed\<close>
  ak_upstreamErr :: err
  ak_upstreamCloser :: bool          \<comment> \<open>the upstream implements \<open>io.Closer\<close>\<close>
  ak_lastTransmitted :: nat          \<comment> \<open>the goroutine's \<open>lastTransmittedIndex\<close>\<close>
  ak_pump :: ak_pump
  ak_writers :: "ak_writer list"
  ak_waiting :: "nat list"           \<comment> \<open>the wait list of \<open>asynk.cond\<close>\<close>
  ak_closer :: ak_closer
  ak_accepted :: "byte list"         \<comment> \<open>every byte copied into the buffer\<close>
  ak_sent :: "byte list"             \<comment> \<open>every byte handed to \<open>upstream.Write\<close>\<close>
  ak_upstream_closed :: bool
  ak_panicked :: bool

text \<open>\<open>MakeAsynk(upstream, capacity)\<close> with a pool of \<open>w\<close> goroutines that may call \<open>Write\<close>.\<close>

definition make_asynk :: "bool \<Rightarrow> nat \<Rightarrow> nat \<Rightarrow> asynk" where
  "make_asynk upstreamCloser capacity w =
     \<lparr>ak_buffer = replicate capacity 0, ak_bufferIndex = 0, ak_notify = False, ak_closed = False,
      ak_upstreamErr = None, ak_upstreamCloser = upstreamCloser, ak_lastTransmitted = 0,
      ak_pump = AkRecv, ak_writers = replicate w KIdle, ak_waiting = [], ak_closer = ClIdle,
      ak_accepted = [], ak_sent = [], ak_upstream_closed = False, ak_panicked = False\<rparr>"

section \<open>The goroutine\<close>

definition ak_take :: "asynk \<Rightarrow> asynk option" where
  "ak_take s =
     (if ak_pump s = AkRecv \<and> ak_notify s then Some (s\<lparr>ak_notify := False, ak_pump := AkTaken\<rparr>)
      else if ak_pump s = AkRecv \<and> ak_closed s then Some (s\<lparr>ak_pump := AkStopped\<rparr>)
      else None)"

text \<open>The critical section that reads \<open>bufferIndex\<close>.\<close>

definition ak_read_index :: "asynk \<Rightarrow> asynk option" where
  "ak_read_index s =
     (if ak_pump s = AkTaken then Some (s\<lparr>ak_pump := AkWrite (ak_bufferIndex s)\<rparr>) else None)"

text \<open>
  \<open>upstream.Write(asynk.buffer[lastTransmittedIndex:nextIndex])\<close>: the slice expression panics unless
  \<open>last \<le> next \<le> cap\<close>. The call takes time; its error is assigned when it returns.
\<close>

definition ak_upstream_write :: "asynk \<Rightarrow> asynk option" where
  "ak_upstream_write s =
     (case ak_pump s of
        AkWrite next \<Rightarrow>
          Some (if ak_lastTransmitted s \<le> next \<and> next \<le> length (ak_buffer s)
            then s\<lparr>ak_sent := ak_sent s @ slice (ak_lastTransmitted s) next (ak_buffer s),
                   ak_pump := AkWriting next\<rparr>
            else s\<lparr>ak_panicked := True\<rparr>)
      | _ \<Rightarrow> None)"

definition ak_result :: "err \<Rightarrow> asynk \<Rightarrow> asynk option" where
  "ak_result e s =
     (case ak_pump s of
        AkWriting next \<Rightarrow>
          Some (s\<lparr>ak_upstreamErr := e, ak_lastTransmitted := next, ak_pump := AkWritten next\<rparr>)
      | _ \<Rightarrow> None)"

definition ak_check_err :: "asynk \<Rightarrow> asynk option" where
  "ak_check_err s =
     (case ak_pump s of
        AkWritten next \<Rightarrow>
          Some (s\<lparr>ak_pump := (if ak_upstreamErr s \<noteq> None then AkStopped else AkFinish next)\<rparr>)
      | _ \<Rightarrow> None)"

fun ak_release :: "ak_writer \<Rightarrow> ak_writer" where
  "ak_release (KSleep p n) = KEntry (drop n p)"
| "ak_release w = w"

text \<open>The last critical section: reclaim the buffer when all of it went out, then signal.\<close>

definition ak_finish :: "nat \<Rightarrow> asynk \<Rightarrow> asynk option" where
  "ak_finish k s =
     (case ak_pump s of
        AkFinish next \<Rightarrow>
          (let t = (if ak_bufferIndex s = next
                    then s\<lparr>ak_bufferIndex := 0, ak_lastTransmitted := 0\<rparr> else s)
           in map_option (\<lambda>(wt, ws). t\<lparr>ak_waiting := wt, ak_writers := ws, ak_pump := AkRecv\<rparr>)
                (cond_signal ak_release k (ak_waiting s) (ak_writers s)))
      | _ \<Rightarrow> None)"

section \<open>Write\<close>

abbreviation ak_set_writer :: "nat \<Rightarrow> ak_writer \<Rightarrow> asynk \<Rightarrow> asynk" where
  "ak_set_writer i w s \<equiv> s\<lparr>ak_writers := (ak_writers s)[i := w]\<rparr>"

definition ak_call :: "nat \<Rightarrow> byte list \<Rightarrow> asynk \<Rightarrow> asynk option" where
  "ak_call i p s =
     (if i < length (ak_writers s) then
        (case ak_writers s ! i of
           KIdle \<Rightarrow> Some (ak_set_writer i (KEntry p) s)
         | KRet _ _ \<Rightarrow> Some (ak_set_writer i (KEntry p) s)
         | _ \<Rightarrow> None)
      else None)"

definition ak_entry :: "nat \<Rightarrow> asynk \<Rightarrow> asynk option" where
  "ak_entry i s =
     (if i < length (ak_writers s) then
        (case ak_writers s ! i of
           KEntry p \<Rightarrow>
             Some (if ak_upstreamErr s \<noteq> None then ak_set_writer i (KRet 0 (ak_upstreamErr s)) s
                   else ak_set_writer i (KCopy p) s)
         | _ \<Rightarrow> None)
      else None)"

text \<open>The critical section: \<open>n := copy(asynk.buffer[asynk.bufferIndex:], p)\<close>.\<close>

definition ak_copy :: "nat \<Rightarrow> asynk \<Rightarrow> asynk option" where
  "ak_copy i s =
     (if i < length (ak_writers s) then
        (case ak_writers s ! i of
           KCopy p \<Rightarrow>
             if ak_bufferIndex s \<le> length (ak_buffer s) then
               (let (buf, n) = go_copy (ak_buffer s) (ak_bufferIndex s) p
                in Some (ak_set_writer i (KSelect p n)
                     (s\<lparr>ak_buffer := buf, ak_bufferIndex := ak_bufferIndex s + n,
                       ak_accepted := ak_accepted s @ take n p\<rparr>)))
             else Some (s\<lparr>ak_panicked := True\<rparr>)
         | _ \<Rightarrow> None)
      else None)"

text \<open>
  The \<open>select\<close>: a send on a closed channel panics, default case or not; when the notification is put
  the rest is written after a yield, otherwise after a wait.
\<close>

definition ak_select :: "nat \<Rightarrow> asynk \<Rightarrow> asynk option" where
  "ak_select i s =
     (if i < length (ak_writers s) then
        (case ak_writers s ! i of
           KSelect p n \<Rightarrow>
             Some (if ak_closed s then s\<lparr>ak_panicked := True\<rparr>
                   else if \<not> ak_notify s
                   then ak_set_writer i (if n < length p then KEntry (drop n p) else KRet n None)
                          (s\<lparr>ak_notify := True\<rparr>)
                   else ak_set_writer i (if n < length p then KWait p n else KRet n None) s)
         | _ \<Rightarrow> None)
      else None)"

definition ak_wait :: "nat \<Rightarrow> asynk \<Rightarrow> asynk option" where
  "ak_wait i s =
     (if i < length (ak_writers s) then
        (case ak_writers s ! i of
           KWait p n \<Rightarrow> Some (ak_set_writer i (KSleep p n) (s\<lparr>ak_waiting := ak_waiting s @ [i]\<rparr>))
         | _ \<Rightarrow> None)
      else None)"

section \<open>Close\<close>

definition ak_close_step :: "err \<Rightarrow> asynk \<Rightarrow> asynk option" where
  "ak_close_step e s =
     (case ak_closer s of
        ClIdle \<Rightarrow> Some (s\<lparr>ak_closer := (if ak_upstreamErr s = None then ClMark else ClChan)\<rparr>)
      | ClRet _ \<Rightarrow> Some (s\<lparr>ak_closer := (if ak_upstreamErr s = None then ClMark else ClChan)\<rparr>)
      | ClMark \<Rightarrow> Some (s\<lparr>ak_upstreamErr := Some EOF, ak_closer := ClChan\<rparr>)
      | ClChan \<Rightarrow> Some (if ak_closed s then s\<lparr>ak_panicked := True\<rparr>
                        else s\<lparr>ak_closed := True, ak_closer := ClBroadcast\<rparr>)
      | ClBroadcast \<Rightarrow>
          (let (wt, ws) = cond_broadcast ak_release (ak_waiting s) (ak_writers s)
           in Some (s\<lparr>ak_waiting := wt, ak_writers := ws, ak_closer := ClUpstream\<rparr>))
      | ClUpstream \<Rightarrow>
          Some (if ak_upstreamCloser s then s\<lparr>ak_upstream_closed := True, ak_closer := ClRet e\<rparr>
                else s\<lparr>ak_closer := ClRet None\<rparr>))"

datatype ak_event =
    PTake | PReadIndex | PUpstreamWrite | PResult err | PCheckErr | PFinish nat
  | WCall nat "byte list" | WEntry nat | WCopy nat | WSelect nat | WWait nat
  | CloseStep err

fun ak_dispatch :: "ak_event \<Rightarrow> asynk \<Rightarrow> asynk option" where
  "ak_dispatch PTake s = ak_take s"
| "ak_dispatch PReadIndex s = ak_read_index s"
| "ak_dispatch PUpstreamWrite s = ak_upstream_write s"
| "ak_dispatch (PResult e) s = ak_result e s"
| "ak_dispatch PCheckErr s = ak_check_err s"
| "ak_dispatch (PFinish k) s = ak_finish k s"
| "ak_dispatch (WCall i p) s = ak_call i p s"
| "ak_dispatch (WEntry i) s = ak_entry i s"
| "ak_dispatch (WCopy i) s = ak_copy i s"
| "ak_dispatch (WSelect i) s = ak_select i s"
| "ak_dispatch (WWait i) s = ak_wait i s"
| "ak_dispatch (CloseStep e) s = ak_close_step e s"

definition ak_step :: "ak_event \<Rightarrow> asynk \<Rightarrow> asynk option" where
  "ak_step e s = (if ak_panicked s then None else ak_dispatch e s)"

section \<open>The invariant\<close>

text \<open>
  How far the buffer has been handed to the upstream, and how far it will have been when the
  goroutine is back at the receive without taking another notification.
\<close>

definition ak_position :: "asynk \<Rightarrow> nat" where
  "ak_position s = (case ak_pump s of AkWriting next \<Rightarrow> next | _ \<Rightarrow> ak_lastTransmitted s)"

fun pump_target :: "ak_pump \<Rightarrow> nat \<Rightarrow> nat \<Rightarrow> nat" where
  "pump_target AkRecv lt index = lt"
| "pump_target AkTaken lt index = index"
| "pump_target (AkWrite next) lt index = next"
| "pump_target (AkWriting next) lt index = next"
| "pump_target (AkWritten next) lt index = next"
| "pump_target (AkFinish next) lt index = next"
| "pump_target AkStopped lt index = index"

fun pump_range :: "ak_pump \<Rightarrow> nat \<Rightarrow> nat \<Rightarrow> bool" where
  "pump_range (AkWrite next) lt index \<longleftrightarrow> lt \<le> next \<and> next \<le> index"
| "pump_range (AkWriting next) lt index \<longleftrightarrow> lt \<le> next \<and> next \<le> index"
| "pump_range (AkWritten next) lt index \<longleftrightarrow> lt = next \<and> next \<le> index"
| "pump_range (AkFinish next) lt index \<longleftrightarrow> lt = next \<and> next \<le> index"
| "pump_range _ lt index \<longleftrightarrow> True"

fun selecting :: "ak_writer \<Rightarrow> bool" where
  "selecting (KSelect _ _) = True" | "selecting _ = False"

fun asleep :: "ak_writer \<Rightarrow> bool" where
  "asleep (KSleep _ _) = True" | "asleep _ = False"

text \<open>The bytes accepted are those handed over followed by the part of the buffer still to go.\<close>

definition ak_inv_stream :: "asynk \<Rightarrow> bool" where
  "ak_inv_stream s \<longleftrightarrow>
     ak_bufferIndex s \<le> length (ak_buffer s) \<and> ak_lastTransmitted s \<le> ak_bufferIndex s \<and>
     pump_range (ak_pump s) (ak_lastTransmitted s) (ak_bufferIndex s) \<and>
     ak_accepted s = ak_sent s @ slice (ak_position s) (ak_bufferIndex s) (ak_buffer s)"

text \<open>Bytes the goroutine has not looked at yet have a notification, or a writer about to put one.\<close>

definition ak_inv_notify :: "asynk \<Rightarrow> bool" where
  "ak_inv_notify s \<longleftrightarrow>
     (pump_target (ak_pump s) (ak_lastTransmitted s) (ak_bufferIndex s) < ak_bufferIndex s \<longrightarrow>
        ak_notify s \<or> 0 < count_if selecting (ak_writers s))"

definition ak_inv_rest :: "asynk \<Rightarrow> bool" where
  "ak_inv_rest s \<longleftrightarrow> waiters_ok asleep (ak_waiting s) (ak_writers s) \<and> (ak_panicked s \<longrightarrow> ak_closed s)"

definition ak_inv :: "asynk \<Rightarrow> bool" where
  "ak_inv s \<longleftrightarrow> ak_inv_stream s \<and> ak_inv_notify s \<and> ak_inv_rest s"

lemmas ak_inv_defs = ak_inv_def ak_inv_stream_def ak_inv_notify_def ak_inv_rest_def

lemma ak_position_frame [simp]:
  "ak_position (s\<lparr>ak_buffer := x1\<rparr>) = ak_position s"
  "ak_position (s\<lparr>ak_bufferIndex := x2\<rparr>) = ak_position s"
  "ak_position (s\<lparr>ak_notify := x3\<rparr>) = ak_position s"
  "ak_position (s\<lparr>ak_closed := x4\<rparr>) = ak_position s"
  "ak_position (s\<lparr>ak_upstreamErr := x5\<rparr>) = ak_position s"
  "ak_position (s\<lparr>ak_upstreamCloser := x6\<rparr>) = ak_position s"
  "ak_position (s\<lparr>ak_writers := x7\<rparr>) = ak_position s"
  "ak_position (s\<lparr>ak_waiting := x8\<rparr>) = ak_position s"
  "ak_position (s\<lparr>ak_closer := x9\<rparr>) = ak_position s"
  "ak_position (s\<lparr>ak_accepted := x10\<rparr>) = ak_position s"
  "ak_position (s\<lparr>ak_sent := x11\<rparr>) = ak_position s"
  "ak_position (s\<lparr>ak_upstream_closed := x12\<rparr>) = ak_position s"
  "ak_position (s\<lparr>ak_panicked := x13\<rparr>) = ak_position s"
  by (cases "ak_pump s"; simp add: ak_position_def)+

lemma ak_release_awake [simp]:
  "\<not> asleep (ak_release w)" "selecting (ak_release w) = selecting w"
  "asleep w \<Longrightarrow> \<not> selecting w"
  by (cases w; simp)+

lemma ak_inv_start: "ak_inv (make_asynk c cap w)"
  by (simp add: ak_inv_defs make_asynk_def waiters_ok_start ak_position_def)

subsection \<open>Every step keeps it\<close>

lemma ak_take_inv: "ak_inv s \<Longrightarrow> ak_take s = Some t \<Longrightarrow> ak_inv t"
  by (auto simp: ak_inv_defs ak_take_def ak_position_def split: if_splits)

lemma ak_read_index_inv: "ak_inv s \<Longrightarrow> ak_read_index s = Some t \<Longrightarrow> ak_inv t"
  by (auto simp: ak_inv_defs ak_read_index_def ak_position_def split: if_splits)

lemma ak_upstream_write_inv:
  assumes "ak_inv s" and "ak_upstream_write s = Some t"
  shows "ak_inv t"
proof -
  obtain nxt where pump: "ak_pump s = AkWrite nxt"
    using assms(2) by (auto simp: ak_upstream_write_def split: ak_pump.splits)
  have range: "ak_lastTransmitted s \<le> nxt" "nxt \<le> ak_bufferIndex s"
    "ak_bufferIndex s \<le> length (ak_buffer s)"
    using assms(1) pump by (auto simp: ak_inv_def ak_inv_stream_def)
  then show ?thesis
    using assms pump slice_append [OF range(1,2), of "ak_buffer s"]
    by (auto simp: ak_inv_defs ak_upstream_write_def ak_position_def)
qed

lemma ak_result_inv: "ak_inv s \<Longrightarrow> ak_result e s = Some t \<Longrightarrow> ak_inv t"
  by (auto simp: ak_inv_defs ak_result_def ak_position_def split: ak_pump.splits)

lemma ak_check_err_inv:
  assumes "ak_inv s" and "ak_check_err s = Some t"
  shows "ak_inv t"
proof -
  obtain nxt where pump: "ak_pump s = AkWritten nxt"
    and t: "t = s\<lparr>ak_pump := (if ak_upstreamErr s \<noteq> None then AkStopped else AkFinish nxt)\<rparr>"
    using assms(2) by (simp add: ak_check_err_def split: ak_pump.splits)
  show ?thesis
    using assms(1) pump
    by (cases "ak_upstreamErr s = None") (simp_all add: ak_inv_defs ak_position_def t)
qed

lemma ak_release_wakes: "asleep w \<Longrightarrow> \<not> asleep (ak_release w)"
  by simp

lemma cond_signal_selecting:
  assumes "cond_signal ak_release k wt ws = Some (wt', ws')" and "waiters_ok asleep wt ws"
  shows "waiters_ok asleep wt' ws' \<and> count_if selecting ws' = count_if selecting ws"
proof -
  have keep: "count_if selecting (ws[i := ak_release (ws ! i)]) = count_if selecting ws"
    if "i < length ws" for i
    by (rule count_if_update_same [OF that]) simp
  show ?thesis
  proof (rule cond_signal_cases [OF assms ak_release_wakes])
    show "\<lbrakk>wt = []; wt' = []; ws' = ws\<rbrakk> \<Longrightarrow> ?thesis"
      using assms(2) by (simp only: simp_thms)
    show "\<lbrakk>i < length ws; asleep (ws ! i); ws' = ws[i := ak_release (ws ! i)]; wt \<noteq> [];
        waiters_ok asleep wt' ws'\<rbrakk> \<Longrightarrow> ?thesis" for i
      by (simp only: keep simp_thms)
  qed
qed

lemma ak_finish_inv:
  assumes "ak_inv s" and "ak_finish k s = Some t"
  shows "ak_inv t"
proof -
  obtain nxt where pump: "ak_pump s = AkFinish nxt"
    using assms(2) by (auto simp: ak_finish_def split: ak_pump.splits)
  obtain wt ws where sig: "cond_signal ak_release k (ak_waiting s) (ak_writers s) = Some (wt, ws)"
    using assms(2) pump by (auto simp: ak_finish_def Let_def)
  have "waiters_ok asleep wt ws \<and> count_if selecting ws = count_if selecting (ak_writers s)"
    using cond_signal_selecting [OF sig] assms(1) by (simp add: ak_inv_def ak_inv_rest_def)
  then show ?thesis
    using assms pump sig by (auto simp: ak_inv_defs ak_finish_def Let_def ak_position_def split: if_splits)
qed

text \<open>A writer that moves between points where it neither sleeps nor selects.\<close>

lemma ak_inv_writer:
  assumes "ak_inv s" and "\<not> asleep (ak_writers s ! i)" and "\<not> asleep w"
    and "selecting (ak_writers s ! i) \<longrightarrow> ak_notify s"
  shows "ak_inv (ak_set_writer i w s)"
  using assms waiters_ok_update [OF _ assms(2,3)]
    count_if_update_mono [of selecting "ak_writers s" i w]
  by (auto simp: ak_inv_defs)

lemma ak_call_inv: "ak_inv s \<Longrightarrow> ak_call i p s = Some t \<Longrightarrow> ak_inv t"
  by (auto simp: ak_call_def intro!: ak_inv_writer split: if_splits ak_writer.splits)

lemma ak_entry_inv: "ak_inv s \<Longrightarrow> ak_entry i s = Some t \<Longrightarrow> ak_inv t"
  by (auto simp: ak_entry_def intro!: ak_inv_writer split: if_splits ak_writer.splits)

lemma ak_copy_inv:
  assumes inv: "ak_inv s" and "ak_copy i s = Some t"
  shows "ak_inv t"
proof -
  obtain p where i: "i < length (ak_writers s)" and w: "ak_writers s ! i = KCopy p"
    using assms(2) by (auto simp: ak_copy_def split: if_splits ak_writer.splits)
  let ?j = "ak_bufferIndex s" and ?n = "min (length (ak_buffer s) - ak_bufferIndex s) (length p)"
  have j: "?j \<le> length (ak_buffer s)" and pos: "ak_position s \<le> ?j"
    using inv by (auto simp: ak_inv_def ak_inv_stream_def ak_position_def split: ak_pump.splits)
  define buf where "buf = fst (go_copy (ak_buffer s) ?j p)"
  have copy: "go_copy (ak_buffer s) ?j p = (buf, ?n)"
    by (simp add: buf_def prod_eq_iff)
  have t: "t = ak_set_writer i (KSelect p ?n)
      (s\<lparr>ak_buffer := buf, ak_bufferIndex := ?j + ?n, ak_accepted := ak_accepted s @ take ?n p\<rparr>)"
    using assms(2) i w j by (simp add: ak_copy_def copy)
  have len: "length buf = length (ak_buffer s)"
    using j by (simp add: buf_def)
  have "slice (ak_position s) (?j + ?n) buf = slice (ak_position s) ?j (ak_buffer s) @ take ?n p"
    unfolding buf_def by (rule slice_go_copy_extend [OF pos j refl])
  then have "ak_inv_stream t"
    using inv j len by (cases "ak_pump s") (auto simp: ak_inv_def ak_inv_stream_def t)
  moreover have "ak_inv_notify t"
    using i w by (simp add: ak_inv_notify_def t)
  moreover have "ak_inv_rest t"
    using inv w waiters_ok_update [of asleep "ak_waiting s" "ak_writers s" i "KSelect p ?n"]
    by (simp add: ak_inv_def ak_inv_rest_def t)
  ultimately show ?thesis
    by (simp add: ak_inv_def)
qed

lemma ak_inv_notified: "ak_inv s \<Longrightarrow> ak_inv (s\<lparr>ak_notify := True\<rparr>)"
  by (simp add: ak_inv_defs)

lemma ak_inv_panic: "ak_inv s \<Longrightarrow> ak_closed s \<Longrightarrow> ak_inv (s\<lparr>ak_panicked := True\<rparr>)"
  by (simp add: ak_inv_defs)

lemma ak_select_inv:
  assumes "ak_inv s" and "ak_select i s = Some t"
  shows "ak_inv t"
proof -
  obtain p n where w: "ak_writers s ! i = KSelect p n" and i: "i < length (ak_writers s)"
    using assms(2) by (auto simp: ak_select_def split: if_splits ak_writer.splits)
  have "ak_inv (ak_set_writer i v (s\<lparr>ak_notify := True\<rparr>))" if "\<not> asleep v" for v
    using ak_inv_writer [OF ak_inv_notified [OF assms(1)]] w that by simp
  moreover have "ak_inv (ak_set_writer i v s)" if "\<not> asleep v" "ak_notify s" for v
    using ak_inv_writer [OF assms(1)] w that by simp
  ultimately show ?thesis
    using assms w i ak_inv_panic [OF assms(1)] by (auto simp: ak_select_def)
qed

lemma ak_wait_inv:
  assumes "ak_inv s" and "ak_wait i s = Some t"
  shows "ak_inv t"
proof -
  obtain p n where w: "ak_writers s ! i = KWait p n" and i: "i < length (ak_writers s)"
    and t: "t = ak_set_writer i (KSleep p n) (s\<lparr>ak_waiting := ak_waiting s @ [i]\<rparr>)"
    using assms(2) by (auto simp: ak_wait_def split: if_splits ak_writer.splits)
  have "waiters_ok asleep (ak_waiting s @ [i]) ((ak_writers s)[i := KSleep p n])"
    using assms(1) w i by (intro waiters_ok_sleep) (auto simp: ak_inv_def ak_inv_rest_def)
  then show ?thesis
    using assms(1) w i by (simp add: ak_inv_defs t)
qed

lemma cond_broadcast_selecting:
  assumes "waiters_ok asleep wt ws" and "cond_broadcast ak_release wt ws = (wt', ws')"
  shows "waiters_ok asleep wt' ws' \<and> count_if selecting ws' = count_if selecting ws"
proof -
  have "map selecting ws' = map selecting ws"
    using assms(2) by (auto simp: cond_broadcast_def intro!: nth_equalityI split: if_splits)
  then have "count_if selecting ws' = count_if selecting ws"
    by (rule count_if_map)
  then show ?thesis
    using cond_broadcast_awake [OF assms(1) ak_release_awake(1) assms(2)] by simp
qed

lemma ak_close_step_inv: "ak_inv s \<Longrightarrow> ak_close_step e s = Some t \<Longrightarrow> ak_inv t"
  using cond_broadcast_selecting [of "ak_waiting s" "ak_writers s"]
  by (auto simp: ak_close_step_def ak_inv_defs split: ak_closer.splits if_splits prod.splits)

lemma ak_step_inv: "ak_inv s \<Longrightarrow> ak_step e s = Some t \<Longrightarrow> ak_inv t"
  by (cases e)
     (auto simp: ak_step_def split: if_splits
       dest: ak_take_inv ak_read_index_inv ak_upstream_write_inv ak_result_inv ak_check_err_inv
         ak_finish_inv ak_call_inv ak_entry_inv ak_copy_inv ak_select_inv ak_wait_inv
         ak_close_step_inv)

definition ak_start :: "asynk \<Rightarrow> bool" where
  "ak_start s \<longleftrightarrow> (\<exists>c cap w. s = make_asynk c cap w)"

interpretation ak: invariant_machine ak_start ak_step ak_inv
  by unfold_locales (auto simp: ak_start_def ak_inv_start ak_step_inv)

lemma ak_reachable: "reaches ak_step (make_asynk c cap w) s \<Longrightarrow> ak_inv s"
  by (rule ak.reachable_inv) (auto simp: ak_start_def)

lemmas ak_step_defs = ak_step_def ak_take_def ak_read_index_def ak_upstream_write_def ak_result_def
  ak_check_err_def ak_finish_def ak_call_def ak_entry_def ak_copy_def ak_select_def ak_wait_def
  ak_close_step_def make_asynk_def cond_signal_def cond_broadcast_def go_copy_def slice_def

end
