(* ===== verification/AsynkCorrect.thy ===== *)
theory AsynkCorrect
  imports Asynk
begin

text \<open>
  What the asynchronous sink promises: the upstream sees the accepted bytes in order, one round of
  the goroutine hands over everything accepted, nothing is left behind at rest, a write that fits
  never waits; and where the promise of \<open>io.Writer\<close>, or of \<open>Close\<close>, is not kept: counts of long
  writes, a lost wake-up, writers stranded by an upstream error, panics after \<open>Close\<close>.
\<close>

section \<open>The bytes handed over\<close>

text \<open>Closing a batch: the whole buffer has gone when the goroutine would look at nothing new.\<close>

lemma ak_flushed:
  assumes "ak_inv s" and "ak_pump s = AkRecv" and "\<not> ak_notify s"
    and "count_if selecting (ak_writers s) = 0"
  shows "ak_sent s = ak_accepted s"
  using assms by (auto simp: ak_inv_def ak_inv_notify_def ak_inv_stream_def ak_position_def)

text \<open>
  The abstract sink: a pipe of bounded capacity. Bytes go in at the end while there is room, come out
  at the front, and an event of the sink may do neither.
\<close>

inductive pipe_step ::
  "nat \<Rightarrow> byte list \<times> byte list \<Rightarrow> byte list \<times> byte list \<Rightarrow> bool" for capacity where
  pipe_idle: "pipe_step capacity p p"
| pipe_accept: "length (held @ bs) \<le> capacity \<Longrightarrow> pipe_step capacity (out, held) (out, held @ bs)"
| pipe_send: "pipe_step capacity (out, bs @ held) (out @ bs, held)"

inductive_simps pipe_step_iff: "pipe_step capacity (out, held) (out', held')"

definition ak_pipe :: "asynk \<Rightarrow> byte list \<times> byte list" where
  "ak_pipe s = (ak_sent s, slice (ak_position s) (ak_bufferIndex s) (ak_buffer s))"

text \<open>Only the copy of a writer and the call of the goroutine touch the two streams.\<close>

lemma ak_step_streams:
  assumes "ak_step e s = Some t"
  shows "length (ak_buffer t) = length (ak_buffer s) \<and>
    (\<exists>x y. ak_sent t = ak_sent s @ x \<and> ak_accepted t = ak_accepted s @ y \<and> (x = [] \<or> y = []))"
proof (cases e)
  case (WCopy i)
  then show ?thesis
    using assms by (auto simp: ak_step_def ak_copy_def Let_def case_prod_beta split: if_splits ak_writer.splits)
next
  case (CloseStep r)
  then show ?thesis
    using assms by (auto simp: ak_step_def ak_close_step_def case_prod_beta
        split: if_splits ak_closer.splits option.splits)
qed (use assms in \<open>auto simp: ak_step_def case_prod_beta ak_take_def ak_read_index_def ak_upstream_write_def
    ak_result_def ak_check_err_def ak_finish_def ak_call_def ak_entry_def ak_select_def ak_wait_def
    Let_def split: if_splits ak_pump.splits ak_writer.splits\<close>)

lemma ak_pipe_held:
  assumes "ak_inv s"
  shows "ak_accepted s = fst (ak_pipe s) @ snd (ak_pipe s) \<and>
    length (snd (ak_pipe s)) \<le> length (ak_buffer s)"
  using assms by (auto simp: ak_pipe_def ak_inv_def ak_inv_stream_def)

lemma ak_simulates_pipe:
  assumes "ak_inv s" and "ak_step e s = Some t"
  shows "pipe_step (length (ak_buffer s)) (ak_pipe s) (ak_pipe t)"
proof -
  obtain x y where xy: "ak_sent t = ak_sent s @ x" "ak_accepted t = ak_accepted s @ y" "x = [] \<or> y = []"
    and len: "length (ak_buffer t) = length (ak_buffer s)"
    using ak_step_streams [OF assms(2)] by blast
  have inv: "ak_inv t"
    by (rule ak_step_inv [OF assms])
  have eq: "snd (ak_pipe s) @ y = x @ snd (ak_pipe t)"
    using ak_pipe_held [OF assms(1)] ak_pipe_held [OF inv] xy(1,2) by (simp add: ak_pipe_def)
  have sent: "fst (ak_pipe t) = fst (ak_pipe s) @ x"
    using xy(1) by (simp add: ak_pipe_def)
  show ?thesis
  proof (cases "x = []")
    case True
    then have t: "ak_pipe t = (fst (ak_pipe s), snd (ak_pipe s) @ y)"
      using eq sent by (simp add: prod_eq_iff)
    have "length (snd (ak_pipe s) @ y) \<le> length (ak_buffer s)"
      using ak_pipe_held [OF inv] len t by simp
    then show ?thesis
      using pipe_accept [of "snd (ak_pipe s)" y "length (ak_buffer s)" "fst (ak_pipe s)"]
      by (simp add: t)
  next
    case False
    then have s: "ak_pipe s = (fst (ak_pipe s), x @ snd (ak_pipe t))"
      using xy(3) eq by (simp add: prod_eq_iff)
    have t: "ak_pipe t = (fst (ak_pipe s) @ x, snd (ak_pipe t))"
      using sent by (simp add: prod_eq_iff)
    show ?thesis
      by (subst s, subst t) (rule pipe_send)
  qed
qed

text \<open>
  C4. The sink implements a bounded pipe: in every reachable state the accepted bytes are those handed to
  the upstream followed by those the buffer still holds, at most its capacity; every event accepts
  bytes at the end while there is room, or hands bytes from the front to the upstream, or does
  neither; and the program panics inside the sink only after \<open>Close\<close> has closed the channel.
\<close>

theorem ak_stream_in_order:
  assumes "reaches ak_step (make_asynk c cap w) s"
  shows "ak_accepted s = fst (ak_pipe s) @ snd (ak_pipe s) \<and>
    length (snd (ak_pipe s)) \<le> length (ak_buffer s) \<and>
    (\<forall>e t. ak_step e s = Some t \<longrightarrow> pipe_step (length (ak_buffer s)) (ak_pipe s) (ak_pipe t)) \<and>
    (ak_panicked s \<longrightarrow> ak_closed s)"
proof -
  have inv: "ak_inv s"
    by (rule ak_reachable [OF assms])
  then have "ak_panicked s \<longrightarrow> ak_closed s"
    by (simp add: ak_inv_def ak_inv_rest_def)
  then show ?thesis
    using ak_pipe_held [OF inv] ak_simulates_pipe [OF inv] by blast
qed

theorem ak_stream_in_order_witness:
  "\<exists>s. run ak_step [WCall 0 [97, 98, 99], WEntry 0, WCopy 0, WSelect 0, PTake, PReadIndex,
      PUpstreamWrite] (make_asynk True 2 1) = Some s \<and>
    ak_sent s = [97, 98] \<and> ak_accepted s = ak_sent s @ []"
proof -
  obtain s where s: "run ak_step [WCall 0 [97, 98, 99], WEntry 0, WCopy 0, WSelect 0, PTake,
      PReadIndex, PUpstreamWrite] (make_asynk True 2 1) = Some s"
    and v: "ak_sent s = [97, 98]" "ak_pump s = AkWriting 2" "ak_bufferIndex s = 2"
    by (simp add: ak_step_defs Let_def eval_nat_numeral)
  show ?thesis
    using s v ak_stream_in_order [OF run_reaches [OF s]] by (auto simp: ak_pipe_def ak_position_def)
qed

text \<open>
  At rest nothing is left behind: when the goroutine waits for a notification, none is
  buffered and no writer is about to put one, the upstream has been handed every accepted byte.
\<close>

theorem ak_at_rest_flushed:
  assumes "reaches ak_step (make_asynk c cap w) s" and "ak_pump s = AkRecv"
    and "\<not> ak_notify s" and "count_if selecting (ak_writers s) = 0"
  shows "ak_sent s = ak_accepted s"
  by (rule ak_flushed [OF ak_reachable [OF assms(1)] assms(2-4)])

theorem ak_at_rest_flushed_witness:
  "\<exists>s. run ak_step [WCall 0 [97], WEntry 0, WCopy 0, WSelect 0, PTake, PReadIndex,
      PUpstreamWrite, PResult None, PCheckErr, PFinish 0] (make_asynk True 2 1) = Some s \<and>
    ak_sent s = ak_accepted s \<and> ak_accepted s = [97]"
proof -
  obtain s where s: "run ak_step [WCall 0 [97], WEntry 0, WCopy 0, WSelect 0, PTake, PReadIndex,
      PUpstreamWrite, PResult None, PCheckErr, PFinish 0] (make_asynk True 2 1) = Some s"
    and v: "ak_accepted s = [97]" "ak_pump s = AkRecv" "\<not> ak_notify s"
      "count_if selecting (ak_writers s) = 0"
    by (simp add: ak_step_defs Let_def eval_nat_numeral)
  show ?thesis
    using s v ak_at_rest_flushed [OF run_reaches [OF s] v(2-4)] by simp
qed

section \<open>One round of the goroutine\<close>

definition ak_round :: "ak_event list" where
  "ak_round = [PTake, PReadIndex, PUpstreamWrite, PResult None, PCheckErr, PFinish 0]"

lemma ak_round_run:
  assumes "reaches ak_step (make_asynk c cap w) s"
    and "ak_notify s" and "ak_pump s = AkRecv" and "\<not> ak_panicked s"
  shows "\<exists>t. run ak_step ak_round s = Some t \<and> ak_sent t = ak_accepted s \<and>
    ak_accepted t = ak_accepted s \<and> ak_bufferIndex t = 0 \<and> ak_pump t = AkRecv \<and>
    \<not> ak_panicked t \<and> length (ak_waiting t) = length (ak_waiting s) - 1"
proof -
  have inv: "ak_inv s"
    by (rule ak_reachable [OF assms(1)])
  let ?u = "s\<lparr>ak_notify := False, ak_sent := ak_accepted s, ak_upstreamErr := None,
    ak_bufferIndex := 0, ak_lastTransmitted := 0\<rparr>"
  obtain wt ws where sig: "cond_signal ak_release 0 (ak_waiting s) (ak_writers s) = Some (wt, ws)"
    using cond_signal_enabled [of ak_release "ak_waiting s" "ak_writers s"] by auto
  then have wt: "length wt = length (ak_waiting s) - 1"
    by (auto simp: cond_signal_def split: if_splits)
  have "run ak_step ak_round s = Some (?u\<lparr>ak_waiting := wt, ak_writers := ws, ak_pump := AkRecv\<rparr>)"
    using assms(2-4) inv sig
    by (simp add: ak_round_def ak_step_def ak_take_def ak_read_index_def ak_upstream_write_def
        ak_result_def ak_check_err_def ak_finish_def ak_inv_def ak_inv_stream_def ak_position_def)
  then show ?thesis
    using wt assms(4) by simp
qed

text \<open>
  The sink makes progress: from every reachable state with a notification buffered and the
  goroutine waiting for it, the six events of one round are enabled (the upstream accepts the
  write), do not panic, and leave the upstream with every byte that had been accepted, the buffer
  empty again, and one sleeping writer fewer (if there was one).
\<close>

theorem ak_round_flushes:
  assumes "reaches ak_step (make_asynk c cap w) s"
    and "ak_notify s" and "ak_pump s = AkRecv" and "\<not> ak_panicked s"
  shows "\<exists>t. run ak_step ak_round s = Some t \<and> ak_sent t = ak_accepted s \<and>
    ak_accepted t = ak_accepted s \<and> ak_bufferIndex t = 0 \<and> ak_pump t = AkRecv \<and>
    \<not> ak_panicked t \<and> length (ak_waiting t) = length (ak_waiting s) - 1"
  by (rule ak_round_run [OF assms])

theorem ak_round_flushes_witness:
  "\<exists>s. run ak_step [WCall 0 [97], WEntry 0, WCopy 0, WSelect 0] (make_asynk True 2 1) = Some s \<and>
    (\<exists>t. run ak_step ak_round s = Some t \<and> ak_sent t = [97])"
proof -
  obtain s where s: "run ak_step [WCall 0 [97], WEntry 0, WCopy 0, WSelect 0]
      (make_asynk True 2 1) = Some s"
    and v: "ak_notify s" "ak_pump s = AkRecv" "\<not> ak_panicked s" "ak_accepted s = [97]"
    by (simp add: ak_step_defs Let_def eval_nat_numeral)
  show ?thesis
    using s v ak_round_flushes [OF run_reaches [OF s] v(1-3)] by auto
qed

section \<open>Writes\<close>

text \<open>
  A write that fits in the free part of the buffer never waits, whatever the upstream is doing:
  its three events are enabled, it returns its length without error, the bytes are accepted at the
  end of the stream, and a notification is left for the goroutine.
\<close>

theorem ak_fitting_write_returns:
  assumes "i < length (ak_writers s)" and "ak_writers s ! i = KEntry p"
    and "ak_bufferIndex s + length p \<le> length (ak_buffer s)"
    and "ak_upstreamErr s = None" and "\<not> ak_closed s" and "\<not> ak_panicked s"
  shows "\<exists>t. run ak_step [WEntry i, WCopy i, WSelect i] s = Some t \<and>
    ak_writers t ! i = KRet (length p) None \<and> ak_accepted t = ak_accepted s @ p \<and> ak_notify t"
  using assms
  by (auto simp: ak_step_def ak_entry_def ak_copy_def ak_select_def go_copy_def Let_def)

theorem ak_fitting_write_returns_witness:
  "\<exists>s t. ak_step (WCall 0 [97, 98]) (make_asynk True 4 1) = Some s \<and>
    run ak_step [WEntry 0, WCopy 0, WSelect 0] s = Some t \<and>
    ak_writers t ! 0 = KRet 2 None \<and> ak_accepted t = [97, 98]"
proof -
  obtain s where s: "ak_step (WCall 0 [97, 98]) (make_asynk True 4 1) = Some s"
    and v: "0 < length (ak_writers s)" "ak_writers s ! 0 = KEntry [97, 98]"
      "ak_bufferIndex s + length [97::byte, 98] \<le> length (ak_buffer s)"
      "ak_upstreamErr s = None" "\<not> ak_closed s" "\<not> ak_panicked s" "ak_accepted s = []"
    by (simp add: ak_step_defs)
  show ?thesis
    using s v ak_fitting_write_returns [OF v(1-6)] by (auto simp: numeral_2_eq_2)
qed

text \<open>
  C27. A write longer than the buffer breaks the contract of \<open>io.Writer\<close>: the tail call returns the
  count of the last piece, so for every capacity \<open>c\<close> and every \<open>p\<close> of more than \<open>c\<close> and at most \<open>2 c\<close>
  bytes there is a schedule in which all of \<open>p\<close> reaches the upstream, yet \<open>Write\<close> returns
  \<open>len(p) - c\<close> with a nil error.
\<close>

theorem ak_long_write_short_count:
  assumes "0 < c" and "c < length p" and "length p \<le> 2 * c"
  shows "\<exists>s. run ak_step ([WCall 0 p, WEntry 0, WCopy 0, WSelect 0] @ ak_round @
      [WEntry 0, WCopy 0, WSelect 0] @ ak_round) (make_asynk u c 1) = Some s \<and>
    ak_sent s = p \<and> ak_writers s ! 0 = KRet (length p - c) None \<and> length p - c < length p"
proof -
  have "min c (length p) = c" "min c (length p - c) = length p - c"
    using assms by auto
  then show ?thesis
    using assms by (simp add: ak_step_defs ak_round_def Let_def min_absorb2)
qed

theorem ak_long_write_short_count_witness:
  "\<exists>s. run ak_step ([WCall 0 [97, 98, 99], WEntry 0, WCopy 0, WSelect 0] @ ak_round @
      [WEntry 0, WCopy 0, WSelect 0] @ ak_round) (make_asynk True 2 1) = Some s \<and>
    ak_sent s = [97, 98, 99] \<and> ak_writers s ! 0 = KRet 1 None"
  using ak_long_write_short_count [of 2 "[97, 98, 99]" True] by auto

section \<open>A lost wake-up\<close>

text \<open>
  A writer that has been told \<open>put was rejected\<close> waits without looking at the buffer again. When the
  goroutine finishes its rounds between the \<open>select\<close> and the \<open>Wait\<close>, its signals find nobody.
\<close>

definition ak_stuck :: "asynk \<Rightarrow> bool" where
  "ak_stuck s \<longleftrightarrow> ak_pump s = AkRecv \<and> \<not> ak_notify s \<and> \<not> ak_closed s \<and>
     (\<forall>w \<in> set (ak_writers s). asleep w)"

lemma asleep_iff: "asleep w \<longleftrightarrow> (\<exists>p n. w = KSleep p n)"
  by (cases w) auto

text \<open>A sleeping writer has no event of its own.\<close>

lemma ak_asleep_disabled:
  assumes "asleep (ak_writers s ! i)"
  shows "ak_call i p s = None" "ak_entry i s = None" "ak_copy i s = None" "ak_select i s = None"
    "ak_wait i s = None"
  using assms
  by (auto simp: asleep_iff ak_call_def ak_entry_def ak_copy_def ak_select_def ak_wait_def)

lemma ak_stuck_only_close:
  assumes stuck: "ak_stuck s" and step: "ak_step e s \<noteq> None"
  shows "\<exists>x. e = CloseStep x"
proof -
  have dead: "ak_call i p s = None" "ak_entry i s = None" "ak_copy i s = None"
    "ak_select i s = None" "ak_wait i s = None" for i p
    using stuck ak_asleep_disabled [of s i]
    by (auto simp: ak_stuck_def ak_call_def ak_entry_def ak_copy_def ak_select_def ak_wait_def)
  show ?thesis
    using step stuck
    by (cases e)
       (simp_all add: ak_stuck_def ak_step_def dead ak_take_def ak_read_index_def
          ak_upstream_write_def ak_result_def ak_check_err_def ak_finish_def split: if_splits)
qed

definition ak_lost_wakeup :: "ak_event list" where
  "ak_lost_wakeup =
     [WCall 0 [97, 98, 99], WEntry 0, WCopy 0, WSelect 0, PTake, PReadIndex, PUpstreamWrite,
      WEntry 0, WCopy 0, WSelect 0, WEntry 0, WCopy 0, WSelect 0,
      PResult None, PCheckErr, PFinish 0] @ ak_round @ [WWait 0]"

text \<open>
  C26. A wake-up can be lost for good: with a buffer of one byte and a single \<open>Write\<close> of three there
  is a schedule, on a healthy upstream, after which the buffer is empty, two bytes are still to be
  written, the writer sleeps in \<open>cond.Wait\<close>, and nothing but a call of \<open>Close\<close> can ever happen.
\<close>

theorem ak_lost_wakeup_deadlock:
  "\<exists>s. run ak_step ak_lost_wakeup (make_asynk u 1 1) = Some s \<and>
    ak_writers s ! 0 = KSleep [98, 99] 0 \<and> ak_bufferIndex s = 0 \<and> ak_upstreamErr s = None \<and>
    ak_sent s = [97] \<and> (\<forall>e. ak_step e s = None \<or> (\<exists>x. e = CloseStep x))"
proof -
  obtain s where s: "run ak_step ak_lost_wakeup (make_asynk u 1 1) = Some s"
    and v: "ak_writers s = [KSleep [98, 99] 0]" "ak_bufferIndex s = 0" "ak_upstreamErr s = None"
      "ak_sent s = [97]" "ak_pump s = AkRecv" "\<not> ak_notify s" "\<not> ak_closed s"
    by (simp add: ak_lost_wakeup_def ak_round_def ak_step_defs Let_def eval_nat_numeral)
  have "ak_stuck s"
    using v by (simp add: ak_stuck_def)
  then have "ak_step e s = None \<or> (\<exists>x. e = CloseStep x)" for e
    using ak_stuck_only_close by blast
  then show ?thesis
    using s v by simp
qed

section \<open>After an upstream error and after Close\<close>

text \<open>An upstream error stops the goroutine; nothing else but \<open>Close\<close> wakes a sleeping writer.\<close>

lemma ak_stopped_step:
  assumes "ak_step e s = Some t" and "ak_pump s = AkStopped" and "\<forall>x. e \<noteq> CloseStep x"
    and "ak_writers s ! i = KSleep p n"
  shows "ak_pump t = AkStopped \<and> ak_writers t ! i = KSleep p n"
  using assms
  by (cases e)
     (auto simp: ak_step_def ak_take_def ak_read_index_def ak_upstream_write_def ak_result_def
        ak_check_err_def ak_finish_def ak_call_def ak_entry_def ak_copy_def ak_select_def
        ak_wait_def nth_list_update Let_def split: if_splits ak_writer.splits prod.splits)


definition ak_failing :: "ak_event list" where
  "ak_failing =
     [WCall 0 [97, 98, 99], WEntry 0, WCopy 0, WSelect 0, PTake, PReadIndex, PUpstreamWrite,
      WEntry 0, WCopy 0, WSelect 0, WEntry 0, WCopy 0, WSelect 0, WWait 0,
      PResult (Some EOF), PCheckErr]"


text \<open>
  \<open>Close\<close> does release them: its broadcast leaves no writer asleep, and every writer it releases
  finds the error and returns it with a count of zero.
\<close>

theorem ak_close_releases_sleepers:
  assumes "reaches ak_step (make_asynk c cap w) s" and "ak_closer s = ClBroadcast"
    and "ak_upstreamErr s = Some x" and "ak_step (CloseStep e) s = Some t"
    and "i < length (ak_writers s)" and "ak_writers s ! i = KSleep p n"
  shows "ak_waiting t = [] \<and> (\<forall>v \<in> set (ak_writers t). \<not> asleep v) \<and>
    (\<exists>u. ak_step (WEntry i) t = Some u \<and> ak_writers u ! i = KRet 0 (Some x))"
proof -
  have ok: "waiters_ok asleep (ak_waiting s) (ak_writers s)"
    using ak_reachable [OF assms(1)] by (simp add: ak_inv_def ak_inv_rest_def)
  obtain wt ws where b: "cond_broadcast ak_release (ak_waiting s) (ak_writers s) = (wt, ws)"
    by (rule prod.exhaust)
  have t: "t = s\<lparr>ak_waiting := wt, ak_writers := ws, ak_closer := ClUpstream\<rparr>" "\<not> ak_panicked s"
    using assms(2,4) b by (auto simp: ak_step_def ak_close_step_def split: if_splits)
  have "waiters_ok asleep wt ws" and wt: "wt = []" and len: "length ws = length (ak_writers s)"
    using cond_broadcast_selecting [OF ok b] b by (auto simp: cond_broadcast_def)
  then have "\<forall>v \<in> set ws. \<not> asleep v"
    by (auto simp: waiters_ok_def in_set_conv_nth)
  moreover have "i \<in> set (ak_waiting s)"
    using ok assms(5,6) by (simp add: waiters_ok_def)
  then have "ws ! i = KEntry (drop n p)"
    using b assms(5,6) by (auto simp: cond_broadcast_def)
  ultimately show ?thesis
    using t assms(3,5) wt len by (simp add: ak_step_def ak_entry_def)
qed

theorem ak_close_releases_sleepers_witness:
  "\<exists>s t. run ak_step (ak_failing @ [CloseStep None, CloseStep None]) (make_asynk True 1 1) = Some s \<and>
    ak_step (CloseStep None) s = Some t \<and> ak_waiting t = []"
proof -
  obtain s where s: "run ak_step (ak_failing @ [CloseStep None, CloseStep None])
      (make_asynk True 1 1) = Some s"
    and v: "ak_closer s = ClBroadcast" "ak_upstreamErr s = Some EOF" "0 < length (ak_writers s)"
      "ak_writers s ! 0 = KSleep [98, 99] 0" "\<not> ak_panicked s"
    by (simp add: ak_failing_def ak_step_defs Let_def eval_nat_numeral)
  then obtain t where t: "ak_step (CloseStep None) s = Some t"
    by (auto simp: ak_step_def ak_close_step_def cond_broadcast_def)
  show ?thesis
    using s v t ak_close_releases_sleepers [OF run_reaches [OF s] v(1,2) t v(3,4)] by auto
qed

text \<open>
  C30. Two ways in which \<open>Close\<close> ends the program: an upstream write that is under way when \<open>Close\<close>
  marks the sink with \<open>io.EOF\<close> overwrites the mark with its own nil error when it succeeds, so that a
  later \<open>Write\<close> gets past the check and sends on the closed channel; and a second \<open>Close\<close> closes
  the channel again.
\<close>

theorem ak_close_panics:
  assumes "length p \<le> c"
  shows "(\<exists>s. run ak_step [WCall 0 p, WEntry 0, WCopy 0, WSelect 0, PTake, PReadIndex,
      PUpstreamWrite, CloseStep None, CloseStep None, CloseStep None, CloseStep None, CloseStep None,
      PResult None, PCheckErr, PFinish 0, PTake, WCall 0 q, WEntry 0, WCopy 0, WSelect 0]
      (make_asynk u c 1) = Some s \<and> ak_panicked s \<and> ak_pump s = AkStopped) \<and>
    (\<exists>s. run ak_step (replicate 7 (CloseStep None)) (make_asynk u c 1) = Some s \<and> ak_panicked s)"
  using assms by (simp add: ak_step_defs Let_def eval_nat_numeral)

theorem ak_close_panics_witness:
  "\<exists>s. run ak_step [WCall 0 [97], WEntry 0, WCopy 0, WSelect 0, PTake, PReadIndex,
      PUpstreamWrite, CloseStep None, CloseStep None, CloseStep None, CloseStep None, CloseStep None,
      PResult None, PCheckErr, PFinish 0, PTake, WCall 0 [98], WEntry 0, WCopy 0, WSelect 0]
      (make_asynk True 8192 1) = Some s \<and> ak_panicked s"
  using ak_close_panics [of "[97]" 8192 "[98]" True] by auto

end
