(* ===== verification/Interposer.thy ===== *)
theory Interposer
  imports Prelude
begin

text \<open>
  \<open>Interposer\<close>, the predictive terminal between the client and the remote session
  (\<open>internal/predictive/termemu.go\<close>): remote output goes through a terminal emulator into
  framebuffers, \<open>Read\<close> hands the client deltas between framebuffers with predictions on top, \<open>Write\<close>
  feeds keystrokes to the predictor and the emulator and opens an epoch that \<open>CloseEpoch\<close> ends.
  Framebuffers, displays, emulators and predictors are those of the go-mosh library: a record of
  functions on four types, the first parameter of every operation that uses it.
  An event is one atomic section of one goroutine: the one of \<open>pullFromUpstream\<close>, the one inside
  \<open>Read\<close>, the one inside \<open>Write\<close>, the ones inside \<open>CloseEpoch\<close> and the one inside \<open>Close\<close>. A put
  on an unbuffered channel with a default case succeeds exactly when the reader is parked in its
  \<open>select\<close>; the assignment of \<open>droppedUpdate\<close> in the default case belongs to the same event
  (delaying it gives no outcome that an earlier check of the reader does not give).
\<close>

section \<open>The terminal library\<close>

text \<open>
  Every operation on an object of the library is a function of the object's state that returns the
  new state: whether the library has hidden effects is left open.
\<close>

record ('f, 'd, 'e, 'p) mosh =
  make_framebuffer :: "int \<Rightarrow> int \<Rightarrow> 'f"
  make_display :: "bool \<Rightarrow> 'd"
  display_open :: "'d \<Rightarrow> byte list \<times> 'd"
  display_close :: "'d \<Rightarrow> byte list \<times> 'd"
  display_new_frame :: "'d \<Rightarrow> bool \<Rightarrow> 'f \<Rightarrow> 'f \<Rightarrow> byte list \<times> 'd"
  make_complete :: "int \<Rightarrow> int \<Rightarrow> 'e"
  emulator_perform :: "'e \<Rightarrow> byte list \<Rightarrow> byte list \<times> 'e"
  emulator_act_byte :: "'e \<Rightarrow> byte \<Rightarrow> byte list \<times> 'e"
  emulator_act_resize :: "'e \<Rightarrow> int \<Rightarrow> int \<Rightarrow> 'e"
  emulator_framebuffer :: "'e \<Rightarrow> 'f"
  make_predictor :: "'p"
  predictor_display_preference :: "'p \<Rightarrow> nat \<Rightarrow> 'p"
  predictor_overwrite :: "'p \<Rightarrow> bool \<Rightarrow> 'p"
  predictor_send_interval :: "'p \<Rightarrow> int \<Rightarrow> 'p"
  predictor_frame_sent :: "'p \<Rightarrow> 64 word \<Rightarrow> 'p"
  predictor_frame_acked :: "'p \<Rightarrow> 64 word \<Rightarrow> 'p"
  predictor_frame_late_acked :: "'p \<Rightarrow> 64 word \<Rightarrow> 'p"
  predictor_user_byte :: "'p \<Rightarrow> byte \<Rightarrow> 'f \<Rightarrow> 'p \<times> 'f"
  predictor_cull :: "'p \<Rightarrow> 'f \<Rightarrow> 'p \<times> 'f"
  predictor_apply :: "'p \<Rightarrow> 'f \<Rightarrow> 'p \<times> 'f"
  predictor_reset :: "'p \<Rightarrow> 'p"

text \<open>The bridge to the library's display preferences: the constants of \<open>DisplayPreference\<close>.\<close>

datatype display_preference = PredictAlways | PredictNever | PredictAdaptive | PredictExperimental

record interposer_options =
  CoalesceInterval :: int
  DisplayPreference :: display_preference
  DisplayPredictOverwrites :: bool

text \<open>\<open>time.Second / 60\<close> in nanoseconds, with Go's integer division.\<close>

definition get_default_interposer_options :: interposer_options where
  "get_default_interposer_options =
     \<lparr>CoalesceInterval = 1000000000 div 60, DisplayPreference = PredictExperimental,
      DisplayPredictOverwrites = False\<rparr>"

section \<open>State\<close>

text \<open>
  The goroutine of \<open>pullFromUpstream\<close>: in \<open>upstream.Read\<close>; with data for the emulator; writing back
  a reply of the emulator; at the test of \<open>pendingEpoch\<close>; at the copy; recording the error; at the
  non-blocking put; returned.
\<close>

datatype ip_puller =
    PlRead | PlData "byte list" err | PlReply "byte list" err | PlComplete err | PlCopy err
  | PlRecord err | PlPut err | PlDone

text \<open>
  The goroutine in \<open>Read(p)\<close>, with \<open>len(p)\<close>: outside; at the test of \<open>pending\<close>; reading from
  \<open>pending\<close>; at the test of \<open>opened\<close>; at the test of \<open>lastUpstreamErr\<close>; taking the time; asleep
  until; at the test of \<open>droppedUpdate\<close>; before parking; parked in the \<open>select\<close>; past it with the
  error it received or with a prediction; clearing \<open>droppedUpdate\<close>; emitting; storing the rest of
  an output; returned.
\<close>

datatype ip_reader =
    RdIdle | RdEntry nat | RdPending nat | RdOpen nat | RdError nat | RdTime nat
  | RdSleep nat int int | RdCheck nat int | RdPark nat int | RdSelect nat int
  | RdGot nat int err | RdClear nat int bool | RdEmit nat int bool
  | RdAppend "byte list" "byte list" "int option" | RdRet "byte list" err

text \<open>The goroutine in \<open>Write(p)\<close>: outside; writing to the sink; opening the epoch; returned.\<close>

datatype ip_writer =
    WrIdle | WrSend "byte list" "64 word" int | WrOpen nat err "64 word" int | WrRet nat err

datatype ip_closer = CsIdle | CsAppend "byte list" | CsSink | CsUpstream err | CsRet err

record ('f, 'd, 'e, 'p) interposer =
  ip_lastUpstreamErr :: err
  ip_droppedUpdate :: bool
  ip_coalesceInterval :: int
  ip_lastUpdated :: "int option"                     \<comment> \<open>None: the zero \<open>time.Time\<close>\<close>
  ip_pending :: "bytes_buffer option"                \<comment> \<open>None: the nil pointer\<close>
  ip_width :: int
  ip_height :: int
  ip_completeRemoteState :: 'f
  ip_pendingRemoteState :: 'f
  ip_localState :: 'f
  ip_display :: 'd
  ip_emulator :: 'e
  ip_epoch :: "64 word"
  ip_pendingEpoch :: bool
  ip_pendingEpochStarted :: "int option"
  ip_predictor :: 'p
  ip_opened :: bool
  ip_initialized :: bool
  ip_now :: int                                      \<comment> \<open>the clock\<close>
  ip_puller :: ip_puller
  ip_reader :: ip_reader
  ip_writer :: ip_writer
  ip_notifying :: nat                                \<comment> \<open>goroutines in \<open>CloseEpoch\<close>, past the lock\<close>
  ip_closer :: ip_closer
  ip_received :: "byte list"                         \<comment> \<open>every byte read from upstream\<close>
  ip_sent :: "byte list list"                        \<comment> \<open>every buffer written to the sink\<close>
  ip_replied :: "byte list list"                     \<comment> \<open>every buffer written back to upstream\<close>
  ip_epochs :: "(64 word \<times> int) list"                \<comment> \<open>the calls of \<open>openEpoch\<close>\<close>
  ip_frames :: "byte list list"                      \<comment> \<open>the outputs of \<open>NewFrame\<close> in \<open>Read\<close>\<close>
  ip_emitted :: "byte list"                          \<comment> \<open>every byte produced for the client\<close>
  ip_delivered :: "byte list"                        \<comment> \<open>every byte returned by \<open>Read\<close>\<close>

section \<open>Construction\<close>

definition interpose ::
  "('f, 'd, 'e, 'p) mosh \<Rightarrow> (display_preference \<Rightarrow> nat) \<Rightarrow> interposer_options \<Rightarrow> int \<Rightarrow>
    ('f, 'd, 'e, 'p) interposer" where
  "interpose M code opts clock =
     \<lparr>ip_lastUpstreamErr = None, ip_droppedUpdate = False,
      ip_coalesceInterval = CoalesceInterval opts, ip_lastUpdated = None, ip_pending = None,
      ip_width = 1, ip_height = 1,
      ip_completeRemoteState = make_framebuffer M 1 1,
      ip_pendingRemoteState = make_framebuffer M 1 1,
      ip_localState = make_framebuffer M 1 1, ip_display = make_display M True,
      ip_emulator = make_complete M 1 1, ip_epoch = 0, ip_pendingEpoch = False,
      ip_pendingEpochStarted = None,
      ip_predictor =
        predictor_send_interval M
          (predictor_overwrite M
            (predictor_display_preference M (make_predictor M) (code (DisplayPreference opts)))
            (DisplayPredictOverwrites opts)) 0,
      ip_opened = False, ip_initialized = False, ip_now = clock, ip_puller = PlRead,
      ip_reader = RdIdle, ip_writer = WrIdle, ip_notifying = 0, ip_closer = CsIdle,
      ip_received = [], ip_sent = [], ip_replied = [], ip_epochs = [], ip_frames = [],
      ip_emitted = [], ip_delivered = []\<rparr>"

section \<open>Settings\<close>

definition ip_change_display_preference where
  "ip_change_display_preference M code preference s =
     s\<lparr>ip_predictor := predictor_display_preference M (ip_predictor s) (code preference)\<rparr>"

definition ip_change_overwrite_prediction where
  "ip_change_overwrite_prediction M enabled s =
     s\<lparr>ip_predictor := predictor_overwrite M (ip_predictor s) enabled\<rparr>"

definition ip_resize where
  "ip_resize M w h s =
     s\<lparr>ip_emulator := emulator_act_resize M (ip_emulator s) w h,
       ip_predictor := predictor_reset M (ip_predictor s)\<rparr>"

section \<open>The notification of the reader\<close>

text \<open>
  A non-blocking put on \<open>upstreamErr\<close> and on \<open>predictionNotification\<close>: both are received by the
  same \<open>select\<close>, and only by it.
\<close>

definition ip_put_err :: "err \<Rightarrow> ('f, 'd, 'e, 'p) interposer \<Rightarrow> ('f, 'd, 'e, 'p) interposer" where
  "ip_put_err e s =
     (case ip_reader s of
        RdSelect m now \<Rightarrow> s\<lparr>ip_reader := RdGot m now e\<rparr>
      | _ \<Rightarrow> s\<lparr>ip_droppedUpdate := True\<rparr>)"

definition ip_put_prediction :: "('f, 'd, 'e, 'p) interposer \<Rightarrow> ('f, 'd, 'e, 'p) interposer" where
  "ip_put_prediction s =
     (case ip_reader s of
        RdSelect m now \<Rightarrow> s\<lparr>ip_reader := RdClear m now True\<rparr>
      | _ \<Rightarrow> s\<lparr>ip_droppedUpdate := True\<rparr>)"

section \<open>CloseEpoch\<close>

text \<open>The section under \<open>emulatorMutex\<close>, and the notification after it.\<close>

definition ip_close_epoch where
  "ip_close_epoch M epoch openedAt s =
     (let pending = ip_epoch s > epoch;
          p1 = predictor_frame_acked M (ip_predictor s) epoch;
          p2 = predictor_frame_late_acked M p1 epoch
      in s\<lparr>ip_predictor := predictor_send_interval M p2 (ip_now s - openedAt),
           ip_completeRemoteState := ip_pendingRemoteState s,
           ip_pendingEpoch := pending,
           ip_pendingEpochStarted := (if pending then ip_pendingEpochStarted s else None),
           ip_notifying := Suc (ip_notifying s)\<rparr>)"

definition ip_notify where
  "ip_notify s =
     (if 0 < ip_notifying s
      then Some (ip_put_err None (s\<lparr>ip_notifying := ip_notifying s - 1\<rparr>)) else None)"

section \<open>pullFromUpstream\<close>

text \<open>\<open>upstream.Read\<close> into 4096 bytes returns the bytes it read and an error.\<close>

definition ip_pull_read where
  "ip_pull_read bs e s =
     (if ip_puller s = PlRead \<and> length bs \<le> 4096
      then Some (s\<lparr>ip_received := ip_received s @ bs,
                   ip_puller := (if bs \<noteq> [] then PlData bs e else PlRecord e)\<rparr>)
      else None)"

definition ip_pull_perform where
  "ip_pull_perform M s =
     (case ip_puller s of
        PlData bs e \<Rightarrow>
          (let (reply, em) = emulator_perform M (ip_emulator s) bs
           in Some (s\<lparr>ip_emulator := em, ip_pendingRemoteState := emulator_framebuffer M em,
                      ip_puller := (if reply \<noteq> [] then PlReply reply e else PlComplete e)\<rparr>))
      | _ \<Rightarrow> None)"

text \<open>The write-back: an error is recorded and put, and the goroutine returns.\<close>

definition ip_pull_reply where
  "ip_pull_reply werr s =
     (case ip_puller s of
        PlReply reply e \<Rightarrow>
          (let t = s\<lparr>ip_replied := ip_replied s @ [reply]\<rparr>
           in Some (if werr \<noteq> None then t\<lparr>ip_puller := PlRecord werr\<rparr>
                    else t\<lparr>ip_puller := PlComplete e\<rparr>))
      | _ \<Rightarrow> None)"

definition ip_pull_check where
  "ip_pull_check s =
     (case ip_puller s of
        PlComplete e \<Rightarrow>
          Some (s\<lparr>ip_puller := (if \<not> ip_pendingEpoch s then PlCopy e else PlRecord e)\<rparr>)
      | _ \<Rightarrow> None)"

definition ip_pull_copy where
  "ip_pull_copy s =
     (case ip_puller s of
        PlCopy e \<Rightarrow>
          Some (s\<lparr>ip_completeRemoteState := ip_pendingRemoteState s, ip_puller := PlRecord e\<rparr>)
      | _ \<Rightarrow> None)"

definition ip_pull_record where
  "ip_pull_record s =
     (case ip_puller s of
        PlRecord e \<Rightarrow>
          Some (s\<lparr>ip_lastUpstreamErr :=
                    (if ip_lastUpstreamErr s = None \<and> e \<noteq> None then e else ip_lastUpstreamErr s),
                  ip_puller := PlPut e\<rparr>)
      | _ \<Rightarrow> None)"

definition ip_pull_put where
  "ip_pull_put s =
     (case ip_puller s of
        PlPut e \<Rightarrow> Some ((ip_put_err e s)\<lparr>ip_puller := (if e \<noteq> None then PlDone else PlRead)\<rparr>)
      | _ \<Rightarrow> None)"

section \<open>Read\<close>

text \<open>The goroutine returns \<open>(len(out), e)\<close> with \<open>out\<close> in \<open>p\<close>.\<close>

definition ip_return :: "byte list \<Rightarrow> err \<Rightarrow> ('f, 'd, 'e, 'p) interposer \<Rightarrow> ('f, 'd, 'e, 'p) interposer"
  where
  "ip_return out e s = s\<lparr>ip_delivered := ip_delivered s @ out, ip_reader := RdRet out e\<rparr>"

text \<open>\<open>n := copy(p, bs)\<close>: what does not fit is to be stored in \<open>pending\<close>.\<close>

definition ip_hand_out ::
  "nat \<Rightarrow> byte list \<Rightarrow> int option \<Rightarrow> ('f, 'd, 'e, 'p) interposer \<Rightarrow> ('f, 'd, 'e, 'p) interposer" where
  "ip_hand_out m bs upd s =
     (let t = s\<lparr>ip_emitted := ip_emitted s @ bs\<rparr>;
          n = min m (length bs)
      in if n < length bs then t\<lparr>ip_reader := RdAppend (take n bs) (drop n bs) upd\<rparr>
         else ip_return bs None
           (t\<lparr>ip_lastUpdated := (if upd \<noteq> None then upd else ip_lastUpdated t)\<rparr>))"

definition ip_read_call where
  "ip_read_call m s =
     (case ip_reader s of
        RdIdle \<Rightarrow> Some (s\<lparr>ip_reader := RdEntry m\<rparr>)
      | RdRet _ _ \<Rightarrow> Some (s\<lparr>ip_reader := RdEntry m\<rparr>)
      | _ \<Rightarrow> None)"

definition ip_read_entry where
  "ip_read_entry s =
     (case ip_reader s of
        RdEntry m \<Rightarrow>
          Some (s\<lparr>ip_reader := (if ip_pending s \<noteq> None then RdPending m else RdOpen m)\<rparr>)
      | _ \<Rightarrow> None)"

text \<open>Reading from \<open>pending\<close>: an exhausted buffer gives \<open>(0, nil)\<close> and is dropped.\<close>

definition ip_read_pending where
  "ip_read_pending s =
     (case ip_reader s of
        RdPending m \<Rightarrow>
          (case ip_pending s of
             Some b \<Rightarrow>
               (let (b', out, e) = buffer_read b m
                in Some (if e = Some EOF then ip_return out None (s\<lparr>ip_pending := None\<rparr>)
                         else ip_return out e (s\<lparr>ip_pending := Some b'\<rparr>)))
           | None \<Rightarrow> None)
      | _ \<Rightarrow> None)"

definition ip_read_open where
  "ip_read_open M s =
     (case ip_reader s of
        RdOpen m \<Rightarrow>
          (if ip_opened s then Some (s\<lparr>ip_reader := RdError m\<rparr>)
           else
             (let (opening, d) = display_open M (ip_display s)
              in Some (ip_hand_out m opening None (s\<lparr>ip_opened := True, ip_display := d\<rparr>))))
      | _ \<Rightarrow> None)"

definition ip_read_error where
  "ip_read_error s =
     (case ip_reader s of
        RdError m \<Rightarrow>
          Some (if ip_lastUpstreamErr s \<noteq> None then ip_return [] (ip_lastUpstreamErr s) s
                else s\<lparr>ip_reader := RdTime m\<rparr>)
      | _ \<Rightarrow> None)"

text \<open>
  The coalescing sleep. Before the first update \<open>lastUpdated\<close> is the zero time, and the difference
  to the clock saturates at the largest \<open>Duration\<close>, which is no less than any interval.
\<close>

definition ip_read_time where
  "ip_read_time s =
     (case ip_reader s of
        RdTime m \<Rightarrow>
          Some (s\<lparr>ip_reader :=
            (case ip_lastUpdated s of
               Some u \<Rightarrow>
                 if ip_now s - u < ip_coalesceInterval s
                 then RdSleep m (ip_now s) (ip_now s + (ip_coalesceInterval s - (ip_now s - u)))
                 else RdCheck m (ip_now s)
             | None \<Rightarrow> RdCheck m (ip_now s))\<rparr>)
      | _ \<Rightarrow> None)"

definition ip_read_wake where
  "ip_read_wake s =
     (case ip_reader s of
        RdSleep m now until \<Rightarrow>
          if until \<le> ip_now s then Some (s\<lparr>ip_reader := RdCheck m now\<rparr>) else None
      | _ \<Rightarrow> None)"

definition ip_read_check where
  "ip_read_check s =
     (case ip_reader s of
        RdCheck m now \<Rightarrow>
          Some (s\<lparr>ip_reader := (if ip_droppedUpdate s then RdClear m now False else RdPark m now)\<rparr>)
      | _ \<Rightarrow> None)"

definition ip_read_park where
  "ip_read_park s =
     (case ip_reader s of
        RdPark m now \<Rightarrow> Some (s\<lparr>ip_reader := RdSelect m now\<rparr>)
      | _ \<Rightarrow> None)"

text \<open>
  The received error: on \<open>io.EOF\<close> as much of the closing sequence as fits goes along with it.
\<close>

definition ip_read_got where
  "ip_read_got M s =
     (case ip_reader s of
        RdGot m now e \<Rightarrow>
          (if e = None then Some (s\<lparr>ip_reader := RdClear m now False\<rparr>)
           else if e = Some EOF then
             (let (closeData, d) = display_close M (ip_display s);
                  out = take m closeData
              in Some (ip_return out e (s\<lparr>ip_display := d, ip_emitted := ip_emitted s @ out\<rparr>)))
           else Some (ip_return [] e s))
      | _ \<Rightarrow> None)"

definition ip_read_clear where
  "ip_read_clear s =
     (case ip_reader s of
        RdClear m now pred \<Rightarrow> Some (s\<lparr>ip_droppedUpdate := False, ip_reader := RdEmit m now pred\<rparr>)
      | _ \<Rightarrow> None)"

text \<open>The emission: the last complete remote state with the predictions on top, as a delta.\<close>

definition ip_read_emit where
  "ip_read_emit M s =
     (case ip_reader s of
        RdEmit m now pred \<Rightarrow>
          (let (p1, f1) = predictor_cull M (ip_predictor s) (ip_completeRemoteState s);
               (p2, f2) = predictor_apply M p1 f1;
               (emission, d) = display_new_frame M (ip_display s) (ip_initialized s) (ip_localState s) f2
           in Some (ip_hand_out m emission (if pred then None else Some now)
                (s\<lparr>ip_predictor := p2, ip_display := d, ip_initialized := True, ip_localState := f2,
                   ip_frames := ip_frames s @ [emission]\<rparr>)))
      | _ \<Rightarrow> None)"

definition ip_pending_write ::
  "byte list \<Rightarrow> ('f, 'd, 'e, 'p) interposer \<Rightarrow> ('f, 'd, 'e, 'p) interposer" where
  "ip_pending_write bs s =
     s\<lparr>ip_pending := Some (buffer_write (case ip_pending s of None \<Rightarrow> [] | Some b \<Rightarrow> b) bs)\<rparr>"

definition ip_read_append where
  "ip_read_append s =
     (case ip_reader s of
        RdAppend out rest upd \<Rightarrow>
          (let t = ip_pending_write rest s
           in Some (ip_return out None
                (t\<lparr>ip_lastUpdated := (if upd \<noteq> None then upd else ip_lastUpdated t)\<rparr>)))
      | _ \<Rightarrow> None)"

section \<open>Write\<close>

text \<open>The loop over the user's bytes: predictor, emulator, and a repaint on form feed.\<close>

fun ip_user_bytes ::
  "('f, 'd, 'e, 'p) mosh \<Rightarrow> byte list \<Rightarrow> byte list \<Rightarrow> ('f, 'd, 'e, 'p) interposer \<Rightarrow>
    byte list \<times> ('f, 'd, 'e, 'p) interposer" where
  "ip_user_bytes M [] host s = (host, s)"
| "ip_user_bytes M (b # bs) host s =
     (let (p, f) = predictor_user_byte M (ip_predictor s) b (ip_localState s);
          (out, em) = emulator_act_byte M (ip_emulator s) b
      in ip_user_bytes M bs (buffer_write host out)
           (s\<lparr>ip_predictor := p, ip_localState := f, ip_emulator := em,
              ip_initialized := (if b = 0x0c then False else ip_initialized s)\<rparr>))"

text \<open>The section under \<open>emulatorMutex\<close>.\<close>

definition ip_write_call ::
  "('f, 'd, 'e, 'p) mosh \<Rightarrow> byte list \<Rightarrow> ('f, 'd, 'e, 'p) interposer \<Rightarrow>
    ('f, 'd, 'e, 'p) interposer option" where
  "ip_write_call M p s =
     (if ip_writer s = WrIdle \<or> (\<exists>n e. ip_writer s = WrRet n e) then
        (let now = ip_now s;
             s1 = (case ip_pendingEpochStarted s of
                     None \<Rightarrow> s\<lparr>ip_pendingEpochStarted := Some now\<rparr>
                   | Some u \<Rightarrow> s\<lparr>ip_predictor := predictor_send_interval M (ip_predictor s) (now - u)\<rparr>);
             (host, s2) = ip_user_bytes M p [] s1;
             s3 = (if p \<noteq> [] then ip_put_prediction s2 else s2);
             opened = ip_epoch s3 + 1
         in Some (s3\<lparr>ip_epoch := opened, ip_pendingEpoch := True,
                     ip_predictor := predictor_frame_sent M (ip_predictor s3) opened,
                     ip_writer := WrSend host opened now\<rparr>))
      else None)"

text \<open>\<open>upstreamAsynk.Write\<close> returns; then \<open>openEpoch\<close> is started and \<open>Write\<close> returns.\<close>

definition ip_write_sink where
  "ip_write_sink n e s =
     (case ip_writer s of
        WrSend host epoch now \<Rightarrow>
          Some (s\<lparr>ip_sent := ip_sent s @ [host], ip_writer := WrOpen n e epoch now\<rparr>)
      | _ \<Rightarrow> None)"

definition ip_write_open where
  "ip_write_open s =
     (case ip_writer s of
        WrOpen n e epoch now \<Rightarrow>
          Some (s\<lparr>ip_epochs := ip_epochs s @ [(epoch, now)], ip_writer := WrRet n e\<rparr>)
      | _ \<Rightarrow> None)"

section \<open>Close\<close>

text \<open>
  The closing sequence is stored, then the sink is closed (\<open>Asynk.Close\<close>, which closes the upstream
  in turn) and, deferred, the upstream once more.
\<close>

definition ip_close_begin ::
  "('f, 'd, 'e, 'p) mosh \<Rightarrow> ('f, 'd, 'e, 'p) interposer \<Rightarrow> ('f, 'd, 'e, 'p) interposer" where
  "ip_close_begin M s =
     (if ip_opened s then
        (let (closeStr, d) = display_close M (ip_display s)
         in s\<lparr>ip_display := d, ip_closer := CsAppend closeStr\<rparr>)
      else s\<lparr>ip_closer := CsSink\<rparr>)"

definition ip_close where
  "ip_close M e s =
     (case ip_closer s of
        CsIdle \<Rightarrow> Some (ip_close_begin M s)
      | CsAppend closeStr \<Rightarrow>
          Some ((ip_pending_write closeStr s)\<lparr>ip_emitted := ip_emitted s @ closeStr,
                  ip_closer := CsSink\<rparr>)
      | CsSink \<Rightarrow> Some (s\<lparr>ip_closer := CsUpstream e\<rparr>)
      | CsUpstream r \<Rightarrow> Some (s\<lparr>ip_closer := CsRet r\<rparr>)
      | CsRet _ \<Rightarrow> Some (ip_close_begin M s))"

section \<open>CurrentContents\<close>

text \<open>
  The patch from a fresh terminal of \<open>width \<times> height\<close>, and the state after it; nothing else of the
  interposer is meant to run meanwhile (the predictor is used outside the lock).
\<close>

definition ip_current_contents where
  "ip_current_contents M noPrediction s =
     (let fb = emulator_framebuffer M (ip_emulator s);
          (p, f) = (if noPrediction then (ip_predictor s, fb)
                    else (let (p1, f1) = predictor_cull M (ip_predictor s) fb
                          in predictor_apply M p1 f1));
          blank = make_framebuffer M (ip_width s) (ip_height s);
          (patch, d) = display_new_frame M (ip_display s) False blank f
      in (patch, s\<lparr>ip_predictor := p, ip_display := d\<rparr>))"

section \<open>The machine\<close>

datatype ip_event =
    IpTick nat | PullRead "byte list" err | PullPerform | PullReply err | PullCheck | PullCopy
  | PullRecord | PullPut
  | ReadCall nat | ReadEntry | ReadPending | ReadOpen | ReadError | ReadTime | ReadWake | ReadCheck
  | ReadPark | ReadGot | ReadClear | ReadEmit | ReadAppend
  | WriteCall "byte list" | WriteSink nat err | WriteOpen
  | CloseEpoch "64 word" int | Notify | CloseCall err
  | Resize int int | ChangePreference display_preference | ChangeOverwrite bool

fun ip_step ::
  "('f, 'd, 'e, 'p) mosh \<Rightarrow> (display_preference \<Rightarrow> nat) \<Rightarrow> ip_event \<Rightarrow>
    ('f, 'd, 'e, 'p) interposer \<Rightarrow> ('f, 'd, 'e, 'p) interposer option" where
  "ip_step M code (IpTick k) s = Some (s\<lparr>ip_now := ip_now s + int k\<rparr>)"
| "ip_step M code (PullRead bs e) s = ip_pull_read bs e s"
| "ip_step M code PullPerform s = ip_pull_perform M s"
| "ip_step M code (PullReply e) s = ip_pull_reply e s"
| "ip_step M code PullCheck s = ip_pull_check s"
| "ip_step M code PullCopy s = ip_pull_copy s"
| "ip_step M code PullRecord s = ip_pull_record s"
| "ip_step M code PullPut s = ip_pull_put s"
| "ip_step M code (ReadCall m) s = ip_read_call m s"
| "ip_step M code ReadEntry s = ip_read_entry s"
| "ip_step M code ReadPending s = ip_read_pending s"
| "ip_step M code ReadOpen s = ip_read_open M s"
| "ip_step M code ReadError s = ip_read_error s"
| "ip_step M code ReadTime s = ip_read_time s"
| "ip_step M code ReadWake s = ip_read_wake s"
| "ip_step M code ReadCheck s = ip_read_check s"
| "ip_step M code ReadPark s = ip_read_park s"
| "ip_step M code ReadGot s = ip_read_got M s"
| "ip_step M code ReadClear s = ip_read_clear s"
| "ip_step M code ReadEmit s = ip_read_emit M s"
| "ip_step M code ReadAppend s = ip_read_append s"
| "ip_step M code (WriteCall p) s = ip_write_call M p s"
| "ip_step M code (WriteSink n e) s = ip_write_sink n e s"
| "ip_step M code WriteOpen s = ip_write_open s"
| "ip_step M code (CloseEpoch k u) s = Some (ip_close_epoch M k u s)"
| "ip_step M code Notify s = ip_notify s"
| "ip_step M code (CloseCall e) s = ip_close M e s"
| "ip_step M code (Resize w h) s = Some (ip_resize M w h s)"
| "ip_step M code (ChangePreference d) s = Some (ip_change_display_preference M code d s)"
| "ip_step M code (ChangeOverwrite b) s = Some (ip_change_overwrite_prediction M b s)"

lemmas ip_step_defs = ip_pull_read_def ip_pull_perform_def ip_pull_reply_def ip_pull_check_def
  ip_pull_copy_def ip_pull_record_def ip_pull_put_def ip_put_err_def ip_put_prediction_def
  ip_read_call_def ip_read_entry_def ip_read_pending_def ip_read_open_def ip_read_error_def
  ip_read_time_def ip_read_wake_def ip_read_check_def ip_read_park_def ip_read_got_def
  ip_read_clear_def ip_read_emit_def ip_read_append_def ip_return_def ip_hand_out_def
  ip_pending_write_def ip_write_call_def ip_write_sink_def ip_write_open_def ip_close_epoch_def
  ip_notify_def ip_close_def ip_close_begin_def ip_resize_def ip_change_display_preference_def
  ip_change_overwrite_prediction_def

end
