(* ===== verification/InterposerCorrect.thy ===== *)
theory InterposerCorrect
  imports Interposer
begin

text \<open>
  What the interposer promises: epochs in sequence, a byte stream cut into reads without loss, a
  displayed state that follows the remote one when no epoch is pending, a client screen that is the
  local framebuffer; and where it fails: an end of file that nobody hears, a last update that is not
  shown, an acknowledgement out of order that freezes the screen.
\<close>

section \<open>What the operations leave alone\<close>

lemma ip_user_bytes_frame [simp]:
  "ip_user_bytes M bs host s = (h, t) \<Longrightarrow>
     ip_writer t = ip_writer s \<and> ip_reader t = ip_reader s \<and> ip_puller t = ip_puller s \<and>
     ip_closer t = ip_closer s \<and> ip_epoch t = ip_epoch s \<and> ip_epochs t = ip_epochs s \<and>
     ip_pendingEpoch t = ip_pendingEpoch s \<and>
     ip_completeRemoteState t = ip_completeRemoteState s \<and>
     ip_pendingRemoteState t = ip_pendingRemoteState s \<and> ip_pending t = ip_pending s \<and>
     ip_emitted t = ip_emitted s \<and> ip_delivered t = ip_delivered s \<and> ip_frames t = ip_frames s \<and>
     ip_width t = ip_width s \<and> ip_height t = ip_height s \<and> ip_notifying t = ip_notifying s \<and>
     ip_opened t = ip_opened s \<and> (ip_initialized t \<longrightarrow> ip_initialized s) \<and> ip_sent t = ip_sent s"
  by (induction M bs host s rule: ip_user_bytes.induct)
     (auto simp: Let_def split: prod.splits if_splits)

lemma ip_put_frame [simp]:
  "ip_writer (ip_put_err e s) = ip_writer s" "ip_writer (ip_put_prediction s) = ip_writer s"
  "ip_closer (ip_put_err e s) = ip_closer s" "ip_closer (ip_put_prediction s) = ip_closer s"
  "ip_puller (ip_put_err e s) = ip_puller s" "ip_puller (ip_put_prediction s) = ip_puller s"
  "ip_epoch (ip_put_err e s) = ip_epoch s" "ip_epoch (ip_put_prediction s) = ip_epoch s"
  "ip_epochs (ip_put_err e s) = ip_epochs s" "ip_epochs (ip_put_prediction s) = ip_epochs s"
  "ip_pendingEpoch (ip_put_err e s) = ip_pendingEpoch s"
  "ip_pendingEpoch (ip_put_prediction s) = ip_pendingEpoch s"
  "ip_completeRemoteState (ip_put_err e s) = ip_completeRemoteState s"
  "ip_completeRemoteState (ip_put_prediction s) = ip_completeRemoteState s"
  "ip_pendingRemoteState (ip_put_err e s) = ip_pendingRemoteState s"
  "ip_pendingRemoteState (ip_put_prediction s) = ip_pendingRemoteState s"
  "ip_localState (ip_put_err e s) = ip_localState s"
  "ip_localState (ip_put_prediction s) = ip_localState s"
  "ip_initialized (ip_put_err e s) = ip_initialized s"
  "ip_initialized (ip_put_prediction s) = ip_initialized s"
  "ip_frames (ip_put_err e s) = ip_frames s" "ip_frames (ip_put_prediction s) = ip_frames s"
  "ip_pending (ip_put_err e s) = ip_pending s" "ip_pending (ip_put_prediction s) = ip_pending s"
  "ip_emitted (ip_put_err e s) = ip_emitted s" "ip_emitted (ip_put_prediction s) = ip_emitted s"
  "ip_delivered (ip_put_err e s) = ip_delivered s"
  "ip_delivered (ip_put_prediction s) = ip_delivered s"
  "ip_width (ip_put_err e s) = ip_width s" "ip_width (ip_put_prediction s) = ip_width s"
  "ip_height (ip_put_err e s) = ip_height s" "ip_height (ip_put_prediction s) = ip_height s"
  "ip_sent (ip_put_err e s) = ip_sent s" "ip_sent (ip_put_prediction s) = ip_sent s"
  "ip_predictor (ip_put_err e s) = ip_predictor s"
  "ip_predictor (ip_put_prediction s) = ip_predictor s"
  "ip_emulator (ip_put_prediction s) = ip_emulator s"
  by (simp_all add: ip_put_err_def ip_put_prediction_def split: ip_reader.splits)

lemma ip_hand_out_frame [simp]:
  "ip_writer (ip_hand_out m bs u s) = ip_writer s" "ip_closer (ip_hand_out m bs u s) = ip_closer s"
  "ip_puller (ip_hand_out m bs u s) = ip_puller s" "ip_epoch (ip_hand_out m bs u s) = ip_epoch s"
  "ip_epochs (ip_hand_out m bs u s) = ip_epochs s"
  "ip_pendingEpoch (ip_hand_out m bs u s) = ip_pendingEpoch s"
  "ip_completeRemoteState (ip_hand_out m bs u s) = ip_completeRemoteState s"
  "ip_pendingRemoteState (ip_hand_out m bs u s) = ip_pendingRemoteState s"
  "ip_localState (ip_hand_out m bs u s) = ip_localState s"
  "ip_initialized (ip_hand_out m bs u s) = ip_initialized s"
  "ip_frames (ip_hand_out m bs u s) = ip_frames s" "ip_pending (ip_hand_out m bs u s) = ip_pending s"
  "ip_width (ip_hand_out m bs u s) = ip_width s" "ip_height (ip_hand_out m bs u s) = ip_height s"
  by (simp_all add: ip_hand_out_def ip_return_def Let_def)

lemma ip_pending_write_frame [simp]:
  "ip_writer (ip_pending_write bs s) = ip_writer s" "ip_closer (ip_pending_write bs s) = ip_closer s"
  "ip_puller (ip_pending_write bs s) = ip_puller s" "ip_epoch (ip_pending_write bs s) = ip_epoch s"
  "ip_epochs (ip_pending_write bs s) = ip_epochs s"
  "ip_reader (ip_pending_write bs s) = ip_reader s"
  "ip_pendingEpoch (ip_pending_write bs s) = ip_pendingEpoch s"
  "ip_completeRemoteState (ip_pending_write bs s) = ip_completeRemoteState s"
  "ip_pendingRemoteState (ip_pending_write bs s) = ip_pendingRemoteState s"
  "ip_localState (ip_pending_write bs s) = ip_localState s"
  "ip_initialized (ip_pending_write bs s) = ip_initialized s"
  "ip_frames (ip_pending_write bs s) = ip_frames s"
  "ip_width (ip_pending_write bs s) = ip_width s" "ip_height (ip_pending_write bs s) = ip_height s"
  "ip_emitted (ip_pending_write bs s) = ip_emitted s"
  "ip_delivered (ip_pending_write bs s) = ip_delivered s"
  "ip_lastUpdated (ip_pending_write bs s) = ip_lastUpdated s"
  by (simp_all add: ip_pending_write_def)

text \<open>One event, unfolded: the definitions with their case distinctions.\<close>

lemmas ip_events = ip_pull_read_def ip_pull_perform_def ip_pull_reply_def ip_pull_check_def
  ip_pull_copy_def ip_pull_record_def ip_pull_put_def ip_read_call_def ip_read_entry_def
  ip_read_pending_def ip_read_open_def ip_read_error_def ip_read_time_def ip_read_wake_def
  ip_read_check_def ip_read_park_def ip_read_got_def ip_read_clear_def ip_read_emit_def
  ip_read_append_def ip_return_def ip_write_sink_def ip_write_open_def ip_close_epoch_def
  ip_notify_def ip_close_def ip_close_begin_def ip_resize_def ip_change_display_preference_def
  ip_change_overwrite_prediction_def

lemmas ip_splits = if_splits option.splits prod.splits ip_puller.splits ip_reader.splits
  ip_writer.splits ip_closer.splits

section \<open>Epochs\<close>

text \<open>The epochs handed to \<open>openEpoch\<close>, the one of the \<open>Write\<close> under way included.\<close>

fun writer_epoch :: "ip_writer \<Rightarrow> (64 word \<times> int) list" where
  "writer_epoch (WrSend _ k u) = [(k, u)]"
| "writer_epoch (WrOpen _ _ k u) = [(k, u)]"
| "writer_epoch _ = []"

definition opened_epochs :: "('f, 'd, 'e, 'p) interposer \<Rightarrow> (64 word \<times> int) list" where
  "opened_epochs s = ip_epochs s @ writer_epoch (ip_writer s)"

definition inv_epochs :: "('f, 'd, 'e, 'p) interposer \<Rightarrow> bool" where
  "inv_epochs s \<longleftrightarrow>
     ip_epoch s = of_nat (length (opened_epochs s)) \<and>
     map fst (opened_epochs s) = map of_nat [1..<Suc (length (opened_epochs s))]"

fun is_write :: "ip_event \<Rightarrow> bool" where
  "is_write (WriteCall _) = True" | "is_write (WriteSink _ _) = True" | "is_write WriteOpen = True"
| "is_write _ = False"

lemma ip_step_keeps_epochs:
  assumes "ip_step M code e s = Some t" and "\<not> is_write e"
  shows "ip_writer t = ip_writer s \<and> ip_epochs t = ip_epochs s \<and> ip_epoch t = ip_epoch s"
  using assms by (cases e) (auto simp: ip_events Let_def split: ip_splits)

text \<open>A call of \<open>Write\<close>: what it changes, and what it leaves to the reader.\<close>

lemma ip_write_call_cases:
  assumes "ip_write_call M p s = Some t"
  obtains host where
    "writer_epoch (ip_writer s) = []" "ip_epoch t = ip_epoch s + 1" "ip_epochs t = ip_epochs s"
    "ip_writer t = WrSend host (ip_epoch s + 1) (ip_now s)" "ip_pendingEpoch t"
    "ip_completeRemoteState t = ip_completeRemoteState s"
    "ip_pendingRemoteState t = ip_pendingRemoteState s" "ip_puller t = ip_puller s"
    "ip_closer t = ip_closer s" "ip_pending t = ip_pending s" "ip_emitted t = ip_emitted s"
    "ip_delivered t = ip_delivered s" "ip_frames t = ip_frames s" "ip_width t = ip_width s"
    "ip_height t = ip_height s" "ip_initialized t \<longrightarrow> ip_initialized s"
    "ip_reader t = ip_reader s \<or>
      (\<exists>m now. ip_reader s = RdSelect m now \<and> ip_reader t = RdClear m now True)"
proof -
  define s1 where "s1 = (case ip_pendingEpochStarted s of
      None \<Rightarrow> s\<lparr>ip_pendingEpochStarted := Some (ip_now s)\<rparr>
    | Some u \<Rightarrow> s\<lparr>ip_predictor := predictor_send_interval M (ip_predictor s) (ip_now s - u)\<rparr>)"
  obtain host s2 where u: "ip_user_bytes M p [] s1 = (host, s2)"
    by (rule prod.exhaust)
  define s3 where "s3 = (if p \<noteq> [] then ip_put_prediction s2 else s2)"
  have w: "ip_writer s = WrIdle \<or> (\<exists>n e. ip_writer s = WrRet n e)"
    and t: "t = s3\<lparr>ip_epoch := ip_epoch s3 + 1, ip_pendingEpoch := True,
        ip_predictor := predictor_frame_sent M (ip_predictor s3) (ip_epoch s3 + 1),
        ip_writer := WrSend host (ip_epoch s3 + 1) (ip_now s)\<rparr>"
    using assms u by (auto simp: ip_write_call_def Let_def s1_def [symmetric] s3_def split: if_splits)
  have s1: "ip_epoch s1 = ip_epoch s" "ip_epochs s1 = ip_epochs s" "ip_writer s1 = ip_writer s"
    "ip_puller s1 = ip_puller s" "ip_reader s1 = ip_reader s" "ip_closer s1 = ip_closer s"
    "ip_completeRemoteState s1 = ip_completeRemoteState s"
    "ip_pendingRemoteState s1 = ip_pendingRemoteState s" "ip_pending s1 = ip_pending s"
    "ip_emitted s1 = ip_emitted s" "ip_delivered s1 = ip_delivered s"
    "ip_frames s1 = ip_frames s" "ip_width s1 = ip_width s" "ip_height s1 = ip_height s"
    "ip_initialized s1 = ip_initialized s"
    by (simp_all add: s1_def split: option.splits)
  have r: "ip_reader s3 = ip_reader s2 \<or>
      (\<exists>m now. ip_reader s2 = RdSelect m now \<and> ip_reader s3 = RdClear m now True)"
    by (simp add: s3_def ip_put_prediction_def split: ip_reader.splits)
  note s2 = ip_user_bytes_frame [OF u, unfolded s1]
  have s3: "ip_epoch s3 = ip_epoch s" "ip_epochs s3 = ip_epochs s" "ip_puller s3 = ip_puller s"
    "ip_closer s3 = ip_closer s" "ip_completeRemoteState s3 = ip_completeRemoteState s"
    "ip_pendingRemoteState s3 = ip_pendingRemoteState s" "ip_pending s3 = ip_pending s"
    "ip_emitted s3 = ip_emitted s" "ip_delivered s3 = ip_delivered s"
    "ip_frames s3 = ip_frames s" "ip_width s3 = ip_width s" "ip_height s3 = ip_height s"
    "ip_initialized s3 \<longrightarrow> ip_initialized s"
    using s2 by (simp_all add: s3_def)
  have "writer_epoch (ip_writer s) = []"
    using w by auto
  moreover have "ip_reader t = ip_reader s \<or>
      (\<exists>m now. ip_reader s = RdSelect m now \<and> ip_reader t = RdClear m now True)"
    using r s2 by (simp add: t)
  ultimately show ?thesis
    by (intro that [of host]) (simp_all add: t s3)
qed

lemma inv_epochs_start: "inv_epochs (interpose M code opts clock)"
  by (simp add: inv_epochs_def opened_epochs_def interpose_def)

lemma inv_epochs_opened:
  assumes "inv_epochs s" and "opened_epochs t = opened_epochs s @ [(ip_epoch s + 1, u)]"
    and "ip_epoch t = ip_epoch s + 1"
  shows "inv_epochs t"
  using assms by (simp add: inv_epochs_def)

lemma inv_epochs_step:
  assumes "inv_epochs s" and "ip_step M code e s = Some t"
  shows "inv_epochs t"
proof (cases "is_write e")
  case False
  then show ?thesis
    using assms ip_step_keeps_epochs [OF assms(2)] by (simp add: inv_epochs_def opened_epochs_def)
next
  case True
  then consider p where "e = WriteCall p" | n r where "e = WriteSink n r" | "e = WriteOpen"
    by (cases e) auto
  then show ?thesis
  proof cases
    case 1
    then have "ip_write_call M p s = Some t"
      using assms(2) by simp
    then show ?thesis
      by (rule ip_write_call_cases)
         (auto intro!: inv_epochs_opened [OF assms(1)] simp: opened_epochs_def)
  qed (use assms in \<open>auto simp: ip_events inv_epochs_def opened_epochs_def split: ip_writer.splits\<close>)
qed

definition ip_start where
  "ip_start M code s \<longleftrightarrow> (\<exists>opts clock. s = interpose M code opts clock)"

interpretation ip_ep: invariant_machine "ip_start M code" "ip_step M code" inv_epochs for M code
  by unfold_locales (auto simp: ip_start_def inv_epochs_start intro: inv_epochs_step)

section \<open>The byte stream to the client\<close>

fun carried :: "ip_reader \<Rightarrow> byte list" where
  "carried (RdAppend out rest _) = out @ rest" | "carried _ = []"

fun past_pending :: "ip_reader \<Rightarrow> bool" where
  "past_pending RdIdle = False" | "past_pending (RdEntry _) = False"
| "past_pending (RdPending _) = False" | "past_pending (RdRet _ _) = False"
| "past_pending _ = True"

fun at_pending :: "ip_reader \<Rightarrow> bool" where
  "at_pending (RdPending _) = True" | "at_pending _ = False"

definition pending_bytes :: "('f, 'd, 'e, 'p) interposer \<Rightarrow> byte list" where
  "pending_bytes s = (case ip_pending s of None \<Rightarrow> [] | Some b \<Rightarrow> b)"

definition inv_chunks :: "('f, 'd, 'e, 'p) interposer \<Rightarrow> bool" where
  "inv_chunks s \<longleftrightarrow> (ip_closer s = CsIdle \<longrightarrow>
     ip_emitted s = ip_delivered s @ carried (ip_reader s) @ pending_bytes s \<and>
     (past_pending (ip_reader s) \<longrightarrow> ip_pending s = None) \<and>
     (at_pending (ip_reader s) \<longrightarrow> ip_pending s \<noteq> None))"

lemma inv_chunks_start: "inv_chunks (interpose M code opts clock)"
  by (simp add: inv_chunks_def interpose_def pending_bytes_def)

text \<open>The reader is as before, or it was parked and has been woken.\<close>

lemma inv_chunks_same:
  assumes "inv_chunks s" and "ip_closer t = ip_closer s \<or> ip_closer t \<noteq> CsIdle"
    and "ip_emitted t = ip_emitted s" and "ip_delivered t = ip_delivered s"
    and "ip_pending t = ip_pending s"
    and "carried (ip_reader t) = carried (ip_reader s)"
    and "past_pending (ip_reader t) \<longrightarrow> past_pending (ip_reader s) \<or> ip_pending s = None"
    and "at_pending (ip_reader t) \<longrightarrow> at_pending (ip_reader s) \<or> ip_pending s \<noteq> None"
  shows "inv_chunks t"
  using assms by (auto simp: inv_chunks_def pending_bytes_def)

lemma ip_put_err_reader:
  "ip_reader (ip_put_err e s) = ip_reader s \<or>
   (\<exists>m now. ip_reader s = RdSelect m now \<and> ip_reader (ip_put_err e s) = RdGot m now e)"
  by (simp add: ip_put_err_def split: ip_reader.splits)

lemma inv_chunks_put_err: "inv_chunks s \<Longrightarrow> inv_chunks (ip_put_err e s)"
  using ip_put_err_reader [of e s] by (auto simp: inv_chunks_def pending_bytes_def)

lemma inv_chunks_hand_out:
  assumes "inv_chunks s" and "past_pending (ip_reader s)" and "carried (ip_reader s) = []"
  shows "inv_chunks (ip_hand_out m bs u s)"
  using assms by (auto simp: inv_chunks_def ip_hand_out_def ip_return_def pending_bytes_def Let_def)

text \<open>The sections of the reader; those of the other goroutines move it only out of the \<open>select\<close>.\<close>

fun is_reader :: "ip_event \<Rightarrow> bool" where
  "is_reader (ReadCall _) = True" | "is_reader ReadEntry = True" | "is_reader ReadPending = True"
| "is_reader ReadOpen = True" | "is_reader ReadError = True" | "is_reader ReadTime = True"
| "is_reader ReadWake = True" | "is_reader ReadCheck = True" | "is_reader ReadPark = True"
| "is_reader ReadGot = True" | "is_reader ReadClear = True" | "is_reader ReadEmit = True"
| "is_reader ReadAppend = True" | "is_reader _ = False"

lemma inv_chunks_read_call: "inv_chunks s \<Longrightarrow> ip_read_call m s = Some t \<Longrightarrow> inv_chunks t"
  by (cases "ip_reader s")
     (auto simp: ip_read_call_def inv_chunks_def pending_bytes_def ip_return_def Let_def
       split: if_splits option.splits prod.splits)

lemma inv_chunks_read_entry: "inv_chunks s \<Longrightarrow> ip_read_entry s = Some t \<Longrightarrow> inv_chunks t"
  by (cases "ip_reader s")
     (auto simp: ip_read_entry_def inv_chunks_def pending_bytes_def ip_return_def Let_def
       split: if_splits option.splits prod.splits)

lemma inv_chunks_read_pending: "inv_chunks s \<Longrightarrow> ip_read_pending s = Some t \<Longrightarrow> inv_chunks t"
  by (cases "ip_reader s")
     (auto simp: ip_read_pending_def inv_chunks_def pending_bytes_def ip_return_def buffer_read_def Let_def
       split: if_splits option.splits prod.splits)

lemma inv_chunks_read_error: "inv_chunks s \<Longrightarrow> ip_read_error s = Some t \<Longrightarrow> inv_chunks t"
  by (cases "ip_reader s")
     (auto simp: ip_read_error_def inv_chunks_def pending_bytes_def ip_return_def Let_def
       split: if_splits option.splits prod.splits)

lemma inv_chunks_read_time: "inv_chunks s \<Longrightarrow> ip_read_time s = Some t \<Longrightarrow> inv_chunks t"
  by (cases "ip_reader s")
     (auto simp: ip_read_time_def inv_chunks_def pending_bytes_def ip_return_def Let_def
       split: if_splits option.splits prod.splits)

lemma inv_chunks_read_wake: "inv_chunks s \<Longrightarrow> ip_read_wake s = Some t \<Longrightarrow> inv_chunks t"
  by (cases "ip_reader s")
     (auto simp: ip_read_wake_def inv_chunks_def pending_bytes_def ip_return_def Let_def
       split: if_splits option.splits prod.splits)

lemma inv_chunks_read_check: "inv_chunks s \<Longrightarrow> ip_read_check s = Some t \<Longrightarrow> inv_chunks t"
  by (cases "ip_reader s")
     (auto simp: ip_read_check_def inv_chunks_def pending_bytes_def ip_return_def Let_def
       split: if_splits option.splits prod.splits)

lemma inv_chunks_read_park: "inv_chunks s \<Longrightarrow> ip_read_park s = Some t \<Longrightarrow> inv_chunks t"
  by (cases "ip_reader s")
     (auto simp: ip_read_park_def inv_chunks_def pending_bytes_def ip_return_def Let_def
       split: if_splits option.splits prod.splits)

lemma inv_chunks_read_got: "inv_chunks s \<Longrightarrow> ip_read_got M s = Some t \<Longrightarrow> inv_chunks t"
  by (cases "ip_reader s")
     (auto simp: ip_read_got_def inv_chunks_def pending_bytes_def ip_return_def Let_def
       split: if_splits option.splits prod.splits)

lemma inv_chunks_read_clear: "inv_chunks s \<Longrightarrow> ip_read_clear s = Some t \<Longrightarrow> inv_chunks t"
  by (cases "ip_reader s")
     (auto simp: ip_read_clear_def inv_chunks_def pending_bytes_def ip_return_def Let_def
       split: if_splits option.splits prod.splits)

lemma inv_chunks_read_append: "inv_chunks s \<Longrightarrow> ip_read_append s = Some t \<Longrightarrow> inv_chunks t"
  by (cases "ip_reader s")
     (auto simp: ip_read_append_def inv_chunks_def pending_bytes_def ip_return_def ip_pending_write_def buffer_write_def Let_def
       split: if_splits option.splits prod.splits)

lemma inv_chunks_read_open:
  assumes "inv_chunks s" and "ip_read_open M s = Some t"
  shows "inv_chunks t"
proof (cases "ip_opened s")
  case True
  then show ?thesis
    using assms by (cases "ip_reader s") (auto simp: ip_read_open_def inv_chunks_def pending_bytes_def)
next
  case False
  obtain m where m: "ip_reader s = RdOpen m"
    using assms(2) by (cases "ip_reader s") (auto simp: ip_read_open_def)
  obtain op d where od: "display_open M (ip_display s) = (op, d)"
    by (rule prod.exhaust)
  have "inv_chunks (s\<lparr>ip_opened := True, ip_display := d\<rparr>)"
    using assms(1) by (simp add: inv_chunks_def pending_bytes_def)
  then show ?thesis
    using assms(2) False m od by (auto simp: ip_read_open_def intro!: inv_chunks_hand_out)
qed

lemma inv_chunks_read_emit:
  assumes "inv_chunks s" and "ip_read_emit M s = Some t"
  shows "inv_chunks t"
proof -
  obtain m now pred where m: "ip_reader s = RdEmit m now pred"
    using assms(2) by (cases "ip_reader s") (auto simp: ip_read_emit_def)
  have "inv_chunks (s\<lparr>ip_predictor := p, ip_display := d, ip_initialized := True,
      ip_localState := f, ip_frames := fs\<rparr>)" for p d f fs
    using assms(1) by (simp add: inv_chunks_def pending_bytes_def)
  then show ?thesis
    using assms(2) m
    by (auto simp: ip_read_emit_def Let_def intro!: inv_chunks_hand_out split: prod.splits)
qed

lemmas inv_chunks_reads = inv_chunks_read_call inv_chunks_read_entry inv_chunks_read_pending
  inv_chunks_read_open inv_chunks_read_error inv_chunks_read_time inv_chunks_read_wake
  inv_chunks_read_check inv_chunks_read_park inv_chunks_read_got inv_chunks_read_clear
  inv_chunks_read_emit inv_chunks_read_append

lemma inv_chunks_reader_step:
  "inv_chunks s \<Longrightarrow> ip_step M code e s = Some t \<Longrightarrow> is_reader e \<Longrightarrow> inv_chunks t"
  by (cases e) (auto intro: inv_chunks_reads)

lemma ip_close_started: "ip_close M e s = Some t \<Longrightarrow> ip_closer t \<noteq> CsIdle"
  by (auto simp: ip_close_def ip_close_begin_def split: ip_closer.splits if_splits prod.splits)

lemma inv_chunks_frame:
  assumes "inv_chunks s" and "ip_closer t = ip_closer s" and "ip_emitted t = ip_emitted s"
    and "ip_delivered t = ip_delivered s" and "ip_pending t = ip_pending s"
    and "ip_reader t = ip_reader s"
  shows "inv_chunks t"
  using assms by (simp add: inv_chunks_def pending_bytes_def)

text \<open>The events that neither belong to the reader, nor wake it, nor store bytes for it.\<close>

fun quiet :: "ip_event \<Rightarrow> bool" where
  "quiet (WriteCall _) = False" | "quiet (CloseCall _) = False" | "quiet PullPut = False"
| "quiet Notify = False" | "quiet e = (\<not> is_reader e)"

lemma ip_step_quiet:
  assumes "ip_step M code e s = Some t" and "quiet e"
  shows "ip_closer t = ip_closer s \<and> ip_emitted t = ip_emitted s \<and>
    ip_delivered t = ip_delivered s \<and> ip_pending t = ip_pending s \<and> ip_reader t = ip_reader s"
  using assms
  by (cases e) (auto simp: ip_events Let_def split: if_splits prod.splits ip_puller.splits
      ip_writer.splits)

lemma inv_chunks_other_step:
  assumes "inv_chunks s" and "ip_step M code e s = Some t" and "\<not> is_reader e"
  shows "inv_chunks t"
proof -
  have w: "inv_chunks t" if "ip_write_call M p s = Some t" for p
    using that
    by (rule ip_write_call_cases) (use assms(1) in \<open>auto simp: inv_chunks_def pending_bytes_def\<close>)
  have c: "inv_chunks t" if "ip_close M r s = Some t" for r
    using ip_close_started [OF that] by (simp add: inv_chunks_def)
  have p: "inv_chunks t" if "ip_pull_put s = Some t"
    using that inv_chunks_frame [OF inv_chunks_put_err [OF assms(1)], of t]
    by (auto simp: ip_pull_put_def split: ip_puller.splits)
  have n: "inv_chunks t" if "ip_notify s = Some t"
  proof -
    have "inv_chunks (s\<lparr>ip_notifying := k\<rparr>)" for k
      by (rule inv_chunks_frame [OF assms(1)]) simp_all
    then show ?thesis
      using that by (auto simp: ip_notify_def intro: inv_chunks_put_err split: if_splits)
  qed
  have q: "inv_chunks t" if "quiet e"
    using ip_step_quiet [OF assms(2) that] by (intro inv_chunks_frame [OF assms(1)]) simp_all
  show ?thesis
  proof (cases "quiet e")
    case False
    then show ?thesis
      using assms(2,3) w c p n by (cases e) simp_all
  qed (rule q)
qed

interpretation ip_ch: invariant_machine "ip_start M code" "ip_step M code" inv_chunks for M code
  by unfold_locales
     (auto simp: ip_start_def inv_chunks_start intro: inv_chunks_reader_step inv_chunks_other_step)

section \<open>The remote states\<close>

text \<open>The goroutine of \<open>pullFromUpstream\<close> is not between an update and the copy it decides on.\<close>

fun pull_settled :: "ip_puller \<Rightarrow> bool" where
  "pull_settled PlRead = True" | "pull_settled (PlData _ _) = True"
| "pull_settled (PlRecord e) = (e = None)" | "pull_settled (PlPut e) = (e = None)"
| "pull_settled _ = False"

definition inv_remote :: "('f, 'd, 'e, 'p) interposer \<Rightarrow> bool" where
  "inv_remote s \<longleftrightarrow> (\<not> ip_pendingEpoch s \<and> pull_settled (ip_puller s) \<longrightarrow>
     ip_completeRemoteState s = ip_pendingRemoteState s)"

fun is_pull :: "ip_event \<Rightarrow> bool" where
  "is_pull (PullRead _ _) = True" | "is_pull PullPerform = True" | "is_pull (PullReply _) = True"
| "is_pull PullCheck = True" | "is_pull PullCopy = True" | "is_pull PullRecord = True"
| "is_pull PullPut = True" | "is_pull _ = False"

lemma inv_remote_start: "inv_remote (interpose M code opts clock)"
  by (simp add: inv_remote_def interpose_def)

lemma inv_remote_pull:
  assumes "inv_remote s" and "ip_step M code e s = Some t" and "is_pull e"
  shows "inv_remote t"
  using assms
  by (cases e; cases "ip_puller s")
     (auto simp: inv_remote_def ip_events Let_def split: if_splits prod.splits)

text \<open>Every other event leaves the puller and, but for \<open>Write\<close> and \<open>CloseEpoch\<close>, the screens alone.\<close>

fun is_epoch :: "ip_event \<Rightarrow> bool" where
  "is_epoch (WriteCall _) = True" | "is_epoch (CloseEpoch _ _) = True" | "is_epoch _ = False"

lemma ip_step_screens:
  assumes "ip_step M code e s = Some t" and "\<not> is_pull e" and "\<not> is_epoch e"
  shows "ip_puller t = ip_puller s \<and> ip_pendingEpoch t = ip_pendingEpoch s \<and>
    ip_completeRemoteState t = ip_completeRemoteState s \<and>
    ip_pendingRemoteState t = ip_pendingRemoteState s"
  using assms
  by (cases e) (auto simp: ip_events Let_def split: if_splits prod.splits option.splits
      ip_reader.splits ip_writer.splits ip_closer.splits)

lemma inv_remote_step:
  assumes "inv_remote s" and "ip_step M code e s = Some t"
  shows "inv_remote t"
proof (cases "is_epoch e")
  case True
  have "inv_remote t" if "ip_write_call M p s = Some t" for p
    using that by (rule ip_write_call_cases) (simp add: inv_remote_def)
  then show ?thesis
    using True assms(2) by (cases e) (auto simp: inv_remote_def ip_close_epoch_def Let_def)
next
  case False
  then show ?thesis
    using assms ip_step_screens [OF assms(2)] inv_remote_pull [OF assms]
    by (cases "is_pull e") (simp_all add: inv_remote_def)
qed

interpretation ip_re: invariant_machine "ip_start M code" "ip_step M code" inv_remote for M code
  by unfold_locales (auto simp: ip_start_def inv_remote_start intro: inv_remote_step)

section \<open>The client's screen\<close>

text \<open>
  A client applies the outputs of \<open>NewFrame\<close> one after the other to its screen. The documented
  behaviour of the library the interposer relies on: a delta brings the screen it was computed from
  to its target, an initial delta brings any screen there, and the predictor reads the framebuffer
  it is given with a keystroke without changing it.
\<close>

definition frames_correct :: "('f, 'd, 'e, 'p) mosh \<Rightarrow> (byte list \<Rightarrow> 'f \<Rightarrow> 'f) \<Rightarrow> bool" where
  "frames_correct M display \<longleftrightarrow>
     (\<forall>d f g. display (fst (display_new_frame M d True f g)) f = g) \<and>
     (\<forall>d f g x. display (fst (display_new_frame M d False f g)) x = g) \<and>
     (\<forall>p b f. snd (predictor_user_byte M p b f) = f)"

definition client_screen ::
  "(byte list \<Rightarrow> 'f \<Rightarrow> 'f) \<Rightarrow> 'f \<Rightarrow> ('f, 'd, 'e, 'p) interposer \<Rightarrow> 'f" where
  "client_screen display x s = foldl (\<lambda>screen frame. display frame screen) x (ip_frames s)"

definition inv_screen ::
  "(byte list \<Rightarrow> 'f \<Rightarrow> 'f) \<Rightarrow> 'f \<Rightarrow> ('f, 'd, 'e, 'p) interposer \<Rightarrow> bool" where
  "inv_screen display x s \<longleftrightarrow>
     (if ip_frames s = [] then \<not> ip_initialized s else client_screen display x s = ip_localState s)"

lemma inv_screen_start: "inv_screen display x (interpose M code opts clock)"
  by (simp add: inv_screen_def interpose_def)

lemma inv_screen_frame:
  assumes "inv_screen display x s" and "ip_frames t = ip_frames s"
    and "ip_localState t = ip_localState s" and "ip_initialized t \<longrightarrow> ip_initialized s"
  shows "inv_screen display x t"
  using assms by (auto simp: inv_screen_def client_screen_def)

lemma ip_step_local:
  assumes "ip_step M code e s = Some t" and "e \<noteq> ReadEmit" and "\<forall>p. e \<noteq> WriteCall p"
  shows "ip_frames t = ip_frames s \<and> ip_localState t = ip_localState s \<and>
    ip_initialized t = ip_initialized s"
  using assms
  by (cases e) (auto simp: ip_events Let_def split: if_splits prod.splits option.splits
      ip_puller.splits ip_reader.splits ip_writer.splits ip_closer.splits)

lemma ip_user_bytes_local:
  assumes "frames_correct M display"
  shows "ip_localState (snd (ip_user_bytes M bs host s)) = ip_localState s"
proof (induction bs arbitrary: host s)
  case (Cons b bs)
  have "predictor_user_byte M (ip_predictor s) b (ip_localState s) =
      (fst (predictor_user_byte M (ip_predictor s) b (ip_localState s)), ip_localState s)"
    using assms by (simp add: frames_correct_def prod_eq_iff)
  then show ?case
    by (cases "emulator_act_byte M (ip_emulator s) b") (auto simp: Let_def Cons.IH split: prod.splits)
qed simp

lemma ip_write_call_local:
  assumes "frames_correct M display" and "ip_write_call M p s = Some t"
  shows "ip_localState t = ip_localState s"
proof -
  define s1 where "s1 = (case ip_pendingEpochStarted s of
      None \<Rightarrow> s\<lparr>ip_pendingEpochStarted := Some (ip_now s)\<rparr>
    | Some u \<Rightarrow> s\<lparr>ip_predictor := predictor_send_interval M (ip_predictor s) (ip_now s - u)\<rparr>)"
  have "ip_localState s1 = ip_localState s"
    by (simp add: s1_def split: option.splits)
  then have "ip_localState (snd (ip_user_bytes M p [] s1)) = ip_localState s"
    by (simp add: ip_user_bytes_local [OF assms(1)])
  then show ?thesis
    using assms(2) unfolding ip_write_call_def Let_def s1_def [symmetric]
    by (cases "ip_user_bytes M p [] s1") (auto split: if_splits)
qed

lemma inv_screen_emit:
  assumes laws: "frames_correct M display" and inv: "inv_screen display x s"
    and step: "ip_read_emit M s = Some t"
  shows "inv_screen display x t"
proof -
  obtain m now pred where m: "ip_reader s = RdEmit m now pred"
    using step by (cases "ip_reader s") (auto simp: ip_read_emit_def)
  obtain p1 f1 where 1: "predictor_cull M (ip_predictor s) (ip_completeRemoteState s) = (p1, f1)"
    by (rule prod.exhaust)
  obtain p2 f2 where 2: "predictor_apply M p1 f1 = (p2, f2)"
    by (rule prod.exhaust)
  obtain em d where 3: "display_new_frame M (ip_display s) (ip_initialized s) (ip_localState s) f2
      = (em, d)"
    by (rule prod.exhaust)
  have t: "ip_frames t = ip_frames s @ [em]" "ip_localState t = f2"
    using step m 1 2 3 by (auto simp: ip_read_emit_def Let_def)
  have "display em (client_screen display x s) = f2"
  proof (cases "ip_initialized s")
    case True
    then have "client_screen display x s = ip_localState s"
      using inv by (auto simp: inv_screen_def split: if_splits)
    moreover have "display (fst (display_new_frame M (ip_display s) True (ip_localState s) f2))
        (ip_localState s) = f2"
      using laws by (simp add: frames_correct_def)
    ultimately show ?thesis
      using 3 True by simp
  next
    case False
    have "display (fst (display_new_frame M (ip_display s) False (ip_localState s) f2)) y = f2" for y
      using laws by (simp add: frames_correct_def)
    then show ?thesis
      using 3 False by simp
  qed
  then show ?thesis
    using t by (simp add: inv_screen_def client_screen_def)
qed

lemma inv_screen_step:
  assumes "frames_correct M display" and "inv_screen display x s" and "ip_step M code e s = Some t"
  shows "inv_screen display x t"
proof -
  have w: "inv_screen display x t" if "ip_write_call M p s = Some t" for p
    using that
    by (rule ip_write_call_cases)
       (rule inv_screen_frame [OF assms(2)], simp_all add: ip_write_call_local [OF assms(1) that])
  show ?thesis
  proof (cases "e = ReadEmit \<or> (\<exists>p. e = WriteCall p)")
    case True
    then show ?thesis
      using assms(3) w inv_screen_emit [OF assms(1,2)] by auto
  next
    case False
    then show ?thesis
      using ip_step_local [OF assms(3)] by (intro inv_screen_frame [OF assms(2)]) auto
  qed
qed

lemma ip_screen_reachable:
  assumes "frames_correct M display"
    and "reaches (ip_step M code) (interpose M code opts clock) s"
  shows "inv_screen display x s"
  using assms(2)
  by (induction rule: reaches.induct) (auto intro: inv_screen_start inv_screen_step [OF assms(1)])

section \<open>A plain terminal\<close>

text \<open>
  A library at which the hypotheses above can be met: the screen is the text received, a frame is
  the whole screen, keystrokes pass unchanged and nothing is predicted.
\<close>

definition plain_terminal :: "(byte list, unit, byte list, unit) mosh" where
  "plain_terminal =
     \<lparr>make_framebuffer = (\<lambda>w h. []), make_display = (\<lambda>b. ()), display_open = (\<lambda>d. ([27], d)),
      display_close = (\<lambda>d. ([27, 99], d)), display_new_frame = (\<lambda>d i f g. (g, d)),
      make_complete = (\<lambda>w h. []), emulator_perform = (\<lambda>em bs. ([], em @ bs)),
      emulator_act_byte = (\<lambda>em b. ([b], em)), emulator_act_resize = (\<lambda>em w h. em),
      emulator_framebuffer = (\<lambda>em. em), make_predictor = (),
      predictor_display_preference = (\<lambda>p c. p), predictor_overwrite = (\<lambda>p b. p),
      predictor_send_interval = (\<lambda>p u. p), predictor_frame_sent = (\<lambda>p k. p),
      predictor_frame_acked = (\<lambda>p k. p), predictor_frame_late_acked = (\<lambda>p k. p),
      predictor_user_byte = (\<lambda>p b f. (p, f)), predictor_cull = (\<lambda>p f. (p, f)),
      predictor_apply = (\<lambda>p f. (p, f)), predictor_reset = (\<lambda>p. p)\<rparr>"

definition preference_code :: "display_preference \<Rightarrow> nat" where
  "preference_code d = (case d of PredictAlways \<Rightarrow> 0 | PredictNever \<Rightarrow> 1
     | PredictAdaptive \<Rightarrow> 2 | PredictExperimental \<Rightarrow> 3)"

definition plain_start :: "(byte list, unit, byte list, unit) interposer" where
  "plain_start = interpose plain_terminal preference_code get_default_interposer_options 1000"

lemmas plain_defs = plain_start_def plain_terminal_def interpose_def get_default_interposer_options_def
  preference_code_def

abbreviation plain_step :: "ip_event \<Rightarrow> (byte list, unit, byte list, unit) interposer \<Rightarrow>
    (byte list, unit, byte list, unit) interposer option" where
  "plain_step \<equiv> ip_step plain_terminal preference_code"

text \<open>A session: the first read opens the display, two chunks arrive, the second read shows them.\<close>

definition plain_session :: "ip_event list" where
  "plain_session =
     [ReadCall 8, ReadEntry, ReadOpen, PullRead [104, 105] None, PullPerform, PullCheck, PullCopy,
      PullRecord, PullPut, ReadCall 1, ReadEntry, ReadOpen, ReadError, ReadTime, ReadCheck,
      ReadClear, ReadEmit, ReadAppend]"

lemma plain_session_run:
  "\<exists>s. run plain_step plain_session plain_start = Some s \<and> ip_delivered s = [27, 104] \<and>
     ip_emitted s = [27, 104, 105] \<and> ip_pending s = Some [105] \<and> ip_reader s = RdRet [104] None \<and>
     ip_frames s = [[104, 105]] \<and> ip_localState s = [104, 105] \<and> ip_closer s = CsIdle \<and>
     ip_puller s = PlRead \<and> \<not> ip_pendingEpoch s \<and> ip_epochs s = [] \<and> ip_writer s = WrIdle \<and>
     ip_now s = 1000 \<and> ip_epoch s = 0 \<and> ip_notifying s = 0 \<and> ip_pendingEpochStarted s = None \<and>
     ip_emulator s = [104, 105] \<and> ip_pendingRemoteState s = [104, 105] \<and> ip_initialized s"
  by (simp add: plain_session_def plain_defs ip_step_defs buffer_write_def Let_def)

end
