(* ===== verification/TerminalCorrect.thy ===== *)
theory TerminalCorrect
  imports InterposerCorrect
begin

text \<open>
  The properties of the predictive interposer, over the invariants of theory \<open>InterposerCorrect\<close>,
  each with a concrete session on a plain terminal.
\<close>

lemmas plain_run = plain_session_def plain_defs ip_step_defs buffer_write_def Let_def

lemma ip_reachable_from:
  "run (ip_step M code) es (interpose M code opts clock) = Some s \<Longrightarrow>
     reaches (ip_step M code) (interpose M code opts clock) s"
  by (rule run_reaches)

section \<open>What holds in every reachable state\<close>

text \<open>
  C9. Epochs are opened in sequence: whatever the schedule, the epochs handed to \<open>openEpoch\<close> (with
  the one of a \<open>Write\<close> under way) are \<open>1, 2, 3, ...\<close> in that order modulo \<open>2\<^sup>6\<^sup>4\<close>, none skipped and
  none repeated, and the counter is the last of them.
\<close>

theorem ip_epochs_sequential:
  assumes "reaches (ip_step M code) (interpose M code opts clock) s"
  shows "map fst (opened_epochs s) = map of_nat [1..<Suc (length (opened_epochs s))] \<and>
    ip_epoch s = of_nat (length (opened_epochs s))"
proof -
  have "inv_epochs s"
    by (rule ip_ep.reachable_inv [OF _ assms]) (auto simp: ip_start_def)
  then show ?thesis
    by (simp add: inv_epochs_def)
qed

theorem ip_epochs_sequential_witness:
  "\<exists>s. run plain_step [WriteCall [97], WriteSink 1 None, WriteOpen, IpTick 7, WriteCall [98]]
      plain_start = Some s \<and>
    map fst (opened_epochs s) = [1, 2] \<and> ip_epoch s = 2"
proof -
  obtain s where s: "run plain_step [WriteCall [97], WriteSink 1 None, WriteOpen, IpTick 7,
      WriteCall [98]] plain_start = Some s"
    and v: "opened_epochs s = [(1, 1000), (2, 1007)]"
    by (simp add: plain_run opened_epochs_def)
  show ?thesis
    using s v ip_epochs_sequential [OF ip_reachable_from [OF s [unfolded plain_start_def]]] by simp
qed



text \<open>
  When no epoch is pending and \<open>pullFromUpstream\<close> is back in \<open>upstream.Read\<close>, the state that
  \<open>Read\<close> shows is the remote state as last received: no update is held back.
\<close>

theorem ip_complete_is_current:
  assumes "reaches (ip_step M code) (interpose M code opts clock) s"
    and "\<not> ip_pendingEpoch s" and "ip_puller s = PlRead"
  shows "ip_completeRemoteState s = ip_pendingRemoteState s"
proof -
  have "inv_remote s"
    by (rule ip_re.reachable_inv [OF _ assms(1)]) (auto simp: ip_start_def)
  then show ?thesis
    using assms(2,3) by (simp add: inv_remote_def)
qed

theorem ip_complete_is_current_witness:
  "\<exists>s. run plain_step plain_session plain_start = Some s \<and>
    ip_completeRemoteState s = [104, 105]"
proof -
  obtain s where s: "run plain_step plain_session plain_start = Some s"
    and v: "\<not> ip_pendingEpoch s" "ip_puller s = PlRead" "ip_pendingRemoteState s = [104, 105]"
    using plain_session_run by blast
  show ?thesis
    using s v ip_complete_is_current [OF ip_reachable_from [OF s [unfolded plain_start_def]] v(1,2)]
    by simp
qed



section \<open>Acknowledgements out of order\<close>

lemma ip_frozen_step:
  assumes "ip_step M code e s = Some t" and "\<not> is_epoch e" and "ip_pendingEpoch s"
    and "\<forall>x. ip_puller s \<noteq> PlCopy x"
  shows "ip_pendingEpoch t \<and> (\<forall>x. ip_puller t \<noteq> PlCopy x) \<and>
    ip_completeRemoteState t = ip_completeRemoteState s"
proof (cases "is_pull e")
  case True
  then show ?thesis
    using assms by (cases e; cases "ip_puller s") (auto simp: ip_events Let_def split: if_splits prod.splits)
next
  case False
  then show ?thesis
    using ip_step_screens [OF assms(1) False assms(2)] assms(3,4) by simp
qed

lemma ip_frozen_run:
  assumes "run (ip_step M code) es s = Some t" and "\<forall>e \<in> set es. \<not> is_epoch e"
    and "ip_pendingEpoch s" and "\<forall>x. ip_puller s \<noteq> PlCopy x"
  shows "ip_pendingEpoch t \<and> ip_completeRemoteState t = ip_completeRemoteState s"
  using assms
proof (induction es arbitrary: s)
  case (Cons e es)
  obtain s' where s': "ip_step M code e s = Some s'" "run (ip_step M code) es s' = Some t"
    using Cons.prems(1) by (auto split: option.splits)
  then show ?case
    using Cons.IH [OF s'(2)] Cons.prems ip_frozen_step [OF s'(1)] by simp
qed simp

text \<open>
  C32. \<open>CloseEpoch\<close> depends on the order of the acknowledgements, which come from goroutines of
  their own: with \<open>k\<close> the last epoch opened and \<open>j < k\<close>, acknowledging \<open>j\<close> and then \<open>k\<close> leaves no epoch
  pending, but \<open>k\<close> and then \<open>j\<close> leaves one pending although both are acknowledged, and from then on
  no remote output is shown until the next keystroke or acknowledgement: along every schedule
  without one the complete state stays what it was.
\<close>

theorem ip_stale_ack_freezes_screen:
  assumes "j < ip_epoch s" and "ip_puller s = PlRead"
  shows "(\<exists>t. run (ip_step M code) [CloseEpoch j u, CloseEpoch (ip_epoch s) v] s = Some t \<and>
      \<not> ip_pendingEpoch t) \<and>
    (\<exists>t. run (ip_step M code) [CloseEpoch (ip_epoch s) v, CloseEpoch j u] s = Some t \<and>
      ip_pendingEpoch t \<and>
      (\<forall>es w. (\<forall>e \<in> set es. \<not> is_epoch e) \<and> run (ip_step M code) es t = Some w \<longrightarrow>
        ip_pendingEpoch w \<and> ip_completeRemoteState w = ip_pendingRemoteState s))"
proof
  show "\<exists>t. run (ip_step M code) [CloseEpoch j u, CloseEpoch (ip_epoch s) v] s = Some t \<and>
      \<not> ip_pendingEpoch t"
    by (simp add: ip_close_epoch_def Let_def)
  define t where "t = ip_close_epoch M j u (ip_close_epoch M (ip_epoch s) v s)"
  have run: "run (ip_step M code) [CloseEpoch (ip_epoch s) v, CloseEpoch j u] s = Some t"
    by (simp add: t_def)
  have t: "ip_pendingEpoch t" "ip_puller t = PlRead"
    "ip_completeRemoteState t = ip_pendingRemoteState s"
    using assms by (simp_all add: t_def ip_close_epoch_def Let_def)
  show "\<exists>t. run (ip_step M code) [CloseEpoch (ip_epoch s) v, CloseEpoch j u] s = Some t \<and>
      ip_pendingEpoch t \<and>
      (\<forall>es w. (\<forall>e \<in> set es. \<not> is_epoch e) \<and> run (ip_step M code) es t = Some w \<longrightarrow>
        ip_pendingEpoch w \<and> ip_completeRemoteState w = ip_pendingRemoteState s)"
    using run t ip_frozen_run [of M code _ t] by auto
qed

theorem ip_stale_ack_freezes_screen_witness:
  "\<exists>s t w. run plain_step [WriteCall [97], WriteSink 1 None, WriteOpen, WriteCall [98],
      WriteSink 1 None, WriteOpen] plain_start = Some s \<and>
    run plain_step [CloseEpoch 2 1000, CloseEpoch 1 1000] s = Some t \<and>
    run plain_step [PullRead [97, 98] None, PullPerform, PullCheck, PullRecord, PullPut] t = Some w \<and>
    ip_received w = [97, 98] \<and> ip_completeRemoteState w = []"
proof -
  obtain s where s: "run plain_step [WriteCall [97], WriteSink 1 None, WriteOpen, WriteCall [98],
      WriteSink 1 None, WriteOpen] plain_start = Some s"
    and v: "ip_epoch s = 2" "ip_puller s = PlRead" "ip_pendingRemoteState s = []"
      "ip_received s = []" "ip_emulator s = []" "ip_reader s = RdIdle"
    by (simp add: plain_run)
  obtain t where t: "run plain_step [CloseEpoch 2 1000, CloseEpoch 1 1000] s = Some t"
    and f: "ip_puller t = PlRead" "ip_received t = []" "ip_pendingEpoch t" "ip_reader t = RdIdle"
    using v by (simp add: ip_close_epoch_def Let_def)
  obtain w where w: "run plain_step [PullRead [97, 98] None, PullPerform, PullCheck, PullRecord,
      PullPut] t = Some w" and r: "ip_received w = [97, 98]"
    using f by (simp add: ip_step_defs plain_terminal_def Let_def)
  have frozen: "\<exists>t'. run plain_step [CloseEpoch 2 1000, CloseEpoch 1 1000] s = Some t' \<and>
      ip_pendingEpoch t' \<and>
      (\<forall>es w. (\<forall>e \<in> set es. \<not> is_epoch e) \<and> run plain_step es t' = Some w \<longrightarrow>
        ip_pendingEpoch w \<and> ip_completeRemoteState w = [])"
    using ip_stale_ack_freezes_screen [of 1 s plain_terminal preference_code 1000 1000] v
    by (simp only: v) simp
  then have still: "\<forall>es w. (\<forall>e \<in> set es. \<not> is_epoch e) \<and> run plain_step es t = Some w \<longrightarrow>
      ip_completeRemoteState w = []"
    unfolding t by auto
  have "ip_completeRemoteState w = []"
    using spec [OF spec [OF still, of "[PullRead [97, 98] None, PullPerform, PullCheck, PullRecord,
      PullPut]"], of w] w by simp
  then show ?thesis
    using s t w r by blast
qed

section \<open>The end of the remote output\<close>

text \<open>A parked reader whose puller has returned is woken by keystrokes and acknowledgements only.\<close>

lemma ip_parked_step:
  assumes "ip_step M code e s = Some t" and "\<not> is_epoch e" and "ip_reader s = RdSelect m now"
    and "ip_puller s = PlDone" and "ip_notifying s = 0"
  shows "ip_reader t = RdSelect m now \<and> ip_puller t = PlDone \<and> ip_notifying t = 0"
  using assms by (cases e) (auto simp: ip_events ip_pending_write_def Let_def
      split: if_splits prod.splits ip_writer.splits ip_closer.splits)

lemma ip_parked_run:
  assumes "run (ip_step M code) es s = Some t" and "\<forall>e \<in> set es. \<not> is_epoch e"
    and "ip_reader s = RdSelect m now" and "ip_puller s = PlDone" and "ip_notifying s = 0"
  shows "ip_reader t = RdSelect m now"
  using assms
proof (induction es arbitrary: s)
  case (Cons e es)
  obtain s' where s': "ip_step M code e s = Some s'" "run (ip_step M code) es s' = Some t"
    using Cons.prems(1) by (auto split: option.splits)
  then show ?case
    using Cons.IH [OF s'(2)] Cons.prems ip_parked_step [OF s'(1)] by simp
qed simp

text \<open>The reader tests \<open>droppedUpdate\<close>, the end of file is dropped, the reader parks.\<close>

definition lost_eof :: "nat \<Rightarrow> nat \<Rightarrow> ip_event list" where
  "lost_eof m k = [ReadCall m, ReadEntry, ReadOpen, ReadCall k, ReadEntry, ReadOpen, ReadError,
     ReadTime, ReadCheck, PullRead [] (Some EOF), PullRecord, PullPut, ReadPark]"

text \<open>
  C31. The end of the remote output can be lost: \<open>Read\<close> tests \<open>droppedUpdate\<close> before it waits in the
  \<open>select\<close>, and an end of file put between the two is dropped by the non-blocking put. After that,
  along every schedule without a keystroke and an acknowledgement, \<open>Read\<close> stays in its \<open>select\<close>,
  with the error recorded and the update marked as dropped; so the copy to the client, and the
  channel, stay open. This holds for every terminal library.
\<close>

theorem ip_lost_eof_hangs_reader:
  assumes "length (fst (display_open M (make_display M True))) \<le> m"
  shows "\<exists>s. run (ip_step M code) (lost_eof m k) (interpose M code opts clock) = Some s \<and>
    ip_lastUpstreamErr s = Some EOF \<and> ip_droppedUpdate s \<and>
    (\<forall>es t. (\<forall>e \<in> set es. \<not> is_epoch e) \<and> run (ip_step M code) es s = Some t \<longrightarrow>
      ip_reader t = RdSelect k clock)"
proof -
  obtain op d where o: "display_open M (make_display M True) = (op, d)"
    by (rule prod.exhaust)
  obtain s where s: "run (ip_step M code) (lost_eof m k) (interpose M code opts clock) = Some s"
    and v: "ip_lastUpstreamErr s = Some EOF" "ip_droppedUpdate s" "ip_reader s = RdSelect k clock"
      "ip_puller s = PlDone" "ip_notifying s = 0"
    using assms o by (simp add: lost_eof_def interpose_def ip_step_defs Let_def min_absorb2)
  show ?thesis
    using s v ip_parked_run [OF _ _ v(3-5)] by blast
qed

theorem ip_lost_eof_hangs_reader_witness:
  "\<exists>s t. run plain_step (lost_eof 8 16) plain_start = Some s \<and>
    run plain_step [IpTick 60000, CloseCall None, CloseCall None, CloseCall None] s = Some t \<and>
    ip_reader t = RdSelect 16 1000"
proof -
  have hang: "\<exists>s. run plain_step (lost_eof 8 16) plain_start = Some s \<and>
    ip_lastUpstreamErr s = Some EOF \<and> ip_droppedUpdate s \<and>
    (\<forall>es t. (\<forall>e \<in> set es. \<not> is_epoch e) \<and> run plain_step es s = Some t \<longrightarrow>
      ip_reader t = RdSelect 16 1000)"
    unfolding plain_start_def
    by (rule ip_lost_eof_hangs_reader) (simp add: plain_terminal_def)
  obtain s t where s: "run plain_step (lost_eof 8 16) plain_start = Some s"
    and t: "run plain_step [IpTick 60000, CloseCall None, CloseCall None, CloseCall None] s = Some t"
    by (simp add: lost_eof_def plain_run)
  have still: "\<forall>es t. (\<forall>e \<in> set es. \<not> is_epoch e) \<and> run plain_step es s = Some t \<longrightarrow>
      ip_reader t = RdSelect 16 1000"
    using hang unfolding s by auto
  have "ip_reader t = RdSelect 16 1000"
    using spec [OF spec [OF still, of "[IpTick 60000, CloseCall None, CloseCall None,
      CloseCall None]"], of t] t by simp
  then show ?thesis
    using s t by blast
qed

text \<open>
  C33. An end of file that comes while no \<open>Read\<close> waits hides the last update: for every library and
  every chunk to which the emulator does not reply, output received together with the end of file
  is never shown and the closing sequence is not sent; the next \<open>Read\<close> returns \<open>(0, io.EOF)\<close>.
\<close>

theorem ip_eof_hides_last_update:
  assumes "length (fst (display_open M (make_display M True))) \<le> m"
    and "bs \<noteq> []" and "length bs \<le> 4096"
    and "fst (emulator_perform M (make_complete M 1 1) bs) = []"
  shows "\<exists>s. run (ip_step M code) [ReadCall m, ReadEntry, ReadOpen, PullRead bs (Some EOF),
      PullPerform, PullCheck, PullCopy, PullRecord, PullPut, ReadCall k, ReadEntry, ReadOpen, ReadError]
      (interpose M code opts clock) = Some s \<and>
    ip_received s = bs \<and> ip_frames s = [] \<and> ip_reader s = RdRet [] (Some EOF) \<and>
    ip_delivered s = fst (display_open M (make_display M True))"
proof -
  obtain op d where o: "display_open M (make_display M True) = (op, d)"
    by (rule prod.exhaust)
  obtain em where p: "emulator_perform M (make_complete M 1 1) bs = ([], em)"
    using assms(4) by (metis prod.collapse)
  show ?thesis
    using assms o p by (simp add: interpose_def ip_step_defs Let_def min_absorb2)
qed

theorem ip_eof_hides_last_update_witness:
  "\<exists>s. run plain_step [ReadCall 8, ReadEntry, ReadOpen, PullRead [98, 121, 101] (Some EOF),
      PullPerform, PullCheck, PullCopy, PullRecord, PullPut, ReadCall 8, ReadEntry, ReadOpen, ReadError]
      plain_start = Some s \<and>
    ip_received s = [98, 121, 101] \<and> ip_frames s = [] \<and> ip_reader s = RdRet [] (Some EOF)"
  using ip_eof_hides_last_update [of plain_terminal 8 "[98, 121, 101]" preference_code 8
      get_default_interposer_options 1000]
  by (auto simp: plain_terminal_def plain_start_def)

section \<open>Keystrokes\<close>

text \<open>What the emulator makes of the user's bytes, one after the other.\<close>

fun translated :: "('f, 'd, 'e, 'p) mosh \<Rightarrow> 'e \<Rightarrow> byte list \<Rightarrow> byte list" where
  "translated M em [] = []"
| "translated M em (b # bs) =
     fst (emulator_act_byte M em b) @ translated M (snd (emulator_act_byte M em b)) bs"

lemma ip_user_bytes_translated:
  "fst (ip_user_bytes M bs host s) = host @ translated M (ip_emulator s) bs"
  by (induction bs arbitrary: host s)
     (auto simp: Let_def buffer_write_def split: prod.splits)

text \<open>
  A \<open>Write\<close> hands the sink one buffer: the emulator's translation of its bytes, in order. It
  returns the sink's count of translated bytes, whatever the length of \<open>p\<close>, and opens exactly one
  epoch, the successor of the last, stamped with the time of the call.
\<close>

theorem ip_write_translates:
  assumes "run (ip_step M code) [WriteCall p, WriteSink n e, WriteOpen] s = Some t"
  shows "ip_sent t = ip_sent s @ [translated M (ip_emulator s) p] \<and> ip_writer t = WrRet n e \<and>
    ip_epochs t = ip_epochs s @ [(ip_epoch s + 1, ip_now s)] \<and> ip_pendingEpoch t"
proof -
  define s1 where "s1 = (case ip_pendingEpochStarted s of
      None \<Rightarrow> s\<lparr>ip_pendingEpochStarted := Some (ip_now s)\<rparr>
    | Some u \<Rightarrow> s\<lparr>ip_predictor := predictor_send_interval M (ip_predictor s) (ip_now s - u)\<rparr>)"
  obtain host s2 where u: "ip_user_bytes M p [] s1 = (host, s2)"
    by (rule prod.exhaust)
  have s1: "ip_epoch s1 = ip_epoch s" "ip_epochs s1 = ip_epochs s" "ip_sent s1 = ip_sent s"
    "ip_emulator s1 = ip_emulator s"
    by (simp_all add: s1_def split: option.splits)
  have host: "host = translated M (ip_emulator s) p"
    using ip_user_bytes_translated [of M p "[]" s1] u s1 by simp
  show ?thesis
    using assms u s1 ip_user_bytes_frame [OF u] host
    unfolding run.simps ip_step.simps ip_write_call_def Let_def s1_def [symmetric]
    by (auto simp: ip_write_sink_def ip_write_open_def split: if_splits)
qed

theorem ip_write_translates_witness:
  "\<exists>t. run plain_step [WriteCall [108, 115], WriteSink 2 None, WriteOpen] plain_start = Some t \<and>
    ip_sent t = [[108, 115]] \<and> ip_epochs t = [(1, 1000)]"
proof -
  obtain t where t: "run plain_step [WriteCall [108, 115], WriteSink 2 None, WriteOpen] plain_start
      = Some t"
    by (simp add: plain_run)
  show ?thesis
    using t ip_write_translates [OF t] by (auto simp: plain_defs)
qed

section \<open>The size of the terminal\<close>

lemma ip_step_size:
  assumes "ip_step M code e s = Some t"
  shows "ip_width t = ip_width s \<and> ip_height t = ip_height s"
proof (cases "\<exists>p. e = WriteCall p")
  case True
  then obtain p where "ip_write_call M p s = Some t"
    using assms by auto
  then show ?thesis
    by (rule ip_write_call_cases) simp
next
  case False
  then show ?thesis
    using assms by (cases e) (auto simp: ip_events Let_def split: ip_splits)
qed

text \<open>
  \<open>CurrentContents\<close> promises a patch for a fresh terminal of the current size, but no event,
  \<open>Resize\<close> included, updates \<open>width\<close> and \<open>height\<close>: in every reachable state the patch is the initial
  delta from a blank framebuffer of one column and one row.
\<close>

theorem ip_contents_from_one_cell:
  assumes "reaches (ip_step M code) (interpose M code opts clock) s"
  shows "fst (ip_current_contents M True s) =
    fst (display_new_frame M (ip_display s) False (make_framebuffer M 1 1)
      (emulator_framebuffer M (ip_emulator s)))"
proof -
  have "ip_width s = 1 \<and> ip_height s = 1"
    using assms
  proof (induction rule: reaches.induct)
    case (move t e u)
    then show ?case
      using ip_step_size [OF move.hyps(2)] by simp
  qed (simp add: interpose_def)
  then show ?thesis
    by (simp add: ip_current_contents_def Let_def split: prod.splits)
qed

theorem ip_contents_from_one_cell_witness:
  "\<exists>s. run plain_step [Resize 80 24, PullRead [104] None, PullPerform] plain_start = Some s \<and>
    fst (ip_current_contents plain_terminal True s) = [104]"
proof -
  obtain s where s: "run plain_step [Resize 80 24, PullRead [104] None, PullPerform] plain_start
      = Some s" and v: "ip_emulator s = [104]"
    by (simp add: plain_run)
  show ?thesis
    using s v ip_contents_from_one_cell [OF ip_reachable_from [OF s [unfolded plain_start_def]]]
    by (simp add: plain_terminal_def)
qed

end
