(* ===== verification/Codec.thy ===== *)
theory Codec
  imports Prelude
begin

text \<open>
  Decoders over a byte reader, as package \<open>encoding/binary\<close> offers them: \<open>io.ReadFull\<close> with its two
  error values, big-endian 32-bit words, byte strings of a given length; and the interface they
  share, a decoder with its encoder, closed under sequencing.
\<close>

unbundle bit_operations_syntax

type_synonym u32 = "32 word"

text \<open>A decoder consumes a prefix of what the reader holds, or fails.\<close>

type_synonym 'a decoder = "byte list \<Rightarrow> go_error + ('a \<times> byte list)"

section \<open>The interface\<close>

text \<open>
  A decoder and its encoder agree: an encoded value is decoded to itself and leaves the rest, and
  what was decoded was the encoding of a valid value.
\<close>

locale prefix_codec =
  fixes dec :: "'a decoder" and enc :: "'a \<Rightarrow> byte list" and valid :: "'a \<Rightarrow> bool"
  assumes dec_enc: "valid x \<Longrightarrow> dec (enc x @ r) = Inr (x, r)"
    and enc_dec: "dec bs = Inr (x, r) \<Longrightarrow> valid x \<and> bs = enc x @ r"
begin

lemma dec_iff: "dec bs = Inr (x, r) \<longleftrightarrow> valid x \<and> bs = enc x @ r"
proof
  assume "valid x \<and> bs = enc x @ r"
  then show "dec bs = Inr (x, r)"
    using dec_enc by simp
qed (rule enc_dec)

lemma dec_append:
  assumes "dec bs = Inr (x, r)"
  shows "dec (bs @ t) = Inr (x, r @ t)"
  using enc_dec [OF assms] dec_enc [of x "r @ t"] by (metis append_assoc)

lemma enc_unique:
  assumes "valid x" and "valid y" and "enc x @ r = enc y @ t"
  shows "x = y \<and> r = t"
proof -
  have "Inr (x, r) = (Inr (y, t) :: go_error + _)"
    using dec_enc [OF assms(1), of r] dec_enc [OF assms(2), of t] assms(3) by metis
  then show ?thesis
    by simp
qed

lemma dec_shrinks: "dec bs = Inr (x, r) \<Longrightarrow> length bs = length (enc x) + length r"
  by (simp add: dec_iff)

end

text \<open>One decoder after the other, the second fixed or chosen by what the first one read.\<close>

definition dec_then :: "'a decoder \<Rightarrow> ('a \<Rightarrow> 'b decoder) \<Rightarrow> 'b decoder" where
  "dec_then d f bs = (case d bs of Inl e \<Rightarrow> Inl e | Inr (x, r) \<Rightarrow> f x r)"

definition dec_return :: "'a \<Rightarrow> 'a decoder" where
  "dec_return x bs = Inr (x, bs)"

definition dec_pair :: "'a decoder \<Rightarrow> 'b decoder \<Rightarrow> ('a \<times> 'b) decoder" where
  "dec_pair d1 d2 = dec_then d1 (\<lambda>x. dec_then d2 (\<lambda>y. dec_return (x, y)))"

lemma dec_then_Inr:
  "dec_then d f bs = Inr res \<longleftrightarrow> (\<exists>x r. d bs = Inr (x, r) \<and> f x r = Inr res)"
  by (auto simp: dec_then_def split: sum.splits)

locale codec_pair =
  a: prefix_codec dec_a enc_a valid_a + b: prefix_codec dec_b enc_b valid_b
  for dec_a :: "'a decoder" and enc_a valid_a and dec_b :: "'b decoder" and enc_b valid_b

sublocale codec_pair \<subseteq> both: prefix_codec "dec_pair dec_a dec_b" "\<lambda>(x, y). enc_a x @ enc_b y"
  "\<lambda>(x, y). valid_a x \<and> valid_b y"
proof unfold_locales
  fix x :: "'a \<times> 'b" and r
  assume "case x of (x, y) \<Rightarrow> valid_a x \<and> valid_b y"
  then show "dec_pair dec_a dec_b ((case x of (x, y) \<Rightarrow> enc_a x @ enc_b y) @ r) = Inr (x, r)"
    by (auto simp: dec_pair_def dec_then_def dec_return_def a.dec_enc b.dec_enc split: prod.splits)
next
  fix bs and x :: "'a \<times> 'b" and r
  assume "dec_pair dec_a dec_b bs = Inr (x, r)"
  then show "(case x of (x, y) \<Rightarrow> valid_a x \<and> valid_b y) \<and>
      bs = (case x of (x, y) \<Rightarrow> enc_a x @ enc_b y) @ r"
    by (auto simp: dec_pair_def dec_then_Inr dec_return_def dest!: a.enc_dec b.enc_dec)
qed

section \<open>Reading from a byte reader\<close>

text \<open>
  \<open>io.ReadFull\<close> on a \<open>bytes.Reader\<close>: nothing to read succeeds, an exhausted reader is \<open>io.EOF\<close>,
  one that runs out on the way \<open>io.ErrUnexpectedEOF\<close>.
\<close>

definition read_full :: "nat \<Rightarrow> byte list decoder" where
  "read_full n r =
     (if n \<le> length r then Inr (take n r, drop n r)
      else if r = [] then Inl EOF else Inl ErrUnexpectedEOF)"

interpretation raw: prefix_codec "read_full n" id "\<lambda>bs. length bs = n" for n
  by unfold_locales (auto simp: read_full_def split: if_splits)

text \<open>\<open>binary.BigEndian.Uint32\<close> and \<open>PutUint32\<close>.\<close>

definition be_u32 :: "byte list \<Rightarrow> u32" where
  "be_u32 b = ucast (b ! 3) OR push_bit 8 (ucast (b ! 2)) OR push_bit 16 (ucast (b ! 1))
     OR push_bit 24 (ucast (b ! 0))"

definition put_u32 :: "u32 \<Rightarrow> byte list" where
  "put_u32 v = [ucast (drop_bit 24 v), ucast (drop_bit 16 v), ucast (drop_bit 8 v), ucast v]"

definition read_u32 :: "u32 decoder" where
  "read_u32 = dec_then (read_full 4) (\<lambda>b. dec_return (be_u32 b))"

lemma length_put_u32 [simp]: "length (put_u32 v) = 4"
  by (simp add: put_u32_def)

lemma be_u32_put: "be_u32 (put_u32 v) = v"
proof (rule bit_word_eqI)
  fix n
  assume "n < LENGTH(32)"
  then consider "n < 8" | "8 \<le> n" "n < 16" | "16 \<le> n" "n < 24" | "24 \<le> n" "n < 32"
    by fastforce
  then show "bit (be_u32 (put_u32 v)) n \<longleftrightarrow> bit v n"
    by cases (auto simp: be_u32_def put_u32_def bit_simps)
qed

lemma put_u32_be:
  assumes "length b = 4"
  shows "put_u32 (be_u32 b) = b"
proof -
  obtain b0 b1 b2 b3 where b: "b = [b0, b1, b2, b3]"
    using assms by (auto simp: numeral_eq_Suc length_Suc_conv)
  have "ucast (drop_bit 24 (be_u32 b)) = b0" and "ucast (drop_bit 16 (be_u32 b)) = b1"
    and "ucast (drop_bit 8 (be_u32 b)) = b2" and "ucast (be_u32 b) = b3"
    by (rule bit_word_eqI; auto simp: be_u32_def b bit_simps dest: bit_imp_le_length)+
  then show ?thesis
    by (simp add: put_u32_def b)
qed

interpretation u32: prefix_codec read_u32 put_u32 "\<lambda>_. True"
  by unfold_locales
     (auto simp: read_u32_def dec_then_def dec_return_def raw.dec_iff be_u32_put put_u32_be
       read_full_def split: sum.splits if_splits)

end
