(* ===== verification/PtyReq.thy ===== *)
theory PtyReq
  imports Codec
begin

text \<open>
  The payloads of the two channel requests the proxy looks into
  (\<open>internal/sshproxy/ptyreq.go\<close>): \<open>pty-req\<close> and \<open>window-change\<close>, their readers, the serializer of
  \<open>WindowChange\<close> and the two \<open>String\<close> methods. A Go string is its bytes.
\<close>

section \<open>pty-req\<close>

record pty_req_data =
  Term :: "byte list"
  Width :: u32
  Height :: u32

text \<open>
  The four reads of \<open>InterpretPtyReq\<close>, each returning its error at once. What follows the height
  (pixel sizes and terminal modes) is not read.
\<close>

definition read_pty_req :: "pty_req_data decoder" where
  "read_pty_req =
     dec_then read_u32 (\<lambda>termLen.
     dec_then (read_full (unat termLen)) (\<lambda>tm.
     dec_then read_u32 (\<lambda>width.
     dec_then read_u32 (\<lambda>height.
     dec_return \<lparr>Term = tm, Width = width, Height = height\<rparr>))))"

definition interpret_pty_req :: "byte list \<Rightarrow> go_error + pty_req_data" where
  "interpret_pty_req payload = map_sum id fst (read_pty_req payload)"

text \<open>
  The size of \<open>make([]byte, termLen)\<close>, allocated as soon as the first word has been read and
  before anything is known of the rest of the payload.
\<close>

definition pty_req_alloc :: "byte list \<Rightarrow> nat" where
  "pty_req_alloc payload = (case read_u32 payload of Inl _ \<Rightarrow> 0 | Inr (termLen, _) \<Rightarrow> unat termLen)"

section \<open>window-change\<close>

record window_change =
  wcWidth :: u32
  wcHeight :: u32

definition read_window_change :: "window_change decoder" where
  "read_window_change =
     dec_then read_u32 (\<lambda>width.
     dec_then read_u32 (\<lambda>height.
     dec_return \<lparr>wcWidth = width, wcHeight = height\<rparr>))"

definition interpret_window_change :: "byte list \<Rightarrow> go_error + window_change" where
  "interpret_window_change payload = map_sum id fst (read_window_change payload)"

text \<open>
  \<open>Serialize\<close>: four words; the pixel sizes are the character sizes times 8, in 32-bit arithmetic.
  \<open>binary.Write\<close> of a word to a \<open>bytes.Buffer\<close> does not fail, so the nil results are not reached.
\<close>

definition window_change_serialize :: "window_change \<Rightarrow> byte list" where
  "window_change_serialize wc =
     buffer_write (buffer_write (buffer_write (buffer_write []
       (put_u32 (wcWidth wc))) (put_u32 (wcHeight wc)))
       (put_u32 (wcWidth wc * 8))) (put_u32 (wcHeight wc * 8))"

section \<open>The String methods\<close>

text \<open>The verb \<open>%d\<close> for an unsigned number, and ASCII text as bytes.\<close>

fun decimal :: "nat \<Rightarrow> string" where
  "decimal n = (if n < 10 then [char_of (48 + n)] else decimal (n div 10) @ [char_of (48 + n mod 10)])"

declare decimal.simps [simp del]

definition bytes_of :: "string \<Rightarrow> byte list" where
  "bytes_of s = map (\<lambda>c. of_char c) s"

fun pty_req_string :: "pty_req_data option \<Rightarrow> byte list" where
  "pty_req_string None = bytes_of ''<nil>''"
| "pty_req_string (Some prd) =
     bytes_of ''[Term: '' @ Term prd @ bytes_of '', Width: '' @ bytes_of (decimal (unat (Width prd)))
     @ bytes_of '', Height: '' @ bytes_of (decimal (unat (Height prd))) @ bytes_of '']''"

definition window_change_string :: "window_change \<Rightarrow> string" where
  "window_change_string wc =
     ''WindowChange{Width: '' @ decimal (unat (wcWidth wc)) @ '', Height: ''
     @ decimal (unat (wcHeight wc)) @ ''}''"

section \<open>The wire format\<close>

text \<open>
  The format of RFC 4254, sections 6.2 and 6.7, up to the fields that are read: a string as its
  length and its bytes, and numbers as big-endian words.
\<close>

definition read_string :: "byte list decoder" where
  "read_string = dec_then read_u32 (\<lambda>n. read_full (unat n))"

definition put_string :: "byte list \<Rightarrow> byte list" where
  "put_string s = put_u32 (of_nat (length s)) @ s"

definition put_pty_req :: "pty_req_data \<Rightarrow> byte list" where
  "put_pty_req prd = put_string (Term prd) @ put_u32 (Width prd) @ put_u32 (Height prd)"

definition put_window_change :: "window_change \<Rightarrow> byte list" where
  "put_window_change wc = put_u32 (wcWidth wc) @ put_u32 (wcHeight wc)"

interpretation lp_string: prefix_codec read_string put_string "\<lambda>s. length s < 2 ^ 32"
proof unfold_locales
  fix s r :: "byte list"
  assume "length s < 2 ^ 32"
  then have "unat (of_nat (length s) :: u32) = length s"
    by (simp add: unat_of_nat)
  then show "read_string (put_string s @ r) = Inr (s, r)"
    by (simp add: read_string_def put_string_def dec_then_def u32.dec_enc raw.dec_enc [of s "length s", simplified])
next
  fix bs s r
  assume "read_string bs = Inr (s, r)"
  then obtain n t where "bs = put_u32 n @ t" and "length s = unat n" and "t = s @ r"
    by (auto simp: read_string_def dec_then_Inr dest!: u32.enc_dec raw.enc_dec)
  moreover have "unat n < 2 ^ 32"
    using unsigned_less [of n] by simp
  ultimately show "length s < 2 ^ 32 \<and> bs = put_string s @ r"
    by (simp add: put_string_def)
qed

interpretation two_words: codec_pair read_u32 put_u32 "\<lambda>_. True" read_u32 put_u32 "\<lambda>_. True" ..

interpretation pty_fields: codec_pair read_string put_string "\<lambda>s. length s < 2 ^ 32"
  "dec_pair read_u32 read_u32" "\<lambda>(x, y). put_u32 x @ put_u32 y" "\<lambda>(x, y). True \<and> True" ..

lemma read_pty_req_fields:
  "read_pty_req bs = map_sum id (\<lambda>((t, w, h), r). (\<lparr>Term = t, Width = w, Height = h\<rparr>, r))
    (dec_pair read_string (dec_pair read_u32 read_u32) bs)"
  by (auto simp: read_pty_req_def read_string_def dec_pair_def dec_then_def dec_return_def
      split: sum.splits)

lemma read_window_change_fields:
  "read_window_change bs = map_sum id (\<lambda>((w, h), r). (\<lparr>wcWidth = w, wcHeight = h\<rparr>, r))
    (dec_pair read_u32 read_u32 bs)"
  by (auto simp: read_window_change_def dec_pair_def dec_then_def dec_return_def split: sum.splits)

lemma map_sum_Inr: "map_sum f g x = Inr y \<longleftrightarrow> (\<exists>z. x = Inr z \<and> y = g z)"
  by (cases x) auto

text \<open>The two readers are decoders of the wire format.\<close>

interpretation pty_req: prefix_codec read_pty_req put_pty_req "\<lambda>prd. length (Term prd) < 2 ^ 32"
proof unfold_locales
  fix prd :: pty_req_data and r
  assume "length (Term prd) < 2 ^ 32"
  then show "read_pty_req (put_pty_req prd @ r) = Inr (prd, r)"
    using pty_fields.both.dec_enc [of "(Term prd, Width prd, Height prd)" r]
    by (simp add: read_pty_req_fields put_pty_req_def)
next
  fix bs prd r
  assume "read_pty_req bs = Inr (prd, r)"
  then obtain t w h where "dec_pair read_string (dec_pair read_u32 read_u32) bs = Inr ((t, w, h), r)"
    and "prd = \<lparr>Term = t, Width = w, Height = h\<rparr>"
    by (auto simp: read_pty_req_fields map_sum_Inr)
  then show "length (Term prd) < 2 ^ 32 \<and> bs = put_pty_req prd @ r"
    by (auto simp: put_pty_req_def dest!: pty_fields.both.enc_dec)
qed

interpretation window_change: prefix_codec read_window_change put_window_change "\<lambda>_. True"
proof unfold_locales
  fix wc :: window_change and r
  show "read_window_change (put_window_change wc @ r) = Inr (wc, r)"
    using two_words.both.dec_enc [of "(wcWidth wc, wcHeight wc)" r]
    by (simp add: read_window_change_fields put_window_change_def)
next
  fix bs wc r
  assume "read_window_change bs = Inr (wc, r)"
  then show "True \<and> bs = put_window_change wc @ r"
    by (auto simp: read_window_change_fields map_sum_Inr put_window_change_def
        dest!: two_words.both.enc_dec)
qed

end
