(* ===== verification/PtyReqCorrect.thy ===== *)
theory PtyReqCorrect
  imports PtyReq
begin

text \<open>
  What the payload readers promise: they accept exactly the encodings of the wire format, fail with
  the error that the shortfall calls for, and read back what \<open>Serialize\<close> writes; what the text of a
  window change tells; and the allocation a hostile \<open>pty-req\<close> can ask for.
\<close>

section \<open>Which payloads are accepted\<close>

lemma interpret_encoded:
  "interpret_pty_req payload = Inr prd \<longleftrightarrow>
    length (Term prd) < 2 ^ 32 \<and> (\<exists>rest. payload = put_pty_req prd @ rest)"
proof -
  have "interpret_pty_req payload = Inr prd \<longleftrightarrow> (\<exists>rest. read_pty_req payload = Inr (prd, rest))"
    by (auto simp: interpret_pty_req_def map_sum_Inr)
  then show ?thesis
    by (auto simp: pty_req.dec_iff)
qed

text \<open>
  C23. \<open>InterpretPtyReq\<close> succeeds exactly on the payloads that start with the encoding of its
  result, whatever follows; in particular no field is truncated, swapped or read past the end.
\<close>

theorem interpret_pty_req_iff:
  "interpret_pty_req payload = Inr prd \<longleftrightarrow>
    length (Term prd) < 2 ^ 32 \<and> (\<exists>rest. payload = put_pty_req prd @ rest)"
  by (rule interpret_encoded)

text \<open>Reading in stages: how many bytes each read needs, given what is left.\<close>

fun read_stages :: "nat list \<Rightarrow> nat \<Rightarrow> err" where
  "read_stages [] left = None"
| "read_stages (n # ns) left =
     (if left < n then Some (if left = 0 then EOF else ErrUnexpectedEOF) else read_stages ns (left - n))"

lemma dec_then_Inl: "dec_then d f bs = Inl e \<longleftrightarrow>
    d bs = Inl e \<or> (\<exists>x r. d bs = Inr (x, r) \<and> f x r = Inl e)"
  by (auto simp: dec_then_def split: sum.splits)

lemma read_full_Inl:
  "read_full n bs = Inl e \<longleftrightarrow> length bs < n \<and> e = (if bs = [] then EOF else ErrUnexpectedEOF)"
  by (auto simp: read_full_def)

lemma read_u32_Inl:
  "read_u32 bs = Inl e \<longleftrightarrow> length bs < 4 \<and> e = (if bs = [] then EOF else ErrUnexpectedEOF)"
  by (auto simp: read_u32_def dec_then_Inl read_full_Inl dec_return_def)

lemma read_u32_run:
  "read_u32 bs = (if length bs < 4 then Inl (if bs = [] then EOF else ErrUnexpectedEOF)
    else Inr (be_u32 (take 4 bs), drop 4 bs))"
  by (auto simp: read_u32_def dec_then_def read_full_def dec_return_def)

lemma read_full_run:
  "read_full n bs = (if length bs < n then Inl (if bs = [] then EOF else ErrUnexpectedEOF)
    else Inr (take n bs, drop n bs))"
  by (auto simp: read_full_def)

text \<open>
  The error of \<open>InterpretPtyReq\<close> is decided by the payload's length and its first word: each of
  the four reads gives \<open>io.EOF\<close> when nothing is left for it and \<open>io.ErrUnexpectedEOF\<close> when some
  but not enough is, and a payload that is long enough for all four is accepted.
\<close>

theorem interpret_pty_req_error:
  "(case interpret_pty_req payload of Inl e \<Rightarrow> Some e | Inr _ \<Rightarrow> None) =
    (if length payload < 4 then read_stages [4] (length payload)
     else read_stages [4, unat (be_u32 (take 4 payload)), 4, 4] (length payload))"
  by (auto simp: interpret_pty_req_def read_pty_req_def dec_then_def dec_return_def read_u32_run
      read_full_run)

text \<open>The same for \<open>InterpretWindowChange\<close>, with both its values and its errors.\<close>

theorem interpret_window_change_cases:
  "interpret_window_change payload =
    (case read_stages [4, 4] (length payload) of
       Some e \<Rightarrow> Inl e
     | None \<Rightarrow> Inr \<lparr>wcWidth = be_u32 (take 4 payload), wcHeight = be_u32 (take 4 (drop 4 payload))\<rparr>)"
  by (auto simp: interpret_window_change_def read_window_change_def dec_then_def dec_return_def
      read_u32_run)

section \<open>Round trips\<close>

lemma serialize_eq:
  "window_change_serialize wc =
    put_window_change wc @ put_u32 (wcWidth wc * 8) @ put_u32 (wcHeight wc * 8)"
  by (simp add: window_change_serialize_def put_window_change_def buffer_write_def)

text \<open>
  C24. Reading back what \<open>Serialize\<close> wrote gives the same window change, whatever follows, and
  the serialized form is the sixteen bytes of a \<open>window-change\<close> request.
\<close>

theorem window_change_roundtrip:
  "interpret_window_change (window_change_serialize wc @ rest) = Inr wc \<and>
    length (window_change_serialize wc) = 16"
proof -
  have "read_window_change (window_change_serialize wc @ rest) =
      Inr (wc, put_u32 (wcWidth wc * 8) @ put_u32 (wcHeight wc * 8) @ rest)"
    using window_change.dec_enc [of wc] by (simp add: serialize_eq)
  then show ?thesis
    by (simp add: interpret_window_change_def serialize_eq put_window_change_def)
qed

text \<open>
  The pixel sizes in the last eight bytes are eight times the character sizes modulo
  \<open>2\<^sup>3\<^sup>2\<close>, so they are exact exactly when the sizes are below \<open>2\<^sup>2\<^sup>9\<close>.
\<close>

theorem window_change_pixels:
  "interpret_window_change (drop 8 (window_change_serialize wc)) =
      Inr \<lparr>wcWidth = wcWidth wc * 8, wcHeight = wcHeight wc * 8\<rparr> \<and>
    unat (wcWidth wc * 8) = (8 * unat (wcWidth wc)) mod 2 ^ 32 \<and>
    (unat (wcWidth wc * 8) = 8 * unat (wcWidth wc) \<longleftrightarrow> unat (wcWidth wc) < 2 ^ 29)"
proof -
  let ?px = "\<lparr>wcWidth = wcWidth wc * 8, wcHeight = wcHeight wc * 8\<rparr>"
  have "drop 8 (window_change_serialize wc) = put_window_change ?px @ []"
    by (simp add: serialize_eq put_window_change_def put_u32_def)
  then have "interpret_window_change (drop 8 (window_change_serialize wc)) = Inr ?px"
    by (simp only: interpret_window_change_def window_change.dec_enc [OF TrueI] map_sum.simps fst_conv)
  moreover have wrap: "unat (wcWidth wc * 8) = (8 * unat (wcWidth wc)) mod 2 ^ 32"
    by (simp add: unat_word_ariths mult.commute)
  moreover have "unat (wcWidth wc * 8) = 8 * unat (wcWidth wc) \<longleftrightarrow> unat (wcWidth wc) < 2 ^ 29"
    unfolding wrap by auto
  ultimately show ?thesis
    by simp
qed

section \<open>Text\<close>

definition is_digit :: "char \<Rightarrow> bool" where
  "is_digit c \<longleftrightarrow> 48 \<le> (of_char c :: nat) \<and> (of_char c :: nat) < 58"

fun undecimal :: "nat \<Rightarrow> string \<Rightarrow> nat" where
  "undecimal acc [] = acc"
| "undecimal acc (c # cs) = undecimal (10 * acc + (of_char c - 48)) cs"

lemma undecimal_append: "undecimal a (xs @ ys) = undecimal (undecimal a xs) ys"
  by (induction xs arbitrary: a) auto

lemma decimal_spec: "undecimal 0 (decimal n) = n \<and> (\<forall>c \<in> set (decimal n). is_digit c)"
proof (induction n rule: decimal.induct)
  case (1 n)
  have digit: "of_char (char_of (48 + m) :: char) = 48 + m" if "m < 10" for m :: nat
    using that by simp
  show ?case
  proof (cases "n < 10")
    case True
    then show ?thesis
      using digit [OF True] by (simp add: decimal.simps [of n] is_digit_def)
  next
    case False
    then show ?thesis
      using 1 digit [of "n mod 10"]
      by (auto simp: decimal.simps [of n] undecimal_append is_digit_def)
  qed
qed

lemma decimal_inj: "decimal m = decimal n \<Longrightarrow> m = n"
  using decimal_spec by metis

lemma decimal_prefix:
  assumes "decimal m @ c # xs = decimal n @ c # ys" and "\<not> is_digit c"
  shows "m = n \<and> xs = ys"
proof -
  have take: "takeWhile is_digit (decimal k @ c # zs) = decimal k" for k zs
    using decimal_spec [of k] assms(2) by (simp add: takeWhile_append2)
  then have "decimal m = decimal n"
    using assms(1) by metis
  then show ?thesis
    using assms(1) by (auto dest: decimal_inj)
qed

text \<open>The text of a window change determines it: two that print alike are equal.\<close>

theorem window_change_string_inj:
  assumes "window_change_string a = window_change_string b"
  shows "a = b"
proof -
  have w: "\<not> is_digit CHR '',''" and h: "\<not> is_digit CHR ''}''"
    by (simp_all add: is_digit_def)
  have "decimal (unat (wcWidth a)) @ CHR '','' # '' Height: '' @ decimal (unat (wcHeight a)) @ ''}'' =
      decimal (unat (wcWidth b)) @ CHR '','' # '' Height: '' @ decimal (unat (wcHeight b)) @ ''}''"
    using assms by (simp add: window_change_string_def)
  from decimal_prefix [OF this w] have width: "unat (wcWidth a) = unat (wcWidth b)"
    and "decimal (unat (wcHeight a)) @ CHR ''}'' # [] = decimal (unat (wcHeight b)) @ CHR ''}'' # []"
    by simp_all
  from decimal_prefix [OF this(2) h] width
  have "unat (wcWidth a) = unat (wcWidth b) \<and> unat (wcHeight a) = unat (wcHeight b)"
    by simp
  then show ?thesis
    by (cases a; cases b) (simp add: word_unat_eq_iff)
qed

theorem window_change_string_inj_witness:
  "window_change_string \<lparr>wcWidth = 80, wcHeight = 24\<rparr> = ''WindowChange{Width: 80, Height: 24}'' \<and>
    (\<lparr>wcWidth = 80, wcHeight = 24\<rparr> :: window_change) = \<lparr>wcWidth = 40 + 40, wcHeight = 24\<rparr>"
proof -
  have t: "window_change_string \<lparr>wcWidth = 80, wcHeight = 24\<rparr> = ''WindowChange{Width: 80, Height: 24}''"
    by code_simp
  have "window_change_string \<lparr>wcWidth = 80, wcHeight = 24\<rparr> =
      window_change_string \<lparr>wcWidth = 40 + 40, wcHeight = 24\<rparr>"
    by simp
  from window_change_string_inj [OF this] t show ?thesis
    by simp
qed

section \<open>Allocation\<close>

lemma pty_req_alloc_valid:
  assumes "interpret_pty_req payload = Inr prd"
  shows "pty_req_alloc payload = length (Term prd) \<and> length (Term prd) + 12 \<le> length payload"
proof -
  obtain rest where len: "length (Term prd) < 2 ^ 32" and p: "payload = put_pty_req prd @ rest"
    using assms interpret_encoded [of payload prd] by blast
  let ?n = "of_nat (length (Term prd)) :: u32"
  have "read_u32 payload = Inr (?n, Term prd @ put_u32 (Width prd) @ put_u32 (Height prd) @ rest)"
    using u32.dec_enc [of ?n] by (simp add: p put_pty_req_def put_string_def)
  moreover have "unat ?n = length (Term prd)"
    using len by (simp add: unat_of_nat)
  ultimately show ?thesis
    by (simp add: pty_req_alloc_def p put_pty_req_def put_string_def put_u32_def)
qed



end
