(* ===== verification/Options.thy ===== *)
theory Options
  imports Prelude
begin

text \<open>
  The command line of the proxy (\<open>cmd/nosshtradamus/main.go\<close>): the repeatable \<open>-o\<close> options, the policy
  for the target's host key, the identity files and the decision to serve. Strings are lists of
  8-bit characters, as Go's are lists of bytes. The environment (\<open>HOME\<close>, the files that exist, the
  known-hosts parser of the SSH library) is a parameter.
\<close>

section \<open>Lower case\<close>

text \<open>
  \<open>strings.ToLower\<close> as far as a comparison with an ASCII word can tell: it maps the ASCII letters, and
  of all other code points only \<open>U+0130\<close> (\<open>C4 B0\<close>) and \<open>U+212A\<close> (\<open>E2 84 AA\<close>) to ASCII characters. A
  string with any other byte above \<open>7F\<close> keeps one, so it equals no ASCII word before or after.
\<close>

definition code_at :: "string \<Rightarrow> nat list \<Rightarrow> bool" where
  "code_at s codes \<longleftrightarrow> map (\<lambda>c. of_char c) (take (length codes) s) = codes"

definition lower_ascii :: "char \<Rightarrow> char" where
  "lower_ascii c =
     (let k = of_char c :: nat in if 65 \<le> k \<and> k \<le> 90 then char_of (k + 32) else c)"

fun to_lower :: "string \<Rightarrow> string" where
  "to_lower [] = []"
| "to_lower (c # cs) =
     (if code_at (c # cs) [0xC4, 0xB0] then CHR ''i'' # to_lower (drop 1 cs)
      else if code_at (c # cs) [0xE2, 0x84, 0xAA] then CHR ''k'' # to_lower (drop 2 cs)
      else lower_ascii c # to_lower cs)"

definition truthy :: "string \<Rightarrow> bool" where
  "truthy s \<longleftrightarrow> (let s = to_lower s in s = ''yes'' \<or> s = ''1'' \<or> s = ''true'')"

section \<open>Repeatable flags and client options\<close>

text \<open>\<open>arrayFlags.Set\<close> never fails.\<close>

definition array_flags_set :: "string list \<Rightarrow> string \<Rightarrow> string list \<times> err" where
  "array_flags_set af v = (af @ [v], None)"

definition array_flags_string :: "string list \<Rightarrow> string" where
  "array_flags_string af = ''''"

text \<open>\<open>strings.SplitN(option, "=", 2)\<close>: one field without the separator, two with it.\<close>

definition split_option :: "string \<Rightarrow> string list" where
  "split_option s =
     (if CHR ''='' \<in> set s
      then [takeWhile (\<lambda>c. c \<noteq> CHR ''='') s, tl (dropWhile (\<lambda>c. c \<noteq> CHR ''='') s)]
      else [s])"

definition add_option :: "(string \<rightharpoonup> string) \<Rightarrow> string \<Rightarrow> (string \<rightharpoonup> string)" where
  "add_option opts option =
     (case split_option option of [k, v] \<Rightarrow> opts(k \<mapsto> v) | _ \<Rightarrow> opts)"

definition client_options :: "string list \<Rightarrow> (string \<rightharpoonup> string)" where
  "client_options args = foldl add_option Map.empty args"

section \<open>Host keys\<close>

definition known_hosts_file :: "string option \<Rightarrow> (string \<rightharpoonup> string) \<Rightarrow> string" where
  "known_hosts_file home opts =
     (let default = (case home of Some h \<Rightarrow> h @ ''/.ssh/known_hosts'' | None \<Rightarrow> '''')
      in case opts ''UserKnownHostsFile'' of Some specified \<Rightarrow> specified | None \<Rightarrow> default)"

datatype host_key_checker = InsecureIgnoreHostKey | KnownHosts string

text \<open>A panic is an error of the result; \<open>known_hosts_new\<close> is the error of \<open>knownhosts.New\<close>.\<close>

datatype startup_panic = NoKnownHosts | KnownHostsError go_error

definition strict_host_checking :: "(string \<rightharpoonup> string) \<Rightarrow> bool" where
  "strict_host_checking opts =
     (case opts ''StrictHostKeyChecking'' of Some v \<Rightarrow> truthy v | None \<Rightarrow> True)"

definition host_key_policy ::
  "string option \<Rightarrow> (string \<Rightarrow> err) \<Rightarrow> (string \<rightharpoonup> string) \<Rightarrow> startup_panic + host_key_checker" where
  "host_key_policy home known_hosts_new opts =
     (let file = known_hosts_file home opts in
      if strict_host_checking opts \<and> file = '''' then Inl NoKnownHosts
      else if strict_host_checking opts then
        (case known_hosts_new file of
           Some e \<Rightarrow> Inl (KnownHostsError e)
         | None \<Rightarrow> Inr (KnownHosts file))
      else Inr InsecureIgnoreHostKey)"

section \<open>Identity files\<close>

text \<open>
  Both branches add the files that exist (\<open>!os.IsNotExist(err)\<close>) and are not in the set yet; the set
  and the list grow together.
\<close>

fun add_identities ::
  "(string \<Rightarrow> bool) \<Rightarrow> string list \<Rightarrow> string set \<times> string list \<Rightarrow> string set \<times> string list" where
  "add_identities exists [] acc = acc"
| "add_identities exists (fn # fns) (known, ids) =
     add_identities exists fns
       (if exists fn \<and> fn \<notin> known then (insert fn known, ids @ [fn]) else (known, ids))"

definition ssh_identities :: "string option \<Rightarrow> (string \<Rightarrow> bool) \<Rightarrow> string list \<Rightarrow> string list" where
  "ssh_identities home exists args =
     (let candidates =
        (if args = [] then
           (case home of
              Some h \<Rightarrow> map (\<lambda>i. h @ i) [''/.ssh/id_rsa'', ''/.ssh/id_ed25519'']
            | None \<Rightarrow> [])
         else args);
          ids = snd (add_identities exists candidates ({}, []))
      in if length ids = 1 \<and> ids ! 0 = ''/dev/null'' then [] else ids)"

section \<open>The decision to serve\<close>

datatype startup = Usage | Panic startup_panic | Serve host_key_checker "string list"

text \<open>The host key is decided before the port and the target are looked at.\<close>

definition start_up ::
  "string option \<Rightarrow> (string \<Rightarrow> err) \<Rightarrow> (string \<Rightarrow> bool) \<Rightarrow> int \<Rightarrow> string \<Rightarrow> string list \<Rightarrow> string list
    \<Rightarrow> startup" where
  "start_up home known_hosts_new exists port target optionArgs identityArgs =
     (case host_key_policy home known_hosts_new (client_options optionArgs) of
        Inl p \<Rightarrow> Panic p
      | Inr checker \<Rightarrow>
          if port = 0 \<or> target = '''' then Usage
          else Serve checker (ssh_identities home exists identityArgs))"

section \<open>What the options mean\<close>

text \<open>The value an argument gives to the option \<open>k\<close>, if it does.\<close>

definition option_value :: "string \<Rightarrow> string \<Rightarrow> string option" where
  "option_value k a = (case split_option a of [j, v] \<Rightarrow> if j = k then Some v else None | _ \<Rightarrow> None)"

lemma split_option_cases:
  obtains (none) "CHR ''='' \<notin> set a" "split_option a = [a]"
  | (pair) k v where "CHR ''='' \<notin> set k" "a = k @ CHR ''='' # v" "split_option a = [k, v]"
proof (cases "CHR ''='' \<in> set a")
  case True
  then obtain k v where a: "a = k @ CHR ''='' # v" "CHR ''='' \<notin> set k"
    by (meson split_list_first)
  have "takeWhile (\<lambda>c. c \<noteq> CHR ''='') a = k \<and> dropWhile (\<lambda>c. c \<noteq> CHR ''='') a = CHR ''='' # v"
    using a by (induction k arbitrary: a) auto
  then show ?thesis
    using that(2) a True by (simp add: split_option_def)
qed (auto intro: that(1) simp: split_option_def)

lemma option_value_iff: "option_value k a = Some v \<longleftrightarrow> CHR ''='' \<notin> set k \<and> a = k @ CHR ''='' # v"
proof (cases a rule: split_option_cases)
  case none
  then show ?thesis by (auto simp: option_value_def)
next
  case (pair j w)
  then show ?thesis by (auto simp: option_value_def append_eq_append_conv2
        append_eq_Cons_conv Cons_eq_append_conv)
qed

lemma add_option_value:
  "add_option opts a k = (case option_value k a of Some v \<Rightarrow> Some v | None \<Rightarrow> opts k)"
  by (cases a rule: split_option_cases) (auto simp: add_option_def option_value_def)

lemma client_options_snoc: "client_options (args @ [a]) = add_option (client_options args) a"
  by (simp add: client_options_def)

text \<open>Of several arguments for an option the last one counts.\<close>

lemma client_options_value:
  "client_options args k =
     (case List.find (\<lambda>a. option_value k a \<noteq> None) (rev args) of
        Some a \<Rightarrow> option_value k a | None \<Rightarrow> None)"
proof (induction args rule: rev_induct)
  case (snoc a args)
  then show ?case
    by (cases "option_value k a") (simp_all add: client_options_snoc add_option_value)
qed (simp add: client_options_def)

section \<open>Host keys are checked unless the last word says no\<close>

text \<open>
  Host keys go unchecked exactly when the last \<open>-o StrictHostKeyChecking=v\<close> has a \<open>v\<close> that is
  not \<open>yes\<close>, \<open>true\<close> or \<open>1\<close> in any case; without such an option, or with such a \<open>v\<close>, start-up either
  panics or checks them against the known-hosts file.
\<close>

theorem host_keys_unchecked_iff:
  "host_key_policy home kn (client_options args) = Inr InsecureIgnoreHostKey \<longleftrightarrow>
     (\<exists>a v. List.find (\<lambda>a. option_value ''StrictHostKeyChecking'' a \<noteq> None) (rev args) = Some a \<and>
        a = ''StrictHostKeyChecking='' @ v \<and> \<not> truthy v)"
proof -
  have key: "option_value ''StrictHostKeyChecking'' a = Some v \<longleftrightarrow> a = ''StrictHostKeyChecking='' @ v"
    for a v
    by (simp add: option_value_iff)
  have "host_key_policy home kn (client_options args) = Inr InsecureIgnoreHostKey \<longleftrightarrow>
      (\<exists>v. client_options args ''StrictHostKeyChecking'' = Some v \<and> \<not> truthy v)"
    by (auto simp: host_key_policy_def strict_host_checking_def Let_def split: option.splits)
  then show ?thesis
    using key by (auto simp: client_options_value split: option.splits)
qed

section \<open>Identities\<close>

text \<open>The first occurrence of every element.\<close>

fun firsts :: "'a list \<Rightarrow> 'a list" where
  "firsts [] = []"
| "firsts (x # xs) = x # filter (\<lambda>y. y \<noteq> x) (firsts xs)"

lemma set_firsts [simp]: "set (firsts xs) = set xs"
  by (induction xs) auto

lemma distinct_firsts [simp]: "distinct (firsts xs)"
  by (induction xs) auto

lemma firsts_filter: "firsts (filter P xs) = filter P (firsts xs)"
  by (induction xs) (auto simp: filter_filter conj_commute intro: filter_cong)

lemma add_identities_list:
  "snd (add_identities exists fns (known, ids)) =
     ids @ firsts (filter (\<lambda>fn. exists fn \<and> fn \<notin> known) fns)"
proof (induction fns arbitrary: known ids)
  case (Cons fn fns)
  have "filter (\<lambda>y. y \<noteq> fn) (firsts (filter (\<lambda>x. exists x \<and> x \<notin> known) fns)) =
      firsts (filter (\<lambda>x. exists x \<and> x \<notin> insert fn known) fns)"
    by (simp add: firsts_filter filter_filter) (rule filter_cong; auto)
  then show ?case
    using Cons.IH by (simp add: insert_commute)
qed simp

text \<open>
  With identities on the command line, the identity files used are the existing ones in the order
  given, each once (the first time it is named); a single remaining \<open>/dev/null\<close> stands for none.
\<close>

theorem ssh_identities_given:
  assumes "args \<noteq> []"
  shows "ssh_identities home exists args =
    (if firsts (filter exists args) = [''/dev/null''] then [] else firsts (filter exists args))"
  using assms by (auto simp: ssh_identities_def Let_def add_identities_list length_Suc_conv)

theorem ssh_identities_given_witness:
  "ssh_identities None (\<lambda>fn. fn \<noteq> ''c'') [''a'', ''b'', ''c'', ''a''] = [''a'', ''b'']"
  using ssh_identities_given [of "[''a'', ''b'', ''c'', ''a'']" None "\<lambda>fn. fn \<noteq> ''c''"] by simp

end
