(* ===== verification/SessionFilter.thy ===== *)
theory SessionFilter
  imports Options PtyReq Interposer
begin

text \<open>
  The channel filter of \<open>main\<close> (\<open>cmd/nosshtradamus/main.go\<close>): for a session channel a switch in
  front of the SSH channel, the delayer and the interposer put behind it by the first valid
  \<open>pty-req\<close>, and the request filter that watches, consumes and forwards channel requests.
\<close>

section \<open>The streams\<close>

text \<open>What a channel's bytes go through: the SSH channel, the delayer, the interposer.\<close>

datatype stream = SshChannel | RingDelayed stream int nat | Interposed stream interposer_options

record filter_config =
  fc_noPrediction :: bool
  fc_fakeDelay :: int
  fc_printTiming :: bool

text \<open>
  The variables the closures of one session channel share: \<open>activated\<close>, whether \<open>interposer\<close> is
  non-nil, and what the switch has been switched to.
\<close>

record session =
  ss_activated :: bool
  ss_interposer :: bool
  ss_switched :: "stream option"

definition filter_set :: "filter_config \<Rightarrow> bool" where
  "filter_set cfg \<longleftrightarrow> \<not> fc_noPrediction cfg \<or> fc_fakeDelay cfg > 0"

text \<open>The filter: a wrapped stream and a request filter for a session channel, otherwise neither.\<close>

definition channel_filter :: "filter_config \<Rightarrow> string \<Rightarrow> session option" where
  "channel_filter cfg chanType =
     (if filter_set cfg \<and> chanType = ''session''
      then Some \<lparr>ss_activated = False, ss_interposer = False, ss_switched = None\<rparr> else None)"

text \<open>\<open>IoSwitch.Enable\<close> on the switch of the session.\<close>

definition switch_enable :: "stream \<Rightarrow> session \<Rightarrow> session" where
  "switch_enable w s = (if ss_switched s = None then s\<lparr>ss_switched := Some w\<rparr> else s)"

definition activate_interposer :: "filter_config \<Rightarrow> session \<Rightarrow> session" where
  "activate_interposer cfg s =
     (if ss_activated s then s
      else
        (let s1 = s\<lparr>ss_activated := True\<rparr>;
             w1 = (if fc_fakeDelay cfg > 0 then RingDelayed SshChannel (fc_fakeDelay cfg) 512
                   else SshChannel);
             (s2, w2) = (if \<not> fc_noPrediction cfg
                         then (s1\<lparr>ss_interposer := True\<rparr>,
                               Interposed w1 get_default_interposer_options)
                         else (s1, w1))
         in switch_enable w2 s2))"

section \<open>Epochs\<close>

text \<open>What the callback \<open>openEpoch\<close> does, in order; it runs in a goroutine of its own.\<close>

datatype epoch_action =
    PrintPing "64 word" | SleepFor int | SendPing string bool | PrintPong "64 word"
  | CloseThatEpoch "64 word" int

definition open_epoch :: "filter_config \<Rightarrow> 64 word \<Rightarrow> int \<Rightarrow> epoch_action list" where
  "open_epoch cfg epoch openedAt =
     (if fc_printTiming cfg then [PrintPing epoch] else []) @
     (if fc_fakeDelay cfg > 0 then [SleepFor (fc_fakeDelay cfg)] else []) @
     [SendPing (''nosshtradamus/ping/'' @ decimal (unat epoch)) True] @
     (if fc_printTiming cfg then [PrintPong epoch] else []) @
     [SleepFor (1000000000 div 60), CloseThatEpoch epoch openedAt]"

section \<open>The request filter\<close>

datatype filter_action =
    Activated | Resized nat nat | PreferenceChanged display_preference | OverwriteChanged bool
  | Replied bool | Forwarded request

definition string_of_bytes :: "byte list \<Rightarrow> string" where
  "string_of_bytes bs = map (\<lambda>b. char_of (unat b)) bs"

definition reply_if_wanted :: "request \<Rightarrow> bool \<Rightarrow> filter_action list" where
  "reply_if_wanted r ok = (if rq_want_reply r then [Replied ok] else [])"

definition on_pty_req :: "filter_config \<Rightarrow> request \<Rightarrow> session \<Rightarrow> session \<times> filter_action list" where
  "on_pty_req cfg r s =
     (case interpret_pty_req (rq_payload r) of
        Inr d \<Rightarrow>
          (let t = activate_interposer cfg s
           in (t, (if ss_activated s then [] else [Activated]) @
                  (if ss_interposer t then [Resized (unat (Width d)) (unat (Height d))] else []) @
                  [Forwarded r]))
      | Inl _ \<Rightarrow> (s, [Forwarded r]))"

definition on_window_change :: "request \<Rightarrow> session \<Rightarrow> session \<times> filter_action list" where
  "on_window_change r s =
     (case interpret_window_change (rq_payload r) of
        Inr w \<Rightarrow>
          (s, (if ss_interposer s then [Resized (unat (wcWidth w)) (unat (wcHeight w))] else []) @
              [Forwarded r])
      | Inl _ \<Rightarrow> (s, [Forwarded r]))"

definition preference_of :: "string \<Rightarrow> display_preference option" where
  "preference_of p =
     (if p = ''always'' then Some PredictAlways
      else if p = ''never'' then Some PredictNever
      else if p = ''adaptive'' then Some PredictAdaptive
      else if p = ''experimental'' then Some PredictExperimental
      else None)"

definition on_display_preference :: "request \<Rightarrow> session \<Rightarrow> session \<times> filter_action list" where
  "on_display_preference r s =
     (if \<not> ss_interposer s then (s, [])
      else
        (case preference_of (to_lower (string_of_bytes (rq_payload r))) of
           Some p \<Rightarrow> (s, [PreferenceChanged p] @ reply_if_wanted r True)
         | None \<Rightarrow> (s, [])))"

definition on_predict_overwrite :: "request \<Rightarrow> session \<Rightarrow> session \<times> filter_action list" where
  "on_predict_overwrite r s =
     (if \<not> ss_interposer s then (s, [])
      else
        (let setting = to_lower (string_of_bytes (rq_payload r)) in
         if setting = ''true'' \<or> setting = ''1''
         then (s, [OverwriteChanged True] @ reply_if_wanted r True)
         else if setting = ''false'' \<or> setting = ''0''
         then (s, [OverwriteChanged False] @ reply_if_wanted r True)
         else (s, reply_if_wanted r False)))"

definition filter_request :: "filter_config \<Rightarrow> request \<Rightarrow> session \<Rightarrow> session \<times> filter_action list" where
  "filter_request cfg r s =
     (if rq_type r = ''pty-req'' then on_pty_req cfg r s
      else if rq_type r = ''window-change'' then on_window_change r s
      else if rq_type r = ''nosshtradamus/displayPreference'' then on_display_preference r s
      else if rq_type r = ''nosshtradamus/predictOverwrite'' then on_predict_overwrite r s
      else (s, [Forwarded r]))"

text \<open>The loop over the requests of the client.\<close>

fun filter_requests ::
  "filter_config \<Rightarrow> request list \<Rightarrow> session \<Rightarrow> session \<times> filter_action list" where
  "filter_requests cfg [] s = (s, [])"
| "filter_requests cfg (r # rs) s =
     (let (t, as) = filter_request cfg r s; (u, bs) = filter_requests cfg rs t in (u, as @ bs))"

section \<open>Forwarding\<close>

lemmas filter_request_defs = filter_request_def on_pty_req_def on_window_change_def
  on_display_preference_def on_predict_overwrite_def reply_if_wanted_def Let_def

definition own_request :: "request \<Rightarrow> bool" where
  "own_request r \<longleftrightarrow> rq_type r = ''nosshtradamus/displayPreference'' \<or>
     rq_type r = ''nosshtradamus/predictOverwrite''"

fun forwarded :: "filter_action list \<Rightarrow> request list" where
  "forwarded [] = []"
| "forwarded (Forwarded r # as) = r # forwarded as"
| "forwarded (_ # as) = forwarded as"

fun replied :: "filter_action list \<Rightarrow> bool list" where
  "replied [] = []"
| "replied (Replied b # as) = b # replied as"
| "replied (_ # as) = replied as"

lemma forwarded_append [simp]: "forwarded (as @ bs) = forwarded as @ forwarded bs"
  by (induction as rule: forwarded.induct) simp_all

lemma replied_append [simp]: "replied (as @ bs) = replied as @ replied bs"
  by (induction as rule: replied.induct) simp_all

lemma forwarded_request:
  "forwarded (snd (filter_request cfg r s)) = (if own_request r then [] else [r])"
  by (auto simp: filter_request_defs own_request_def split: sum.splits option.splits)

text \<open>
  The filter forwards to the target exactly the requests that are not its own, unchanged and in
  order, and consumes its own two, whatever their payloads and whatever state the session is in.
\<close>

theorem filter_forwards_in_order:
  "forwarded (snd (filter_requests cfg rs s)) = filter (\<lambda>r. \<not> own_request r) rs"
  by (induction rs arbitrary: s) (simp_all add: Let_def case_prod_beta forwarded_request)

section \<open>Activation\<close>

definition starts_terminal :: "request \<Rightarrow> bool" where
  "starts_terminal r \<longleftrightarrow> rq_type r = ''pty-req'' \<and> (\<exists>d. interpret_pty_req (rq_payload r) = Inr d)"

text \<open>The stream behind the switch once it is on.\<close>

definition session_stream :: "filter_config \<Rightarrow> stream" where
  "session_stream cfg =
     (let w = (if fc_fakeDelay cfg > 0 then RingDelayed SshChannel (fc_fakeDelay cfg) 512
               else SshChannel)
      in if fc_noPrediction cfg then w else Interposed w get_default_interposer_options)"

text \<open>The state of the session is that of its activation.\<close>

definition session_ok :: "filter_config \<Rightarrow> session \<Rightarrow> bool" where
  "session_ok cfg s \<longleftrightarrow>
     (ss_interposer s \<longleftrightarrow> ss_activated s \<and> \<not> fc_noPrediction cfg) \<and>
     ss_switched s = (if ss_activated s then Some (session_stream cfg) else None)"

lemma session_ok_start: "channel_filter cfg ty = Some s \<Longrightarrow> session_ok cfg s \<and> \<not> ss_activated s"
  by (auto simp: channel_filter_def session_ok_def split: if_splits)

lemma activate_ok:
  "session_ok cfg s \<Longrightarrow>
     session_ok cfg (activate_interposer cfg s) \<and> ss_activated (activate_interposer cfg s)"
  by (auto simp: session_ok_def activate_interposer_def switch_enable_def session_stream_def Let_def)

lemma filter_request_ok:
  assumes "session_ok cfg s"
  shows "session_ok cfg (fst (filter_request cfg r s)) \<and>
    (ss_activated (fst (filter_request cfg r s)) \<longleftrightarrow> ss_activated s \<or> starts_terminal r)"
proof (cases "rq_type r = ''pty-req''")
  case True
  then show ?thesis
    using assms activate_ok [OF assms]
    by (auto simp: filter_request_def on_pty_req_def starts_terminal_def Let_def
        activate_interposer_def split: sum.splits)
next
  case False
  then have "fst (filter_request cfg r s) = s"
    by (auto simp: filter_request_defs split: sum.splits option.splits)
  then show ?thesis
    using assms False by (simp add: starts_terminal_def)
qed

lemma filter_requests_ok:
  "session_ok cfg s \<Longrightarrow> session_ok cfg (fst (filter_requests cfg rs s)) \<and>
     (ss_activated (fst (filter_requests cfg rs s)) \<longleftrightarrow>
        ss_activated s \<or> (\<exists>r \<in> set rs. starts_terminal r))"
proof (induction rs arbitrary: s)
  case (Cons r rs)
  show ?case
    using filter_request_ok [OF Cons.prems, of r] Cons.IH [of "fst (filter_request cfg r s)"]
    by (auto simp: Let_def case_prod_beta)
qed simp

text \<open>
  C20. Prediction starts with the first valid \<open>pty-req\<close> and never changes afterwards: after any
  requests on a session channel the switch leads to the configured stream (the delayer when there is
  a delay, under the interposer unless prediction is off) if a valid \<open>pty-req\<close> was among them and
  to the plain channel otherwise, and an interposer exists in exactly the first case.
\<close>

theorem session_after_requests:
  assumes "channel_filter cfg ty = Some s" and "filter_requests cfg rs s = (t, as)"
  shows "ss_switched t =
      (if \<exists>r \<in> set rs. starts_terminal r then Some (session_stream cfg) else None) \<and>
    (ss_interposer t \<longleftrightarrow> (\<exists>r \<in> set rs. starts_terminal r) \<and> \<not> fc_noPrediction cfg)"
  using session_ok_start [OF assms(1)] filter_requests_ok [of cfg s rs] assms(2)
  by (auto simp: session_ok_def)

definition sample_pty_req :: request where
  "sample_pty_req = \<lparr>rq_type = ''pty-req'', rq_want_reply = True,
     rq_payload = [0, 0, 0, 2, 118, 116, 0, 0, 0, 80, 0, 0, 0, 24]\<rparr>"

theorem session_after_requests_witness:
  "\<exists>s t as. channel_filter \<lparr>fc_noPrediction = True, fc_fakeDelay = 9, fc_printTiming = False\<rparr>
      ''session'' = Some s \<and>
    filter_requests \<lparr>fc_noPrediction = True, fc_fakeDelay = 9, fc_printTiming = False\<rparr>
      [sample_pty_req] s = (t, as) \<and>
    ss_switched t = Some (RingDelayed SshChannel 9 512)"
proof -
  let ?cfg = "\<lparr>fc_noPrediction = True, fc_fakeDelay = 9, fc_printTiming = False\<rparr>"
  obtain s where s: "channel_filter ?cfg ''session'' = Some s"
    by (simp add: channel_filter_def filter_set_def)
  obtain t as where t: "filter_requests ?cfg [sample_pty_req] s = (t, as)"
    by (rule prod.exhaust)
  have "\<exists>d. interpret_pty_req [0, 0, 0, 2, 118, 116, 0, 0, 0, 80, 0, 0, 0, 24] = Inr d"
    by (simp add: interpret_pty_req_def read_pty_req_def dec_then_def dec_return_def read_u32_def
        read_full_def be_u32_def)
  then have "starts_terminal sample_pty_req"
    by (simp add: starts_terminal_def sample_pty_req_def)
  then have "ss_switched t = Some (session_stream ?cfg)"
    using session_after_requests [OF s t] by simp
  then show ?thesis
    using s t by (auto simp: session_stream_def)
qed

section \<open>Replies\<close>

text \<open>
  The filter answers its own requests itself, but not all of them: a request of its own that wants
  a reply gets exactly one, except that it gets none before there is an interposer, and none for
  \<open>displayPreference\<close> with an unknown preference (\<open>predictOverwrite\<close> with an unknown setting is
  answered with a failure).
\<close>

theorem own_request_replies:
  assumes "own_request r" and "rq_want_reply r"
  shows "replied (snd (filter_request cfg r s)) =
    (if \<not> ss_interposer s then []
     else if rq_type r = ''nosshtradamus/displayPreference'' then
       (if preference_of (to_lower (string_of_bytes (rq_payload r))) = None then [] else [True])
     else [to_lower (string_of_bytes (rq_payload r)) \<in> {''true'', ''1'', ''false'', ''0''}])"
proof -
  define v where "v = to_lower (string_of_bytes (rq_payload r))"
  have reply: "replied (as @ reply_if_wanted r b) = replied as @ [b]" for as b
    using assms(2) by (simp add: reply_if_wanted_def)
  show ?thesis
  proof (cases "rq_type r = ''nosshtradamus/displayPreference''")
    case True
    then have "filter_request cfg r s = on_display_preference r s"
      by (simp add: filter_request_def)
    then show ?thesis
      using True reply [of "[PreferenceChanged p]" for p]
      by (cases "preference_of v") (simp_all add: on_display_preference_def v_def)
  next
    case False
    then have "filter_request cfg r s = on_predict_overwrite r s"
      using assms(1) by (simp add: own_request_def filter_request_def)
    then show ?thesis
      using False reply [of "[]"] reply [of "[OverwriteChanged b]" for b]
      by (simp add: on_predict_overwrite_def v_def [symmetric] Let_def)
  qed
qed

theorem own_request_replies_witness:
  "replied (snd (filter_request \<lparr>fc_noPrediction = False, fc_fakeDelay = 0, fc_printTiming = False\<rparr>
     \<lparr>rq_type = ''nosshtradamus/displayPreference'', rq_want_reply = True, rq_payload = [111, 102, 102]\<rparr>
     \<lparr>ss_activated = True, ss_interposer = True, ss_switched = None\<rparr>)) = []"
  by (subst own_request_replies)
     (simp_all add: own_request_def string_of_bytes_def preference_of_def code_at_def lower_ascii_def)

end
