(* ===== verification/Signers.thy ===== *)
theory Signers
  imports Options
begin

text \<open>
  How the proxy authenticates to the target (\<open>cmd/nosshtradamus/main.go\<close>): the signers taken from the
  agent and from the identity files, the signer that asks for the password of its file when it is
  first used, and the questions passed on to the connecting client. Key parsing and decryption are
  the SSH library's, the agent and the files the environment's: parameters.
\<close>

section \<open>The environment\<close>

datatype private_key =
    PlainKey "byte list"        \<comment> \<open>\<open>ssh.ParsePrivateKey\<close> succeeds: the marshalled public key\<close>
  | EncryptedKey                \<comment> \<open>it fails with \<open>cannot decode encrypted private keys\<close>\<close>
  | NotAKey                     \<comment> \<open>it fails otherwise\<close>

record key_env =
  ke_agent :: "byte list list option"     \<comment> \<open>the agent's public keys, if it can be reached\<close>
  ke_read :: "string \<Rightarrow> byte list option"  \<comment> \<open>\<open>os.ReadFile\<close>\<close>
  ke_parse :: "byte list \<Rightarrow> private_key"   \<comment> \<open>\<open>ssh.ParsePrivateKey\<close>\<close>
  ke_public :: "byte list \<Rightarrow> byte list option" \<comment> \<open>\<open>ssh.ParseAuthorizedKey\<close>\<close>

datatype signer =
    AgentSigner "byte list"
  | FileSigner "byte list" string
  | DeferredSigner "byte list" string "byte list"  \<comment> \<open>its \<open>internPub\<close>, its file and \<open>keyBytes\<close>\<close>

fun signer_key :: "signer \<Rightarrow> byte list" where
  "signer_key (AgentSigner k) = k"
| "signer_key (FileSigner k _) = k"
| "signer_key (DeferredSigner k _ _) = k"

section \<open>Collecting the signers\<close>

text \<open>\<open>keySet\<close> and \<open>signers\<close>: a signer is added unless its public key is known already.\<close>

definition add_signer :: "signer \<Rightarrow> byte list set \<times> signer list \<Rightarrow> byte list set \<times> signer list" where
  "add_signer g acc =
     (case acc of (known, signers) \<Rightarrow>
        if signer_key g \<notin> known then (insert (signer_key g) known, signers @ [g]) else acc)"

definition agent_signers ::
  "bool \<Rightarrow> key_env \<Rightarrow> byte list set \<times> signer list \<Rightarrow> byte list set \<times> signer list" where
  "agent_signers disableAgent env acc =
     (if disableAgent then acc
      else
        (case ke_agent env of
           Some keys \<Rightarrow> foldl (\<lambda>acc k. add_signer (AgentSigner k) acc) acc keys
         | None \<Rightarrow> acc))"

text \<open>The body of the loop over the identity files.\<close>

definition identity_signer ::
  "key_env \<Rightarrow> string \<Rightarrow> byte list set \<times> signer list \<Rightarrow> byte list set \<times> signer list" where
  "identity_signer env fn acc =
     (case ke_read env fn of
        None \<Rightarrow> acc
      | Some keyBytes \<Rightarrow>
          (case ke_parse env keyBytes of
             PlainKey k \<Rightarrow> add_signer (FileSigner k fn) acc
           | EncryptedKey \<Rightarrow>
               (case ke_read env (fn @ ''.pub'') of
                  None \<Rightarrow> acc
                | Some pubKeyBytes \<Rightarrow>
                    (case ke_public env pubKeyBytes of
                       None \<Rightarrow> acc
                     | Some k \<Rightarrow> add_signer (DeferredSigner k fn keyBytes) acc))
           | NotAKey \<Rightarrow> acc))"

text \<open>
  The loop. Its variable \<open>sshIdentity\<close> is one variable for all iterations (the module declares
  Go 1.18), and the closures of the deferred signers refer to it: it is part of the state.
\<close>

fun identity_loop ::
  "key_env \<Rightarrow> string list \<Rightarrow> string \<times> byte list set \<times> signer list \<Rightarrow>
    string \<times> byte list set \<times> signer list" where
  "identity_loop env [] st = st"
| "identity_loop env (fn # fns) (sshIdentity, acc) =
     identity_loop env fns (fn, identity_signer env fn acc)"

definition collect_signers :: "bool \<Rightarrow> key_env \<Rightarrow> string list \<Rightarrow> string \<times> signer list" where
  "collect_signers disableAgent env identities =
     (let (sshIdentity, known, signers) =
            identity_loop env identities ('''', agent_signers disableAgent env ({}, []))
      in (sshIdentity, signers))"

section \<open>Questions and deferred signers\<close>

record auth_question =
  aq_message :: string
  aq_prompt :: string
  aq_echo :: bool

text \<open>A \<open>deferredSigner\<close> with the decrypted key when there is one.\<close>

record 'k deferred =
  ds_actual :: "'k option"
  ds_internPub :: "byte list option"
  ds_keyBytes :: "byte list"

text \<open>
  \<open>force\<close> asks one question, under the value the loop variable has by then; a password that decrypts
  the key sets \<open>actual\<close> and answers \<open>true\<close>, any other leaves it and gives the error.
\<close>

definition force_question :: "string \<Rightarrow> auth_question" where
  "force_question sshIdentity =
     \<lparr>aq_message = ''Enter password for '' @ [CHR 0x27] @ sshIdentity @ [CHR 0x27],
      aq_prompt = ''Password: '', aq_echo = False\<rparr>"

definition ds_force ::
  "(byte list \<Rightarrow> string \<Rightarrow> go_error + 'k) \<Rightarrow> string \<Rightarrow> 'k deferred \<Rightarrow> 'k deferred \<times> bool \<times> err" where
  "ds_force decrypt password ds =
     (case decrypt (ds_keyBytes ds) password of
        Inr k \<Rightarrow> (ds\<lparr>ds_actual := Some k\<rparr>, True, None)
      | Inl e \<Rightarrow> (ds, False, Some e))"

text \<open>
  \<open>Sign\<close> with the questions it asks; the password is the client's answer, read only when asked.
\<close>

definition ds_sign ::
  "(byte list \<Rightarrow> string \<Rightarrow> go_error + 'k) \<Rightarrow> ('k \<Rightarrow> byte list \<Rightarrow> go_error + byte list) \<Rightarrow> string \<Rightarrow>
    string \<Rightarrow> byte list \<Rightarrow> 'k deferred \<Rightarrow>
    'k deferred \<times> auth_question list \<times> (go_error + byte list)" where
  "ds_sign decrypt sign sshIdentity password data ds =
     (case ds_actual ds of
        Some k \<Rightarrow> (ds, [], sign k data)
      | None \<Rightarrow>
          (let (ds', ok, e) = ds_force decrypt password ds; q = [force_question sshIdentity]
           in case e of
                Some x \<Rightarrow> (ds', q, Inl x)
              | None \<Rightarrow>
                  (case ds_actual ds' of
                     Some k \<Rightarrow> (ds', q, sign k data)
                   | None \<Rightarrow> (ds', q, Inl (ErrOther ''nil signer'')))))"

text \<open>\<open>PublicKey\<close>: the public key of the \<open>.pub\<close> file, else that of the decrypted key.\<close>

definition ds_public_key ::
  "(byte list \<Rightarrow> string \<Rightarrow> go_error + 'k) \<Rightarrow> ('k \<Rightarrow> byte list) \<Rightarrow> string \<Rightarrow> 'k deferred \<Rightarrow>
    'k deferred \<times> byte list option" where
  "ds_public_key decrypt public password ds =
     (case ds_internPub ds of
        Some k \<Rightarrow> (ds, Some k)
      | None \<Rightarrow>
          (let ds' = (if ds_actual ds = None then fst (ds_force decrypt password ds) else ds)
           in (ds', map_option public (ds_actual ds'))))"

section \<open>The other methods\<close>

datatype auth_method =
    Password string | KeyboardBlank | PublicKeysOf "signer list" | KeyboardProxied | PasswordProxied

definition default_auth_methods :: "auth_method list" where
  "default_auth_methods = [Password '''', KeyboardBlank]"

definition auth_methods :: "bool \<Rightarrow> bool \<Rightarrow> key_env \<Rightarrow> string list \<Rightarrow> auth_method list" where
  "auth_methods dumbAuth disableAgent env identities =
     (if dumbAuth then default_auth_methods
      else [PublicKeysOf (snd (collect_signers disableAgent env identities)),
            KeyboardProxied, PasswordProxied])"

text \<open>
  The keyboard-interactive method: one proxied question after the other, each waiting for its answer;
  \<open>echos[idx]\<close> panics (\<open>None\<close>) when there are fewer of them.
\<close>

fun proxied_questions ::
  "string \<Rightarrow> string list \<Rightarrow> bool list \<Rightarrow> (auth_question list) option" where
  "proxied_questions instruction [] echos = Some []"
| "proxied_questions instruction (q # qs) [] = None"
| "proxied_questions instruction (q # qs) (e # es) =
     map_option (\<lambda>r. \<lparr>aq_message = instruction, aq_prompt = q, aq_echo = e\<rparr> # r)
       (proxied_questions instruction qs es)"

definition password_question :: auth_question where
  "password_question = \<lparr>aq_message = '''', aq_prompt = ''[*] Password: '', aq_echo = False\<rparr>"

section \<open>The signers offered\<close>

text \<open>The signer an identity file stands for, whether its key is known already or not.\<close>

definition identity_candidate :: "key_env \<Rightarrow> string \<Rightarrow> signer option" where
  "identity_candidate env fn =
     (case ke_read env fn of
        None \<Rightarrow> None
      | Some kb \<Rightarrow>
          (case ke_parse env kb of
             PlainKey k \<Rightarrow> Some (FileSigner k fn)
           | EncryptedKey \<Rightarrow>
               (case ke_read env (fn @ ''.pub'') of
                  None \<Rightarrow> None
                | Some pb \<Rightarrow> map_option (\<lambda>k. DeferredSigner k fn kb) (ke_public env pb))
           | NotAKey \<Rightarrow> None))"

definition candidates :: "bool \<Rightarrow> key_env \<Rightarrow> string list \<Rightarrow> signer list" where
  "candidates disableAgent env ids =
     (if disableAgent then [] else map AgentSigner (case ke_agent env of Some ks \<Rightarrow> ks | None \<Rightarrow> [])) @
     List.map_filter (identity_candidate env) ids"

text \<open>The first signer for every public key.\<close>

fun first_per_key :: "signer list \<Rightarrow> signer list" where
  "first_per_key [] = []"
| "first_per_key (g # gs) =
     g # filter (\<lambda>h. signer_key h \<noteq> signer_key g) (first_per_key gs)"

definition new_signers :: "byte list set \<Rightarrow> signer list \<Rightarrow> signer list" where
  "new_signers known gs = filter (\<lambda>g. signer_key g \<notin> known) (first_per_key gs)"

lemma add_signers:
  "foldl (\<lambda>acc g. add_signer g acc) (known, gs) hs =
     (known \<union> signer_key ` set hs, gs @ new_signers known hs)"
proof (induction hs arbitrary: known gs)
  case (Cons h hs)
  have "filter (\<lambda>g. signer_key g \<notin> insert (signer_key h) known) (first_per_key hs) =
      filter (\<lambda>g. signer_key g \<notin> known) (filter (\<lambda>g. signer_key g \<noteq> signer_key h) (first_per_key hs))"
    by (auto simp: filter_filter intro: filter_cong)
  then show ?case
    using Cons.IH by (auto simp: add_signer_def new_signers_def insert_absorb filter_filter
        intro!: filter_cong)
qed (simp add: new_signers_def)

lemma identity_signer_candidate:
  "identity_signer env fn acc =
     (case identity_candidate env fn of None \<Rightarrow> acc | Some g \<Rightarrow> add_signer g acc)"
  by (auto simp: identity_signer_def identity_candidate_def split: option.splits private_key.splits)

lemma identity_loop_candidates:
  "identity_loop env fns (v, acc) =
     (if fns = [] then v else List.last fns,
      foldl (\<lambda>acc g. add_signer g acc) acc (List.map_filter (identity_candidate env) fns))"
  by (induction fns arbitrary: v acc)
     (auto simp: identity_signer_candidate List.map_filter_simps split: option.splits)

lemma agent_signers_candidates:
  "agent_signers disableAgent env acc =
     foldl (\<lambda>acc g. add_signer g acc) acc
       (if disableAgent then [] else map AgentSigner (case ke_agent env of Some ks \<Rightarrow> ks | None \<Rightarrow> []))"
  by (auto simp: agent_signers_def foldl_map split: option.splits)

lemma first_per_key_set: "signer_key ` set (first_per_key gs) = signer_key ` set gs"
proof (induction gs)
  case (Cons g gs)
  then show ?case by (auto simp: image_iff) (metis image_iff)+
qed simp

lemma first_per_key_subset: "set (first_per_key gs) \<subseteq> set gs"
  by (induction gs) auto

lemma first_per_key_distinct: "distinct (map signer_key (first_per_key gs))"
  by (induction gs) (auto simp: distinct_map_filter)

lemma collect_signers_eq:
  "collect_signers disableAgent env ids =
     (if ids = [] then '''' else List.last ids, first_per_key (candidates disableAgent env ids))"
  unfolding collect_signers_def Let_def agent_signers_candidates identity_loop_candidates
    foldl_append [symmetric] candidates_def [symmetric]
  by (simp add: add_signers new_signers_def)

text \<open>
  C38. The signers offered to the target are the candidates (the agent's keys, then the identity files
  that can be read, in order), each public key once, by its first candidate.
\<close>

theorem signers_once_per_key:
  "snd (collect_signers disableAgent env ids) = first_per_key (candidates disableAgent env ids) \<and>
   distinct (map signer_key (snd (collect_signers disableAgent env ids))) \<and>
   set (map signer_key (snd (collect_signers disableAgent env ids))) =
     signer_key ` set (candidates disableAgent env ids)"
  by (simp add: collect_signers_eq first_per_key_distinct first_per_key_set)

text \<open>
  C39. The password question of a deferred signer names the wrong file unless it belongs to the last
  identity: whatever file the key is from, the question names the last identity of the list, which
  need not even be encrypted.
\<close>

theorem deferred_question_names_last:
  assumes "collect_signers disableAgent env ids = (v, gs)"
    and "DeferredSigner k fn kb \<in> set gs" and "ds_actual ds = None"
    and "ds_sign decrypt sign v pw data ds = (ds', qs, r)"
  shows "qs = [force_question (List.last ids)] \<and>
    (fn \<noteq> List.last ids \<longrightarrow> qs \<noteq> [force_question fn])"
proof -
  have "DeferredSigner k fn kb \<in> set (candidates disableAgent env ids)"
    using assms(1,2) first_per_key_subset by (auto simp: collect_signers_eq)
  then have "ids \<noteq> []"
    by (auto simp: candidates_def List.map_filter_simps split: if_splits)
  then have v: "v = List.last ids"
    using assms(1) by (simp add: collect_signers_eq)
  have "qs = [force_question v]"
    using assms(3,4) by (auto simp: ds_sign_def Let_def split: prod.splits option.splits)
  then show ?thesis
    using v by (simp add: force_question_def)
qed

text \<open>Two encrypted identities, \<open>a\<close> and \<open>b\<close>, and no agent.\<close>

definition two_encrypted :: key_env where
  "two_encrypted =
     \<lparr>ke_agent = None,
      ke_read = (\<lambda>fn. if fn = ''a'' \<or> fn = ''b'' then Some [0]
        else if fn = ''a.pub'' then Some [1] else if fn = ''b.pub'' then Some [2] else None),
      ke_parse = (\<lambda>kb. EncryptedKey), ke_public = Some\<rparr>"

theorem deferred_question_names_last_witness:
  "\<exists>v gs ds' qs r. collect_signers True two_encrypted [''a'', ''b''] = (v, gs) \<and>
    DeferredSigner [1] ''a'' [0] \<in> set gs \<and>
    ds_sign (\<lambda>kb pw. Inr pw) (\<lambda>k d. Inr d) v ''pw'' [7]
      \<lparr>ds_actual = None, ds_internPub = Some [1], ds_keyBytes = [0]\<rparr> = (ds', qs, r) \<and>
    qs = [force_question ''b''] \<and> qs \<noteq> [force_question ''a'']"
proof -
  obtain v gs where c: "collect_signers True two_encrypted [''a'', ''b''] = (v, gs)"
    by (rule prod.exhaust)
  have g: "DeferredSigner [1] ''a'' [0] \<in> set gs"
    using c by (auto simp: collect_signers_def agent_signers_def identity_signer_def add_signer_def
        two_encrypted_def)
  obtain ds' qs r where s: "ds_sign (\<lambda>kb pw. Inr pw) (\<lambda>k d. Inr d) v ''pw'' [7]
      \<lparr>ds_actual = None, ds_internPub = Some [1], ds_keyBytes = [0]\<rparr> = (ds', qs, r)"
    by (rule prod_cases3)
  show ?thesis
    using c g s deferred_question_names_last [OF c g _ s] by auto
qed

end
