(* ===== verification/ChannelCopy.thy ===== *)
theory ChannelCopy
  imports Prelude
begin

text \<open>
  The second half of \<open>handleSshChannel\<close> (\<open>internal/sshproxy/proxy.go\<close>): the four goroutines of an
  accepted channel, two copying bytes and two reflecting requests, and the order in which they take
  it down, as a step relation. Both directions end when their peers end; nothing is assumed about
  when.
\<close>

section \<open>State\<close>

text \<open>A copying goroutine: in \<open>io.Copy\<close>; at \<open>CloseWrite\<close>; at the \<open>close\<close> of its channel; returned.\<close>

datatype copier = CpCopying | CpCloseWrite | CpSignal | CpDone

text \<open>
  A reflecting goroutine: in the request sink; waiting for its copier; at the \<open>Close\<close> of the
  channel; at the \<open>Close\<close> of the wrapped stream; returned.
\<close>

datatype reflector = RfSink | RfWait | RfClose | RfCloseTarget | RfDone

datatype channel_call = ProxyCloseWrite | ClientCloseWrite | ProxyClose | TargetClose | ClientClose

record channel =
  ch_up :: copier              \<comment> \<open>client to target\<close>
  ch_down :: copier            \<comment> \<open>target to client\<close>
  ch_upReqs :: reflector
  ch_downReqs :: reflector
  ch_wrapped :: bool           \<comment> \<open>\<open>copyTarget != proxyChan\<close>\<close>
  ch_log :: "channel_call list"

definition channel_start :: "bool \<Rightarrow> channel" where
  "channel_start wrapped =
     \<lparr>ch_up = CpCopying, ch_down = CpCopying, ch_upReqs = RfSink, ch_downReqs = RfSink,
      ch_wrapped = wrapped, ch_log = []\<rparr>"

section \<open>Steps\<close>

inductive channel_step :: "channel \<Rightarrow> channel \<Rightarrow> bool" where
  up_copied: "ch_up s = CpCopying \<Longrightarrow> channel_step s (s\<lparr>ch_up := CpCloseWrite\<rparr>)"
| up_closed: "ch_up s = CpCloseWrite \<Longrightarrow>
    channel_step s (s\<lparr>ch_log := ch_log s @ [ProxyCloseWrite], ch_up := CpSignal\<rparr>)"
| up_signalled: "ch_up s = CpSignal \<Longrightarrow> channel_step s (s\<lparr>ch_up := CpDone\<rparr>)"
| down_copied: "ch_down s = CpCopying \<Longrightarrow> channel_step s (s\<lparr>ch_down := CpCloseWrite\<rparr>)"
| down_closed: "ch_down s = CpCloseWrite \<Longrightarrow>
    channel_step s (s\<lparr>ch_log := ch_log s @ [ClientCloseWrite], ch_down := CpSignal\<rparr>)"
| down_signalled: "ch_down s = CpSignal \<Longrightarrow> channel_step s (s\<lparr>ch_down := CpDone\<rparr>)"
| up_sunk: "ch_upReqs s = RfSink \<Longrightarrow> channel_step s (s\<lparr>ch_upReqs := RfWait\<rparr>)"
| up_waited: "ch_upReqs s = RfWait \<Longrightarrow> ch_up s = CpDone \<Longrightarrow>
    channel_step s (s\<lparr>ch_upReqs := RfClose\<rparr>)"
| proxy_closed: "ch_upReqs s = RfClose \<Longrightarrow>
    channel_step s (s\<lparr>ch_log := ch_log s @ [ProxyClose],
      ch_upReqs := (if ch_wrapped s then RfCloseTarget else RfDone)\<rparr>)"
| target_closed: "ch_upReqs s = RfCloseTarget \<Longrightarrow>
    channel_step s (s\<lparr>ch_log := ch_log s @ [TargetClose], ch_upReqs := RfDone\<rparr>)"
| down_sunk: "ch_downReqs s = RfSink \<Longrightarrow> channel_step s (s\<lparr>ch_downReqs := RfWait\<rparr>)"
| down_waited: "ch_downReqs s = RfWait \<Longrightarrow> ch_down s = CpDone \<Longrightarrow>
    channel_step s (s\<lparr>ch_downReqs := RfClose\<rparr>)"
| client_closed: "ch_downReqs s = RfClose \<Longrightarrow>
    channel_step s (s\<lparr>ch_log := ch_log s @ [ClientClose], ch_downReqs := RfDone\<rparr>)"

inductive_cases channel_stepE: "channel_step s t"

code_pred (modes: i \<Rightarrow> i \<Rightarrow> bool, i \<Rightarrow> o \<Rightarrow> bool) channel_step .

definition channel_down :: "channel \<Rightarrow> bool" where
  "channel_down s \<longleftrightarrow> ch_up s = CpDone \<and> ch_down s = CpDone \<and> ch_upReqs s = RfDone \<and>
     ch_downReqs s = RfDone"

section \<open>Invariant\<close>

text \<open>Where \<open>b\<close> occurs in the log, \<open>a\<close> has occurred before.\<close>

definition precedes :: "'a \<Rightarrow> 'a \<Rightarrow> 'a list \<Rightarrow> bool" where
  "precedes a b xs \<longleftrightarrow> (\<forall>us vs. xs = us @ b # vs \<longrightarrow> a \<in> set us)"

lemma precedes_Nil [simp]: "precedes a b []"
  by (simp add: precedes_def)

lemma precedes_snoc [simp]:
  "precedes a b (xs @ [x]) \<longleftrightarrow> precedes a b xs \<and> (x = b \<longrightarrow> a \<in> set xs)"
proof
  assume p: "precedes a b (xs @ [x])"
  have "a \<in> set us" if "xs = us @ b # vs" for us vs
    using p that unfolding precedes_def by (metis append.assoc append_Cons)
  then show "precedes a b xs \<and> (x = b \<longrightarrow> a \<in> set xs)"
    using p by (auto simp: precedes_def)
next
  assume p: "precedes a b xs \<and> (x = b \<longrightarrow> a \<in> set xs)"
  have "a \<in> set us" if "xs @ [x] = us @ b # vs" for us vs
    using p that by (cases vs rule: rev_cases) (auto simp: precedes_def)
  then show "precedes a b (xs @ [x])"
    by (simp add: precedes_def)
qed

definition channel_inv :: "channel \<Rightarrow> bool" where
  [inv_defs]: "channel_inv s \<longleftrightarrow>
     distinct (ch_log s) \<and>
     (ProxyCloseWrite \<in> set (ch_log s) \<longleftrightarrow> ch_up s = CpSignal \<or> ch_up s = CpDone) \<and>
     (ClientCloseWrite \<in> set (ch_log s) \<longleftrightarrow> ch_down s = CpSignal \<or> ch_down s = CpDone) \<and>
     (ProxyClose \<in> set (ch_log s) \<longleftrightarrow> ch_upReqs s = RfCloseTarget \<or> ch_upReqs s = RfDone) \<and>
     (TargetClose \<in> set (ch_log s) \<longleftrightarrow> ch_upReqs s = RfDone \<and> ch_wrapped s) \<and>
     (ClientClose \<in> set (ch_log s) \<longleftrightarrow> ch_downReqs s = RfDone) \<and>
     (ch_upReqs s \<in> {RfClose, RfCloseTarget, RfDone} \<longrightarrow> ch_up s = CpDone) \<and>
     (ch_downReqs s \<in> {RfClose, RfDone} \<longrightarrow> ch_down s = CpDone) \<and>
     ch_downReqs s \<noteq> RfCloseTarget \<and> (ch_upReqs s = RfCloseTarget \<longrightarrow> ch_wrapped s) \<and>
     precedes ProxyCloseWrite ProxyClose (ch_log s) \<and> precedes ProxyClose TargetClose (ch_log s) \<and>
     precedes ClientCloseWrite ClientClose (ch_log s)"

lemma channel_inv_start: "channel_inv (channel_start wrapped)"
  by (simp add: inv_defs channel_start_def)

lemma channel_inv_step: "channel_step s t \<Longrightarrow> channel_inv s \<Longrightarrow> channel_inv t"
  by (induction rule: channel_step.induct) (simp_all add: inv_defs)

lemma channel_reachable:
  "channel_step\<^sup>*\<^sup>* (channel_start wrapped) s \<Longrightarrow> channel_inv s \<and> ch_wrapped s = wrapped"
proof (induction rule: rtranclp_induct)
  case (step s t)
  then show ?case
    using channel_inv_step [OF step.hyps(2)] by (auto elim: channel_stepE)
qed (simp add: channel_inv_start, simp add: channel_start_def)

section \<open>The order of the calls\<close>

text \<open>
  C12. However the goroutines interleave, each of the five calls that take the channel down is made at
  most once; the channel to the target is closed only after its write side, the wrapped stream only
  after the channel to the target, and the client's channel only after its write side.
\<close>

theorem channel_calls_in_order:
  assumes "channel_step\<^sup>*\<^sup>* (channel_start wrapped) s"
  shows "distinct (ch_log s) \<and> precedes ProxyCloseWrite ProxyClose (ch_log s) \<and>
    precedes ProxyClose TargetClose (ch_log s) \<and> precedes ClientCloseWrite ClientClose (ch_log s) \<and>
    (TargetClose \<in> set (ch_log s) \<longrightarrow> wrapped)"
  using channel_reachable [OF assms] by (auto simp: inv_defs)

theorem channel_calls_in_order_witness:
  "\<exists>s. channel_step\<^sup>*\<^sup>* (channel_start True) s \<and> ch_log s = [ProxyCloseWrite] \<and>
    precedes ProxyCloseWrite ProxyClose (ch_log s)"
proof -
  let ?a = "channel_start True"
  let ?b = "?a\<lparr>ch_up := CpCloseWrite\<rparr>"
  let ?c = "?b\<lparr>ch_log := ch_log ?b @ [ProxyCloseWrite], ch_up := CpSignal\<rparr>"
  have "channel_step ?a ?b"
    by (rule up_copied) (simp add: channel_start_def)
  moreover have "channel_step ?b ?c"
    by (rule up_closed) simp
  ultimately have r: "channel_step\<^sup>*\<^sup>* ?a ?c"
    by (blast intro: rtranclp.rtrancl_into_rtrancl rtranclp.rtrancl_refl)
  then show ?thesis
    using channel_calls_in_order [OF r] by (intro exI [of _ ?c]) (simp add: channel_start_def)
qed

section \<open>Goroutines only go forward\<close>

text \<open>The program points in the order of the code, as linear orders.\<close>

fun copier_steps :: "copier \<Rightarrow> nat" where
  "copier_steps CpCopying = 3" | "copier_steps CpCloseWrite = 2" | "copier_steps CpSignal = 1"
| "copier_steps CpDone = 0"

fun reflector_steps :: "reflector \<Rightarrow> nat" where
  "reflector_steps RfSink = 4" | "reflector_steps RfWait = 3" | "reflector_steps RfClose = 2"
| "reflector_steps RfCloseTarget = 1" | "reflector_steps RfDone = 0"

lemma copier_steps_inj: "copier_steps p = copier_steps q \<Longrightarrow> p = q"
  by (cases p; cases q) simp_all

lemma reflector_steps_inj: "reflector_steps p = reflector_steps q \<Longrightarrow> p = q"
  by (cases p; cases q) simp_all

instantiation copier :: linorder
begin

definition less_eq_copier :: "copier \<Rightarrow> copier \<Rightarrow> bool" where
  "p \<le> q \<longleftrightarrow> copier_steps q \<le> copier_steps p"

definition less_copier :: "copier \<Rightarrow> copier \<Rightarrow> bool" where
  "p < q \<longleftrightarrow> copier_steps q < copier_steps p"

instance
  by standard (auto simp: less_eq_copier_def less_copier_def dest: copier_steps_inj)

end

instantiation reflector :: linorder
begin

definition less_eq_reflector :: "reflector \<Rightarrow> reflector \<Rightarrow> bool" where
  "p \<le> q \<longleftrightarrow> reflector_steps q \<le> reflector_steps p"

definition less_reflector :: "reflector \<Rightarrow> reflector \<Rightarrow> bool" where
  "p < q \<longleftrightarrow> reflector_steps q < reflector_steps p"

instance
  by standard (auto simp: less_eq_reflector_def less_reflector_def dest: reflector_steps_inj)

end

lemmas phase_order = less_eq_copier_def less_copier_def less_eq_reflector_def less_reflector_def

lemma channel_step_forward:
  "channel_step s t \<Longrightarrow>
     ch_up s \<le> ch_up t \<and> ch_down s \<le> ch_down t \<and> ch_upReqs s \<le> ch_upReqs t \<and>
     ch_downReqs s \<le> ch_downReqs t"
  by (induction rule: channel_step.induct) (simp_all add: phase_order)

lemma channel_steps_forward:
  "channel_step\<^sup>*\<^sup>* s t \<Longrightarrow>
     ch_up s \<le> ch_up t \<and> ch_down s \<le> ch_down t \<and> ch_upReqs s \<le> ch_upReqs t \<and>
     ch_downReqs s \<le> ch_downReqs t"
  by (induction rule: rtranclp_induct) (auto dest: channel_step_forward intro: order_trans)

section \<open>The channel comes down\<close>

definition channel_steps :: "channel \<Rightarrow> nat" where
  "channel_steps s = copier_steps (ch_up s) + copier_steps (ch_down s)
     + reflector_steps (ch_upReqs s) + reflector_steps (ch_downReqs s)"

lemma channel_step_decreases: "channel_step s t \<Longrightarrow> channel_steps t < channel_steps s"
  by (induction rule: channel_step.induct) (simp_all add: channel_steps_def)

lemma channel_step_enabled:
  assumes "channel_inv s" and "\<not> channel_down s"
  shows "\<exists>t. channel_step s t"
proof (cases "ch_up s = CpDone \<and> ch_down s = CpDone")
  case True
  then show ?thesis
    using assms
    by (cases "ch_upReqs s"; cases "ch_downReqs s")
       (auto simp: channel_down_def inv_defs intro: channel_step.intros)
next
  case False
  then show ?thesis
    by (cases "ch_up s"; cases "ch_down s") (auto intro: channel_step.intros)
qed

lemma channel_comes_down:
  "channel_inv s \<Longrightarrow> \<exists>t. channel_step\<^sup>*\<^sup>* s t \<and> channel_down t"
proof (induction "channel_steps s" arbitrary: s rule: less_induct)
  case less
  show ?case
  proof (cases "channel_down s")
    case False
    then obtain u where u: "channel_step s u"
      using channel_step_enabled [OF less.prems] by blast
    then obtain t where "channel_step\<^sup>*\<^sup>* u t" "channel_down t"
      using less.hyps channel_step_decreases channel_inv_step less.prems by blast
    then show ?thesis
      using u by (blast intro: converse_rtranclp_into_rtranclp)
  qed blast
qed



end
