(* ===== verification/Proxy.thy ===== *)
theory Proxy
  imports Prelude
begin

text \<open>
  The SSH proxy (\<open>internal/sshproxy/proxy.go\<close>): answering the target's questions, reflecting requests
  with their replies, opening and accepting a channel, the four goroutines that copy a channel and
  take it down, and the accept loop with its shared connection variable.
\<close>

section \<open>Authentication\<close>

text \<open>\<open>blankInteractive\<close>: a blank answer to every question.\<close>

definition blank_interactive :: "string list \<Rightarrow> string list" where
  "blank_interactive questions = map (\<lambda>q. '''') questions"

record proxied_question =
  pq_Message :: string
  pq_Prompt :: string
  pq_Echo :: bool

text \<open>
  What the \<open>select\<close> of the keyboard-interactive callback receives: a question, with the client's
  answers, the verdict of \<open>OnAnswer\<close> and whether \<open>connErr\<close> is set by then; or the end of the dial.
\<close>

datatype ki_event =
    KiQuestion proxied_question "go_error + string list" bool bool
  | KiEstablished

datatype ki_exit = KiWaiting bool | KiLeft bool | KiFailed go_error

fun ki_loop :: "ki_event list \<Rightarrow> bool \<Rightarrow> ki_exit" where
  "ki_loop [] asked = KiWaiting asked"
| "ki_loop (KiEstablished # es) asked = KiLeft asked"
| "ki_loop (KiQuestion q answers ok failed # es) asked =
     (case answers of
        Inl e \<Rightarrow> KiFailed e
      | Inr as \<Rightarrow>
          if length as \<noteq> 1 then KiFailed (ErrOther ''expected 1 answer'')
          else if \<not> ok then KiFailed (ErrOther (''wrong answer to '' @ pq_Message q))
          else if failed then KiLeft True
          else ki_loop es True)"

text \<open>
  The callback: \<open>None\<close> while it waits, otherwise whether it sends the closing challenge and the error
  it returns; \<open>extra\<close> says whether there is a channel of questions, \<open>connErr\<close> is the dial's error.
\<close>

definition ki_callback ::
  "bool \<Rightarrow> bool \<Rightarrow> err \<Rightarrow> ki_event list \<Rightarrow> (bool \<times> err) option" where
  "ki_callback extra reportAuthErr connErr es =
     (case (if extra then ki_loop es False
            else if KiEstablished \<in> set es then KiLeft False else KiWaiting False) of
        KiWaiting asked \<Rightarrow> None
      | KiFailed e \<Rightarrow> Some (False, Some e)
      | KiLeft asked \<Rightarrow> Some (\<not> asked \<or> (reportAuthErr \<and> connErr \<noteq> None), connErr))"

section \<open>Reflecting requests\<close>

datatype reflect_action = SendsRequest request | RepliesTo request bool "byte list"

text \<open>\<open>send\<close> is \<open>SendRequest\<close> on the recipient: its new state, the reply, its payload and an error.\<close>

type_synonym 'w sender = "'w \<Rightarrow> request \<Rightarrow> 'w \<times> bool \<times> byte list \<times> err"

text \<open>Channel requests: the payload of a reply is dropped.\<close>

fun reflect_requests :: "'w sender \<Rightarrow> request list \<Rightarrow> 'w \<Rightarrow> 'w \<times> reflect_action list" where
  "reflect_requests send [] w = (w, [])"
| "reflect_requests send (r # rs) w =
     (let (w1, reply, payload, e) = send w r;
          answer = (if rq_want_reply r
                    then [RepliesTo r (if e \<noteq> None then False else reply) []] else []);
          (w2, as) = reflect_requests send rs w1
      in (w2, SendsRequest r # answer @ as))"

text \<open>Connection requests: it is passed on, unless the request failed.\<close>

fun reflect_global_requests :: "'w sender \<Rightarrow> request list \<Rightarrow> 'w \<Rightarrow> 'w \<times> reflect_action list" where
  "reflect_global_requests send [] w = (w, [])"
| "reflect_global_requests send (r # rs) w =
     (let (w1, reply, payload, e) = send w r;
          answer = (if rq_want_reply r
                    then [if e \<noteq> None then RepliesTo r False [] else RepliesTo r reply payload]
                    else []);
          (w2, as) = reflect_global_requests send rs w1
      in (w2, SendsRequest r # answer @ as))"

text \<open>What the recipient says to every request, in turn.\<close>

fun responses :: "'w sender \<Rightarrow> request list \<Rightarrow> 'w \<Rightarrow> (bool \<times> byte list) list" where
  "responses send [] w = []"
| "responses send (r # rs) w =
     (let (w1, reply, payload, e) = send w r
      in (if e \<noteq> None then (False, []) else (reply, payload)) # responses send rs w1)"

fun exchange :: "request \<times> bool \<times> byte list \<Rightarrow> reflect_action list" where
  "exchange (r, reply, payload) =
     SendsRequest r # (if rq_want_reply r then [RepliesTo r reply payload] else [])"

text \<open>
  Every request is sent on once, in order; exactly those that want a reply get one, with the
  recipient's verdict, and before the next request is sent. For connection requests the reply
  carries the recipient's payload, for channel requests none.
\<close>

theorem reflect_exactly_once:
  "snd (reflect_requests send rs w) =
     concat (map exchange (zip rs (map (\<lambda>(ok, p). (ok, [])) (responses send rs w)))) \<and>
   snd (reflect_global_requests send rs w) = concat (map exchange (zip rs (responses send rs w)))"
  by (induction rs arbitrary: w) (simp_all add: Let_def case_prod_beta)

section \<open>Opening a channel\<close>

datatype open_result = ChannelOpened | OpenChannelError nat string | OpenFailed string

datatype channel_action = RejectChannel nat string | AcceptChannel | CloseProxyChannel

datatype channel_outcome = Copying bool | GaveUp | NilPanic

text \<open>
  The beginning of \<open>handleSshChannel\<close>. \<open>accept\<close> is \<open>request.Accept\<close>, told whether the request has been
  rejected before. Without a channel from \<open>OpenChannel\<close>, \<open>proxyChan\<close> is nil and a method call on it
  panics; \<open>Copying\<close> says whether there is a channel to copy. The reason of a failed open is
  \<open>ssh.ConnectionFailed\<close>, 2.
\<close>

definition open_channel :: "open_result \<Rightarrow> (bool \<Rightarrow> err) \<Rightarrow> channel_action list \<times> channel_outcome" where
  "open_channel res accept =
     (let opened = (res = ChannelOpened);
          rejection = (case res of
              ChannelOpened \<Rightarrow> []
            | OpenChannelError reason message \<Rightarrow> [RejectChannel reason message]
            | OpenFailed message \<Rightarrow> [RejectChannel 2 message]);
          err = accept (rejection \<noteq> [])
      in if err \<noteq> None
         then (if opened then (rejection @ [AcceptChannel, CloseProxyChannel], GaveUp)
               else (rejection @ [AcceptChannel], NilPanic))
         else (rejection @ [AcceptChannel], Copying opened))"

lemma refused_panics:
  "accept True \<noteq> None \<Longrightarrow> snd (open_channel res accept) = NilPanic \<longleftrightarrow> res \<noteq> ChannelOpened"
  by (cases res) (auto simp: open_channel_def Let_def)

text \<open>\<open>handleSshClientChannels\<close>: a goroutine for every channel the client opens.\<close>

definition handle_client_channels ::
  "(open_result \<times> (bool \<Rightarrow> err)) list \<Rightarrow> (channel_action list \<times> channel_outcome) list" where
  "handle_client_channels nc = map (\<lambda>(res, accept). open_channel res accept) nc"

text \<open>The agent channels the target opens: refused one by one when the agent is blocked.\<close>

definition auth_agent_channel ::
  "bool \<Rightarrow> open_result \<Rightarrow> (bool \<Rightarrow> err) \<Rightarrow> channel_action list \<times> channel_outcome option" where
  "auth_agent_channel blockAgent res accept =
     (if blockAgent then ([RejectChannel 1 ''agent forwarding prohibited''], None)
      else map_prod id Some (open_channel res accept))"

text \<open>
  C15. A channel the target refuses ends the program: after \<open>Reject\<close> there is no \<open>return\<close>, so
  \<open>Accept\<close> is called too, and with a library that (as documented) refuses to accept a rejected
  request, \<open>handleSshChannel\<close> goes on to close the channel it never got. One refused channel among all
  those a client opens is enough, and without one there is no such panic; an agent channel that the
  client refuses does the same unless the agent is blocked.
\<close>

theorem refused_channel_panics:
  assumes "\<forall>c \<in> set nc. snd c True \<noteq> None"
  shows "(NilPanic \<in> snd ` set (handle_client_channels nc) \<longleftrightarrow> (\<exists>c \<in> set nc. fst c \<noteq> ChannelOpened)) \<and>
    (\<forall>c \<in> set nc. snd (auth_agent_channel block (fst c) (snd c)) = Some NilPanic \<longleftrightarrow>
       \<not> block \<and> fst c \<noteq> ChannelOpened)"
proof -
  have each: "snd (open_channel (fst c) (snd c)) = NilPanic \<longleftrightarrow> fst c \<noteq> ChannelOpened" if "c \<in> set nc" for c
    using assms that refused_panics by blast
  have all: "snd ` set (handle_client_channels nc) = (\<lambda>c. snd (open_channel (fst c) (snd c))) ` set nc"
    by (simp add: handle_client_channels_def image_image case_prod_beta)
  show ?thesis
    unfolding all image_iff eq_commute [of NilPanic]
    using each by (simp add: auth_agent_channel_def)
qed

definition refusing :: "bool \<Rightarrow> err" where
  "refusing decided = (if decided then Some (ErrOther ''ssh: must not reject or accept twice'') else None)"

theorem refused_channel_panics_witness:
  "NilPanic \<in> snd ` set (handle_client_channels
      [(ChannelOpened, refusing), (OpenChannelError 1 ''no'', refusing)])"
  using refused_channel_panics [of "[(ChannelOpened, refusing), (OpenChannelError 1 ''no'', refusing)]"]
  by (auto simp: refusing_def)

end
