(* ===== verification/AcceptLoop.thy ===== *)
theory AcceptLoop
  imports Proxy
begin

text \<open>
  The accept loop of \<open>RunProxy\<close> (\<open>internal/sshproxy/proxy.go\<close>) and its variable \<open>proxyConn\<close>, which the
  loop, the authentication callback and the goroutines that dial the target share. The handshake
  with a client runs in the loop, the dial in a goroutine that the callback may leave behind; a
  connection to the target is identified by the user it was authenticated for.
\<close>

section \<open>State\<close>

record proxy =
  px_proxyConn :: "string option"             \<comment> \<open>None: nil\<close>
  px_dials :: "(nat \<times> string) list"           \<comment> \<open>dials under way, with their handshakes\<close>
  px_handshake :: "(nat \<times> string) option"     \<comment> \<open>the handshake the loop is in\<close>
  px_established :: "bool option"             \<comment> \<open>its dial has ended: without an error?\<close>
  px_next :: nat
  px_sessions :: "(string \<times> string option) list" \<comment> \<open>the user and the \<open>proxyConn\<close> passed on\<close>
  px_asked :: "(string \<times> string) list"        \<comment> \<open>whose dial asked a question, who answered it\<close>

definition proxy_start :: proxy where
  "proxy_start =
     \<lparr>px_proxyConn = None, px_dials = [], px_handshake = None, px_established = None, px_next = 0,
      px_sessions = [], px_asked = []\<rparr>"

section \<open>Steps\<close>

text \<open>A client connects and its authentication starts a dial.\<close>

definition px_accept :: "string \<Rightarrow> proxy \<Rightarrow> proxy option" where
  "px_accept user s =
     (if px_handshake s = None
      then Some (s\<lparr>px_handshake := Some (px_next s, user), px_established := None,
                   px_dials := px_dials s @ [(px_next s, user)], px_next := Suc (px_next s)\<rparr>)
      else None)"

text \<open>
  \<open>proxyConn, connErr = ssh.Dial(...)\<close> in the \<open>k\<close>-th goroutine: the shared variable is assigned, nil
  on an error; \<open>connErr\<close> and \<open>established\<close> belong to the handshake that started the dial.
\<close>

definition px_dial :: "nat \<Rightarrow> bool \<Rightarrow> proxy \<Rightarrow> proxy option" where
  "px_dial k ok s =
     (if k < length (px_dials s) then
        (let (i, user) = px_dials s ! k
         in Some (s\<lparr>px_proxyConn := (if ok then Some user else None),
                    px_dials := take k (px_dials s) @ drop (Suc k) (px_dials s),
                    px_established :=
                      (if \<exists>u. px_handshake s = Some (i, u) then Some ok else px_established s)\<rparr>))
      else None)"

text \<open>
  The \<open>k\<close>-th dial sends a question on \<open>ExtraQuestions\<close>, one channel for all dials; the callback of the
  handshake the loop is in receives it and puts it to its own client.
\<close>

definition px_ask :: "nat \<Rightarrow> proxy \<Rightarrow> proxy option" where
  "px_ask k s =
     (case px_handshake s of
        Some (i, user) \<Rightarrow>
          if k < length (px_dials s)
          then Some (s\<lparr>px_asked := px_asked s @ [(snd (px_dials s ! k), user)]\<rparr>)
          else None
      | None \<Rightarrow> None)"

text \<open>The callback returned no error: the session starts with the current \<open>proxyConn\<close>.\<close>

definition px_serve :: "proxy \<Rightarrow> proxy option" where
  "px_serve s =
     (case px_handshake s of
        Some (i, user) \<Rightarrow>
          if px_established s = Some True
          then Some (s\<lparr>px_sessions := px_sessions s @ [(user, px_proxyConn s)], px_handshake := None\<rparr>)
          else None
      | None \<Rightarrow> None)"

text \<open>The callback returned the error of its dial, and the loop goes on.\<close>

definition px_refuse :: "proxy \<Rightarrow> proxy option" where
  "px_refuse s =
     (if px_handshake s \<noteq> None \<and> px_established s = Some False
      then Some (s\<lparr>px_handshake := None\<rparr>) else None)"

text \<open>
  The callback returned before its dial ended (the client went away, or gave an answer that was not
  accepted): the dial is left behind.
\<close>

definition px_give_up :: "proxy \<Rightarrow> proxy option" where
  "px_give_up s =
     (if px_handshake s \<noteq> None \<and> px_established s = None
      then Some (s\<lparr>px_handshake := None\<rparr>) else None)"

datatype px_event = PxAccept string | PxDial nat bool | PxAsk nat | PxServe | PxRefuse | PxGiveUp

fun px_step :: "px_event \<Rightarrow> proxy \<Rightarrow> proxy option" where
  "px_step (PxAccept user) s = px_accept user s"
| "px_step (PxDial k ok) s = px_dial k ok s"
| "px_step (PxAsk k) s = px_ask k s"
| "px_step PxServe s = px_serve s"
| "px_step PxRefuse s = px_refuse s"
| "px_step PxGiveUp s = px_give_up s"

lemmas px_defs = px_accept_def px_dial_def px_ask_def px_serve_def px_refuse_def px_give_up_def

section \<open>Without abandoned handshakes\<close>

text \<open>The machine in which no handshake is given up before its dial has ended.\<close>

definition px_patient :: "px_event \<Rightarrow> proxy \<Rightarrow> proxy option" where
  "px_patient e s = (if e = PxGiveUp then None else px_step e s)"

definition px_inv :: "proxy \<Rightarrow> bool" where
  [inv_defs]: "px_inv s \<longleftrightarrow>
     (\<forall>c \<in> set (px_sessions s). snd c = Some (fst c)) \<and>
     (\<forall>q \<in> set (px_asked s). fst q = snd q) \<and>
     (case px_handshake s of
        None \<Rightarrow> px_dials s = []
      | Some (i, user) \<Rightarrow>
          (case px_established s of
             None \<Rightarrow> px_dials s = [(i, user)]
           | Some ok \<Rightarrow> px_dials s = [] \<and> px_proxyConn s = (if ok then Some user else None)))"

lemma px_inv_dial:
  assumes "px_inv s" and "px_dial k ok s = Some t"
  shows "px_inv t"
proof -
  have k: "k < length (px_dials s)"
    using assms(2) by (simp add: px_dial_def split: if_splits)
  then obtain i u where h: "px_handshake s = Some (i, u)"
    using assms(1) by (cases "px_handshake s") (auto simp: inv_defs)
  have e: "px_established s = None"
    using assms(1) k h by (cases "px_established s") (simp_all add: inv_defs)
  have d: "px_dials s = [(i, u)]"
    using assms(1) h e by (simp add: inv_defs)
  have "t = s\<lparr>px_proxyConn := (if ok then Some u else None), px_dials := [],
      px_established := Some ok\<rparr>"
    using assms(2) k d h by (simp add: px_dial_def)
  then show ?thesis
    using assms(1) h by (simp add: inv_defs)
qed

lemma px_inv_accept: "px_inv s \<Longrightarrow> px_accept u s = Some t \<Longrightarrow> px_inv t"
  by (simp add: px_accept_def inv_defs split: if_splits) auto

lemma px_inv_ask:
  assumes "px_inv s" and "px_ask k s = Some t"
  shows "px_inv t"
proof -
  obtain i u where h: "px_handshake s = Some (i, u)" and k: "k < length (px_dials s)"
    and t: "t = s\<lparr>px_asked := px_asked s @ [(snd (px_dials s ! k), u)]\<rparr>"
    using assms(2) by (cases "px_handshake s") (auto simp: px_ask_def split: if_splits)
  have e: "px_established s = None"
    using assms(1) k h by (cases "px_established s") (simp_all add: inv_defs)
  have "px_dials s = [(i, u)]"
    using assms(1) h e by (simp add: inv_defs)
  then show ?thesis
    using assms(1) h e k by (simp add: inv_defs t)
qed

lemma px_inv_serve:
  assumes "px_inv s" and "px_serve s = Some t"
  shows "px_inv t"
proof -
  obtain i u where h: "px_handshake s = Some (i, u)" and e: "px_established s = Some True"
    and t: "t = s\<lparr>px_sessions := px_sessions s @ [(u, px_proxyConn s)], px_handshake := None\<rparr>"
    using assms(2) by (cases "px_handshake s") (auto simp: px_serve_def split: if_splits)
  then show ?thesis
    using assms(1) by (simp add: inv_defs)
qed

lemma px_inv_refuse:
  assumes "px_inv s" and "px_refuse s = Some t"
  shows "px_inv t"
proof -
  obtain i u where h: "px_handshake s = Some (i, u)" and e: "px_established s = Some False"
    and t: "t = s\<lparr>px_handshake := None\<rparr>"
    using assms(2) by (cases "px_handshake s") (auto simp: px_refuse_def split: if_splits)
  then show ?thesis
    using assms(1) by (simp add: inv_defs)
qed

lemma px_inv_step:
  assumes inv: "px_inv s" and step: "px_patient e s = Some t"
  shows "px_inv t"
proof (cases e)
  case (PxAccept u)
  with step show ?thesis by (intro px_inv_accept [OF inv, of u]) (simp add: px_patient_def)
next
  case (PxDial k ok)
  with step show ?thesis by (intro px_inv_dial [OF inv, of k ok]) (simp add: px_patient_def)
next
  case (PxAsk k)
  with step show ?thesis by (intro px_inv_ask [OF inv, of k]) (simp add: px_patient_def)
next
  case PxServe
  with step show ?thesis by (intro px_inv_serve [OF inv]) (simp add: px_patient_def)
next
  case PxRefuse
  with step show ?thesis by (intro px_inv_refuse [OF inv]) (simp add: px_patient_def)
next
  case PxGiveUp
  with step show ?thesis by (simp add: px_patient_def)
qed

interpretation px: invariant_machine "\<lambda>s. s = proxy_start" px_patient px_inv
  by unfold_locales (simp add: inv_defs proxy_start_def, rule px_inv_step)

lemma px_patient_run:
  "PxGiveUp \<notin> set es \<Longrightarrow> run px_patient es s = run px_step es s"
  by (induction es arbitrary: s) (auto simp: px_patient_def split: option.splits)

text \<open>
  C13. As long as no handshake is given up while its dial is under way, every session is served by the
  connection that was authenticated for its own user.
\<close>

theorem sessions_get_their_own_connection:
  assumes "run px_step es proxy_start = Some s" and "PxGiveUp \<notin> set es"
  shows "(\<forall>(user, conn) \<in> set (px_sessions s). conn = Some user) \<and>
    (\<forall>(asker, client) \<in> set (px_asked s). asker = client)"
proof -
  have "px_inv s"
    using px.run_inv [of proxy_start es s] assms by (simp add: px_patient_run)
  then show ?thesis
    by (auto simp: inv_defs)
qed

theorem sessions_get_their_own_connection_witness:
  "\<exists>s. run px_step [PxAccept ''ann'', PxDial 0 True, PxServe, PxAccept ''bob'', PxAsk 0, PxDial 0 True,
      PxServe] proxy_start = Some s \<and>
    px_sessions s = [(''ann'', Some ''ann''), (''bob'', Some ''bob'')] \<and> px_asked s = [(''bob'', ''bob'')]"
proof -
  obtain s where s: "run px_step [PxAccept ''ann'', PxDial 0 True, PxServe, PxAccept ''bob'',
      PxAsk 0, PxDial 0 True, PxServe] proxy_start = Some s"
    and users: "map fst (px_sessions s) = [''ann'', ''bob'']" "map snd (px_asked s) = [''bob'']"
    by (simp add: px_defs proxy_start_def)
  have own: "(\<forall>(user, conn) \<in> set (px_sessions s). conn = Some user) \<and>
    (\<forall>(asker, client) \<in> set (px_asked s). asker = client)"
    using sessions_get_their_own_connection [OF s] by simp
  then show ?thesis
    using s users by (auto simp: map_eq_Cons_conv)
qed

section \<open>With them\<close>

text \<open>
  C14. A dial left behind assigns the shared variable: for any two users there is a schedule in which the
  first gives up, the second authenticates, and the second's session runs on the connection that
  was authenticated for the first; one in which the left-over dial fails and the session starts with
  a nil connection; and one in which the second user is asked a question of the first one's dial.
\<close>

theorem abandoned_dial_takes_session:
  "(\<exists>s. run px_step [PxAccept a, PxGiveUp, PxAccept b, PxDial 1 True, PxDial 0 True, PxServe]
      proxy_start = Some s \<and> px_sessions s = [(b, Some a)]) \<and>
   (\<exists>s. run px_step [PxAccept a, PxGiveUp, PxAccept b, PxDial 1 True, PxDial 0 False, PxServe]
      proxy_start = Some s \<and> px_sessions s = [(b, None)]) \<and>
   (\<exists>s. run px_step [PxAccept a, PxGiveUp, PxAccept b, PxAsk 0] proxy_start = Some s \<and>
      px_asked s = [(a, b)])"
  by (simp add: px_defs proxy_start_def)

section \<open>The authentication callback\<close>

text \<open>A question that was answered by one accepted answer.\<close>

fun answered :: "ki_event \<Rightarrow> bool" where
  "answered (KiQuestion q (Inr as) ok failed) = (length as = 1 \<and> ok)"
| "answered _ = False"

fun dial_failed :: "ki_event \<Rightarrow> bool" where
  "dial_failed (KiQuestion q as ok failed) = failed" | "dial_failed KiEstablished = False"

lemma ki_loop_left:
  assumes "ki_loop es asked = KiLeft b" and "\<not> (\<exists>e \<in> set es. dial_failed e)"
  shows "\<exists>qs rest. es = qs @ KiEstablished # rest \<and> (\<forall>e \<in> set qs. answered e)"
  using assms
proof (induction es asked rule: ki_loop.induct)
  case (2 es asked)
  show ?case
    by (rule exI [of _ "[]"], rule exI [of _ es]) simp
next
  case (3 q answers ok failed es asked)
  obtain as where as: "answers = Inr as" "length as = 1" "ok"
    using "3.prems"(1) by (auto split: sum.splits if_splits)
  then obtain qs rest where "es = qs @ KiEstablished # rest" "\<forall>e \<in> set qs. answered e"
    using 3 by (auto split: if_splits)
  then show ?case
    using as by (intro exI [of _ "KiQuestion q answers ok failed # qs"] exI [of _ rest]) auto
qed simp

text \<open>
  The callback lets a client in (a nil error) only after its dial has ended without an error and
  every question passed on before has got exactly one answer, which was accepted.
\<close>

theorem callback_accepts_after_dial:
  assumes "ki_callback True report None es = Some (c, None)"
    and "\<not> (\<exists>e \<in> set es. dial_failed e)"
  shows "\<exists>qs rest. es = qs @ KiEstablished # rest \<and> (\<forall>e \<in> set qs. answered e)"
proof -
  obtain b where "ki_loop es False = KiLeft b"
    using assms(1) by (auto simp: ki_callback_def split: ki_exit.splits)
  then show ?thesis
    using ki_loop_left assms(2) by blast
qed

definition one_question :: "ki_event list" where
  "one_question =
     [KiQuestion \<lparr>pq_Message = '''', pq_Prompt = ''p'', pq_Echo = False\<rparr> (Inr [''x'']) True False,
      KiEstablished]"

theorem callback_accepts_after_dial_witness:
  "ki_callback True False None one_question = Some (False, None) \<and>
    (\<exists>qs rest. one_question = qs @ KiEstablished # rest \<and> (\<forall>e \<in> set qs. answered e))"
proof -
  have c: "ki_callback True False None one_question = Some (False, None)"
    by (simp add: ki_callback_def one_question_def)
  show ?thesis
    using c callback_accepts_after_dial [OF c] by (simp add: one_question_def)
qed

end
