(* ===== verification/SessionRequests.thy ===== *)
theory SessionRequests
  imports SessionFilter Proxy "HOL-Library.Sublist"
begin

text \<open>
  The client's requests on a channel, from its arrival at \<open>handleSshChannel\<close>
  (\<open>internal/sshproxy/proxy.go\<close>) to the target: the choice of the stream and of the request sink, and
  for a session channel the two goroutines that share the work, the loop of the request filter
  (\<open>cmd/nosshtradamus/main.go\<close>) and \<open>reflectRequests\<close>, coupled by the unbuffered channel
  \<open>passthrough\<close>. Both answer the client.
\<close>

section \<open>Setting up\<close>

text \<open>What the client's bytes are copied to: the target's channel or the stream of the filter.\<close>

datatype copy_target = ProxyChan | Wrapped

text \<open>
  The target of the copy, and the session of the request filter when the requests go through one
  (otherwise they go to \<open>reflectRequests\<close>). \<open>chanFilter\<close> is \<open>None\<close> for a nil \<open>ChannelStreamFilter\<close>.
\<close>

definition copy_setup :: "(string \<Rightarrow> session option) option \<Rightarrow> string \<Rightarrow> copy_target \<times> session option"
  where
  "copy_setup chanFilter chanType =
     (case chanFilter of
        None \<Rightarrow> (ProxyChan, None)
      | Some f \<Rightarrow>
          (case f chanType of
             None \<Rightarrow> (ProxyChan, None)
           | Some session \<Rightarrow> (Wrapped, Some session)))"

section \<open>The two goroutines\<close>

text \<open>The filter's loop: receiving from the client; sending on \<open>passthrough\<close>; returned, with it closed.\<close>

datatype sr_filter = FtReceive | FtPass request | FtReturned

text \<open>
  \<open>reflectRequests\<close>: receiving from \<open>passthrough\<close>; with a request, before \<open>SendRequest\<close>; in it; answering
  the client; returned.
\<close>

datatype sr_sink = SkReceive | SkGot request | SkSend request | SkReply request bool | SkReturned

record client_requests =
  sr_input :: "request list"              \<comment> \<open>what the client sends before its channel closes\<close>
  sr_session :: session
  sr_filter :: sr_filter
  sr_sink :: sr_sink
  sr_sent :: "request list"               \<comment> \<open>sent to the target\<close>
  sr_replies :: "(request \<times> bool) list"    \<comment> \<open>answered to the client\<close>

definition sr_start :: "request list \<Rightarrow> session \<Rightarrow> client_requests" where
  "sr_start rs session =
     \<lparr>sr_input = rs, sr_session = session, sr_filter = FtReceive, sr_sink = SkReceive, sr_sent = [],
      sr_replies = []\<rparr>"

text \<open>The filter receives a request, acts on it, answers it or is about to pass it on.\<close>

definition sr_receive :: "filter_config \<Rightarrow> client_requests \<Rightarrow> client_requests option" where
  "sr_receive cfg s =
     (if sr_filter s = FtReceive then
        (case sr_input s of
           [] \<Rightarrow> Some (s\<lparr>sr_filter := FtReturned\<rparr>)
         | r # rs \<Rightarrow>
             (let (session, acts) = filter_request cfg r (sr_session s)
              in Some (s\<lparr>sr_input := rs, sr_session := session,
                         sr_replies := sr_replies s @ map (Pair r) (replied acts),
                         sr_filter := (if forwarded acts = [] then FtReceive
                                       else FtPass (hd (forwarded acts)))\<rparr>)))
      else None)"

text \<open>\<open>passthrough <- request\<close> meets the receive of the other goroutine.\<close>

definition sr_pass :: "client_requests \<Rightarrow> client_requests option" where
  "sr_pass s =
     (case sr_filter s of
        FtPass r \<Rightarrow>
          if sr_sink s = SkReceive
          then Some (s\<lparr>sr_filter := FtReceive, sr_sink := SkGot r\<rparr>)
          else None
      | _ \<Rightarrow> None)"

text \<open>\<open>SendRequest\<close> sends the request, and waits for the answer if one is wanted.\<close>

definition sr_send :: "client_requests \<Rightarrow> client_requests option" where
  "sr_send s =
     (case sr_sink s of
        SkGot r \<Rightarrow> Some (s\<lparr>sr_sink := SkSend r, sr_sent := sr_sent s @ [r]\<rparr>)
      | _ \<Rightarrow> None)"

text \<open>\<open>SendRequest\<close> returns the target's verdict and an error.\<close>

definition sr_answer :: "bool \<Rightarrow> err \<Rightarrow> client_requests \<Rightarrow> client_requests option" where
  "sr_answer ok e s =
     (case sr_sink s of
        SkSend r \<Rightarrow>
          Some (s\<lparr>sr_sink := (if rq_want_reply r then SkReply r (if e \<noteq> None then False else ok)
                              else SkReceive)\<rparr>)
      | _ \<Rightarrow> None)"

definition sr_reply :: "client_requests \<Rightarrow> client_requests option" where
  "sr_reply s =
     (case sr_sink s of
        SkReply r b \<Rightarrow> Some (s\<lparr>sr_sink := SkReceive, sr_replies := sr_replies s @ [(r, b)]\<rparr>)
      | _ \<Rightarrow> None)"

text \<open>The range over the closed \<open>passthrough\<close> ends.\<close>

definition sr_finish :: "client_requests \<Rightarrow> client_requests option" where
  "sr_finish s =
     (if sr_sink s = SkReceive \<and> sr_filter s = FtReturned then Some (s\<lparr>sr_sink := SkReturned\<rparr>)
      else None)"

datatype sr_event = SrReceive | SrPass | SrSend | SrAnswer bool err | SrReply | SrFinish

fun sr_step :: "filter_config \<Rightarrow> sr_event \<Rightarrow> client_requests \<Rightarrow> client_requests option" where
  "sr_step cfg SrReceive s = sr_receive cfg s"
| "sr_step cfg SrPass s = sr_pass s"
| "sr_step cfg SrSend s = sr_send s"
| "sr_step cfg (SrAnswer ok e) s = sr_answer ok e s"
| "sr_step cfg SrReply s = sr_reply s"
| "sr_step cfg SrFinish s = sr_finish s"

lemmas sr_defs = sr_receive_def sr_pass_def sr_send_def sr_answer_def sr_reply_def sr_finish_def

section \<open>What the goroutines hold\<close>

fun passing :: "sr_filter \<Rightarrow> request list" where
  "passing (FtPass r) = [r]" | "passing _ = []"

fun unsent_request :: "sr_sink \<Rightarrow> request list" where
  "unsent_request (SkGot r) = [r]" | "unsent_request _ = []"

text \<open>The request a reply is owed to.\<close>

fun owed :: "sr_sink \<Rightarrow> request list" where
  "owed (SkSend r) = (if rq_want_reply r then [r] else [])"
| "owed (SkReply r b) = [r]"
| "owed _ = []"

abbreviation others :: "request list \<Rightarrow> request list" where
  "others rs \<equiv> filter (\<lambda>r. \<not> own_request r) rs"

text \<open>
  The invariant: what was sent, what is about to be, what is being passed and what is still to come are the client's
  requests for the target; those of them that were answered and the one that is owed an answer are
  those sent that want one.
\<close>

definition sr_inv :: "request list \<Rightarrow> client_requests \<Rightarrow> bool" where
  [inv_defs]: "sr_inv rs s \<longleftrightarrow>
     others rs = sr_sent s @ unsent_request (sr_sink s) @ passing (sr_filter s) @ others (sr_input s) \<and>
     filter rq_want_reply (sr_sent s) = others (map fst (sr_replies s)) @ owed (sr_sink s) \<and>
     (\<forall>r \<in> set (unsent_request (sr_sink s) @ passing (sr_filter s) @ owed (sr_sink s)).
        \<not> own_request r) \<and>
     (\<forall>r \<in> set (sr_sent s). \<not> own_request r) \<and>
     (\<forall>r b. sr_sink s = SkReply r b \<longrightarrow> rq_want_reply r) \<and>
     (sr_filter s = FtReturned \<longrightarrow> sr_input s = []) \<and>
     (sr_sink s = SkReturned \<longrightarrow> sr_filter s = FtReturned)"

lemma sr_inv_start: "sr_inv rs (sr_start rs session)"
  by (simp add: inv_defs sr_start_def)

lemma replied_others: "own_request r \<or> replied (snd (filter_request cfg r s)) = []"
  by (auto simp: filter_request_defs own_request_def split: sum.splits)

lemma sr_inv_receive:
  assumes "sr_inv rs s" and "sr_receive cfg s = Some t"
  shows "sr_inv rs t"
proof (cases "sr_input s")
  case Nil
  then have "t = s\<lparr>sr_filter := FtReturned\<rparr>" "sr_filter s = FtReceive"
    using assms(2) by (auto simp: sr_receive_def split: if_splits)
  then show ?thesis
    using assms(1) Nil by (simp add: inv_defs)
next
  case (Cons r rest)
  define acts where "acts = snd (filter_request cfg r (sr_session s))"
  have filter: "sr_filter s = FtReceive"
    using assms(2) by (simp add: sr_receive_def split: if_splits)
  have fwd: "forwarded acts = (if own_request r then [] else [r])"
    by (simp add: acts_def forwarded_request)
  have rep: "own_request r \<or> replied acts = []"
    unfolding acts_def by (rule replied_others)
  have t: "t = s\<lparr>sr_input := rest, sr_session := fst (filter_request cfg r (sr_session s)),
      sr_replies := sr_replies s @ map (Pair r) (replied acts),
      sr_filter := (if forwarded acts = [] then FtReceive else FtPass (hd (forwarded acts)))\<rparr>"
    using assms(2) Cons by (auto simp: sr_receive_def filter Let_def case_prod_beta acts_def)
  have others: "others (map fst (map (Pair r) (replied acts))) = []"
    using rep by (auto simp: filter_empty_conv)
  show ?thesis
    using assms(1) filter Cons others by (auto simp: t inv_defs fwd)
qed

lemma sr_inv_pass: "sr_inv rs s \<Longrightarrow> sr_pass s = Some t \<Longrightarrow> sr_inv rs t"
  by (auto simp: inv_defs sr_pass_def split: sr_filter.splits if_splits)

lemma sr_inv_send: "sr_inv rs s \<Longrightarrow> sr_send s = Some t \<Longrightarrow> sr_inv rs t"
  by (auto simp: inv_defs sr_send_def split: sr_sink.splits)

lemma sr_inv_answer: "sr_inv rs s \<Longrightarrow> sr_answer ok e s = Some t \<Longrightarrow> sr_inv rs t"
  by (auto simp: inv_defs sr_answer_def split: sr_sink.splits if_splits)

lemma sr_inv_reply: "sr_inv rs s \<Longrightarrow> sr_reply s = Some t \<Longrightarrow> sr_inv rs t"
  by (auto simp: inv_defs sr_reply_def split: sr_sink.splits)

lemma sr_inv_finish: "sr_inv rs s \<Longrightarrow> sr_finish s = Some t \<Longrightarrow> sr_inv rs t"
  by (auto simp: inv_defs sr_finish_def split: if_splits)

lemma sr_inv_step: "sr_inv rs s \<Longrightarrow> sr_step cfg e s = Some t \<Longrightarrow> sr_inv rs t"
  by (cases e)
     (auto intro: sr_inv_receive sr_inv_pass sr_inv_send sr_inv_answer sr_inv_reply sr_inv_finish)

interpretation sr: invariant_machine "\<lambda>s. \<exists>session. s = sr_start rs session" "sr_step cfg" "sr_inv rs"
  for cfg rs
  by unfold_locales (auto simp: sr_inv_start intro: sr_inv_step)

section \<open>Termination\<close>

text \<open>The steps that are left at most.\<close>

definition sr_left :: "client_requests \<Rightarrow> nat" where
  "sr_left s = 5 * length (sr_input s) +
     (case sr_filter s of FtReceive \<Rightarrow> 1 | FtPass _ \<Rightarrow> 5 | FtReturned \<Rightarrow> 0) +
     (case sr_sink s of SkReceive \<Rightarrow> 1 | SkGot _ \<Rightarrow> 4 | SkSend _ \<Rightarrow> 3 | SkReply _ _ \<Rightarrow> 2 | SkReturned \<Rightarrow> 0)"

lemma sr_left_step: "sr_step cfg e s = Some t \<Longrightarrow> sr_left t < sr_left s"
  by (cases e)
     (auto simp: sr_left_def sr_defs Let_def case_prod_beta
       split: if_splits list.splits sr_filter.splits sr_sink.splits)

lemma sr_run_left: "run (sr_step cfg) es s = Some t \<Longrightarrow> length es + sr_left t \<le> sr_left s"
proof (induction es arbitrary: s)
  case (Cons e es)
  then obtain u where u: "sr_step cfg e s = Some u" "run (sr_step cfg) es u = Some t"
    by (auto split: option.splits)
  then show ?case
    using Cons.IH [OF u(2)] sr_left_step [OF u(1)] by simp
qed simp

lemma sr_over: "sr_filter s = FtReturned \<Longrightarrow> sr_sink s = SkReturned \<Longrightarrow> sr_step cfg e s = None"
  by (cases e) (simp_all add: sr_defs)

lemma sr_stuck:
  assumes "sr_inv rs s" and "\<forall>e. sr_step cfg e s = None"
  shows "sr_filter s = FtReturned \<and> sr_sink s = SkReturned"
proof -
  have none: "sr_receive cfg s = None" "sr_pass s = None" "sr_send s = None" "sr_answer True None s = None"
    "sr_reply s = None" "sr_finish s = None"
    using assms(2) [THEN spec, of SrReceive] assms(2) [THEN spec, of SrPass]
      assms(2) [THEN spec, of SrSend]
      assms(2) [THEN spec, of "SrAnswer True None"] assms(2) [THEN spec, of SrReply]
      assms(2) [THEN spec, of SrFinish] by simp_all
  have "sr_filter s \<noteq> FtReceive"
    using none(1) by (auto simp: sr_receive_def case_prod_beta split: list.splits)
  moreover have "sr_sink s = SkReceive \<or> sr_sink s = SkReturned"
    using none(3,4,5) by (cases "sr_sink s") (auto simp: sr_send_def sr_answer_def sr_reply_def)
  ultimately show ?thesis
    using none(2,6) assms(1)
    by (cases "sr_filter s") (auto simp: sr_pass_def sr_finish_def inv_defs)
qed

section \<open>Every request is served\<close>


definition exec_request :: "bool \<Rightarrow> request" where
  "exec_request want = \<lparr>rq_type = ''exec'', rq_want_reply = want, rq_payload = [108, 115]\<rparr>"

definition prefer_always :: request where
  "prefer_always = \<lparr>rq_type = ''nosshtradamus/displayPreference'', rq_want_reply = True,
     rq_payload = [97, 108, 119, 97, 121, 115]\<rparr>"

definition predicting :: filter_config where
  "predicting = \<lparr>fc_noPrediction = False, fc_fakeDelay = 0, fc_printTiming = False\<rparr>"

definition running_session :: session where
  "running_session = \<lparr>ss_activated = True, ss_interposer = True, ss_switched = None\<rparr>"

lemma sample_requests [simp]:
  "rq_want_reply (exec_request want) = want" "\<not> own_request (exec_request want)"
  "rq_want_reply prefer_always" "own_request prefer_always"
  by (simp_all add: own_request_def exec_request_def prefer_always_def)

lemma payload_always: "to_lower (string_of_bytes (rq_payload prefer_always)) = ''always''"
  by code_simp

lemma prefer_always_filtered:
  "filter_request predicting prefer_always running_session =
     (running_session, [PreferenceChanged PredictAlways, Replied True])"
  using payload_always by (simp add: filter_request_defs preference_of_def) 
     (simp add: running_session_def prefer_always_def)

lemma exec_filtered:
  "filter_request predicting (exec_request want) session = (session, [Forwarded (exec_request want)])"
  by (simp add: filter_request_defs exec_request_def)


section \<open>Replies out of order\<close>

text \<open>
  Replies to channel requests carry no identifier: SSH clients match them with their requests by
  their order. What a client makes of the replies written to it:
\<close>

definition client_view :: "request list \<Rightarrow> client_requests \<Rightarrow> (request \<times> bool) list" where
  "client_view rs s = zip (filter rq_want_reply rs) (map snd (sr_replies s))"

text \<open>
  C18. The filter answers its own requests without waiting for the answers to the requests it passed on
  before: for every request \<open>r\<close> for the target and every request \<open>q\<close> of the filter's own after it that
  it answers with \<open>b\<close>, there is a complete schedule in which the answer to \<open>q\<close> overtakes the target's
  answer \<open>ok\<close> to \<open>r\<close>, so the client takes each for the other; and one in which it does not.
\<close>

theorem own_reply_overtakes:
  assumes "\<not> own_request r" and "rq_want_reply r" and "own_request q" and "rq_want_reply q"
    and "replied (snd (filter_request cfg q (fst (filter_request cfg r session)))) = [b]"
  shows "(\<exists>s. run (sr_step cfg) [SrReceive, SrPass, SrSend, SrReceive, SrAnswer ok None, SrReply, SrReceive,
        SrFinish] (sr_start [r, q] session) = Some s \<and>
      sr_replies s = [(q, b), (r, ok)] \<and> client_view [r, q] s = [(r, b), (q, ok)]) \<and>
    (\<exists>s. run (sr_step cfg) [SrReceive, SrPass, SrSend, SrAnswer ok None, SrReply, SrReceive, SrReceive,
        SrFinish] (sr_start [r, q] session) = Some s \<and>
      sr_replies s = [(r, ok), (q, b)] \<and> client_view [r, q] s = [(r, ok), (q, b)])"
proof -
  define t where "t = fst (filter_request cfg r session)"
  have r: "filter_request cfg r session = (t, snd (filter_request cfg r session))"
    by (simp add: t_def)
  have q: "filter_request cfg q t = (fst (filter_request cfg q t), snd (filter_request cfg q t))"
    by simp
  have facts: "forwarded (snd (filter_request cfg r session)) = [r]"
    "replied (snd (filter_request cfg r session)) = []"
    "forwarded (snd (filter_request cfg q t)) = []" "replied (snd (filter_request cfg q t)) = [b]"
    using assms replied_others [of r cfg session] by (simp_all add: forwarded_request t_def)
  show ?thesis
    using facts assms(2,4)
    by (simp add: sr_defs sr_start_def client_view_def case_prod_beta t_def [symmetric])
qed

theorem own_reply_overtakes_witness:
  "\<exists>s. run (sr_step predicting) [SrReceive, SrPass, SrSend, SrReceive, SrAnswer False None, SrReply, SrReceive,
        SrFinish] (sr_start [exec_request True, prefer_always] running_session) = Some s \<and>
      client_view [exec_request True, prefer_always] s =
        [(exec_request True, True), (prefer_always, False)]"
proof -
  have "replied (snd (filter_request predicting prefer_always
      (fst (filter_request predicting (exec_request True) running_session)))) = [True]"
    by (simp add: exec_filtered prefer_always_filtered)
  then show ?thesis
    using own_reply_overtakes [of "exec_request True" prefer_always predicting running_session True False]
    by (auto simp del: run.simps)
qed

end
