(* ===== verification/SessionChannel.thy ===== *)
theory SessionChannel
  imports SessionRequests ChannelCopy
begin

text \<open>
  A session channel as \<open>handleSshChannel\<close> (\<open>internal/sshproxy/proxy.go\<close>) runs it behind the channel
  filter: its four goroutines (theory \<open>ChannelCopy\<close>), one of which calls the request filter with the
  goroutine the filter starts beside itself (theory \<open>SessionRequests\<close>). The filter returns without
  waiting for that goroutine.
\<close>

section \<open>The composition\<close>

text \<open>The channel and the client's requests, when the filter is set and wraps channels of the type.\<close>

definition session_channel ::
  "filter_config \<Rightarrow> string \<Rightarrow> request list \<Rightarrow> (channel \<times> client_requests) option" where
  "session_channel cfg chanType rs =
     (case copy_setup (if filter_set cfg then Some (channel_filter cfg) else None) chanType of
        (target, None) \<Rightarrow> None
      | (target, Some session) \<Rightarrow> Some (channel_start (target = Wrapped), sr_start rs session))"

text \<open>
  The call of the request sink is over, and the goroutine goes on to wait for \<open>clientClosed\<close>, when the
  filter has returned.
\<close>

inductive session_step ::
  "filter_config \<Rightarrow> channel \<times> client_requests \<Rightarrow> channel \<times> client_requests \<Rightarrow> bool" for cfg where
  by_channel: "channel_step c d \<Longrightarrow>
    (ch_upReqs c = RfSink \<Longrightarrow> ch_upReqs d \<noteq> RfSink \<Longrightarrow> sr_filter r = FtReturned) \<Longrightarrow>
    session_step cfg (c, r) (d, r)"
| by_requests: "sr_step cfg e r = Some q \<Longrightarrow> session_step cfg (c, r) (c, q)"

inductive_cases session_stepE: "session_step cfg (c, r) x"

section \<open>Invariant\<close>

definition session_inv :: "request list \<Rightarrow> channel \<times> client_requests \<Rightarrow> bool" where
  [inv_defs]: "session_inv rs x \<longleftrightarrow>
     channel_inv (fst x) \<and> ch_wrapped (fst x) \<and> sr_inv rs (snd x) \<and>
     (ch_upReqs (fst x) \<noteq> RfSink \<longrightarrow> sr_filter (snd x) = FtReturned)"

lemma session_inv_start:
  assumes "session_channel cfg chanType rs = Some x"
  shows "session_inv rs x"
  using assms channel_inv_start [of True] sr_inv_start [of rs]
  by (auto simp: session_channel_def copy_setup_def session_inv_def channel_start_def sr_start_def
      split: option.splits if_splits)

lemma sr_returned_stays: "sr_step cfg e s = Some t \<Longrightarrow> sr_filter s = FtReturned \<Longrightarrow> sr_filter t = FtReturned"
  by (cases e) (auto simp: sr_defs split: sr_sink.splits if_splits)

lemma session_inv_step: "session_step cfg x y \<Longrightarrow> session_inv rs x \<Longrightarrow> session_inv rs y"
proof (induction rule: session_step.induct)
  case (by_channel c d r)
  then have "ch_wrapped d"
    by (auto simp: session_inv_def elim: channel_stepE)
  then show ?case
    using by_channel channel_inv_step [OF by_channel.hyps(1)] by (auto simp: session_inv_def)
next
  case (by_requests e r q c)
  then show ?case
    using sr_inv_step [of rs r cfg e q] sr_returned_stays [of cfg e r q] by (auto simp: session_inv_def)
qed

lemma session_reachable:
  assumes "session_channel cfg chanType rs = Some x" and "(session_step cfg)\<^sup>*\<^sup>* x y"
  shows "session_inv rs y"
  using assms(2) session_inv_start [OF assms(1)]
  by (induction rule: rtranclp_induct) (auto intro: session_inv_step)

section \<open>Termination\<close>

definition session_left :: "channel \<times> client_requests \<Rightarrow> nat" where
  "session_left x = channel_steps (fst x) + sr_left (snd x)"

lemma session_left_step: "session_step cfg x y \<Longrightarrow> session_left y < session_left x"
  by (induction rule: session_step.induct)
     (auto simp: session_left_def dest: channel_step_decreases sr_left_step)

lemma session_left_steps: "(session_step cfg ^^ n) x y \<Longrightarrow> n + session_left y \<le> session_left x"
  by (induction n arbitrary: y) (fastforce dest: session_left_step)+

lemma session_left_start:
  "session_channel cfg chanType rs = Some x \<Longrightarrow> session_left x = 5 * length rs + 16"
  by (auto simp: session_channel_def copy_setup_def session_left_def channel_steps_def channel_start_def
      sr_left_def sr_start_def split: option.splits if_splits)

definition session_over :: "request list \<Rightarrow> channel \<times> client_requests \<Rightarrow> bool" where
  "session_over rs x \<longleftrightarrow> channel_down (fst x) \<and> TargetClose \<in> set (ch_log (fst x)) \<and>
     sr_sent (snd x) = others rs \<and>
     others (map fst (sr_replies (snd x))) = filter rq_want_reply (others rs)"

lemma session_stuck:
  assumes inv: "session_inv rs x" and stuck: "\<nexists>y. session_step cfg x y"
  shows "session_over rs x"
proof -
  obtain c r where x: "x = (c, r)"
    by (cases x)
  have "sr_step cfg e r = None" for e
    using stuck by_requests [of cfg e r _ c] by (cases "sr_step cfg e r") (auto simp: x)
  then have r: "sr_filter r = FtReturned" "sr_sink r = SkReturned"
    using sr_stuck [of rs r cfg] inv by (simp_all add: x session_inv_def)
  then have "\<nexists>d. channel_step c d"
    using stuck by_channel [of c _ r cfg] by (auto simp: x)
  then have down: "channel_down c"
    using channel_step_enabled [of c] inv by (auto simp: x session_inv_def)
  then have "TargetClose \<in> set (ch_log c)"
    using inv by (simp add: x session_inv_def channel_inv_def channel_down_def)
  then show ?thesis
    using inv r down by (simp add: x session_over_def session_inv_def sr_inv_def)
qed

lemma session_ends:
  "session_inv rs x \<Longrightarrow> \<exists>y. (session_step cfg)\<^sup>*\<^sup>* x y \<and> session_over rs y"
proof (induction "session_left x" arbitrary: x rule: less_induct)
  case less
  show ?case
  proof (cases "\<exists>y. session_step cfg x y")
    case True
    then obtain y where y: "session_step cfg x y"
      by blast
    then obtain z where "(session_step cfg)\<^sup>*\<^sup>* y z" "session_over rs z"
      using less.hyps [OF session_left_step] session_inv_step less.prems by blast
    then show ?thesis
      using y by (blast intro: converse_rtranclp_into_rtranclp)
  next
    case False
    then show ?thesis
      using session_stuck [OF less.prems] by blast
  qed
qed



section \<open>The close overtakes a request\<close>

text \<open>
  C19. The filter returns as soon as it has passed the last request on, so the channel to the target can
  be closed before that request is sent: whenever the filter is set, for every last request \<open>r\<close> for the
  target there is a schedule in which \<open>Close\<close> has been called on the target's channel and
  \<open>SendRequest\<close> has not been called for \<open>r\<close>.
\<close>

theorem close_overtakes_last_request:
  assumes "filter_set cfg" and "\<not> own_request r"
  shows "\<exists>x c s. session_channel cfg ''session'' [r] = Some x \<and> (session_step cfg)\<^sup>*\<^sup>* x (c, s) \<and>
    ProxyClose \<in> set (ch_log c) \<and> sr_sink s = SkGot r \<and> sr_sent s = []"
proof -
  obtain session where f: "channel_filter cfg ''session'' = Some session"
    using assms(1) by (simp add: channel_filter_def)
  then have x: "session_channel cfg ''session'' [r] = Some (channel_start True, sr_start [r] session)"
    using assms(1) by (simp add: session_channel_def copy_setup_def)
  let ?q = "snd (filter_request cfg r session)"
  have facts: "forwarded ?q = [r]" "replied ?q = []"
    using assms(2) replied_others [of r cfg session] by (simp_all add: forwarded_request)
  obtain s where s: "run (sr_step cfg) [SrReceive, SrPass, SrReceive] (sr_start [r] session) = Some s"
    and s': "sr_sink s = SkGot r" "sr_sent s = []" "sr_filter s = FtReturned"
    using facts by (simp add: sr_defs sr_start_def case_prod_beta)
  have requests: "run (sr_step cfg) es u = Some v \<Longrightarrow> (session_step cfg)\<^sup>*\<^sup>* (c, u) (c, v)" for es u v c
    by (induction es arbitrary: u)
       (auto split: option.splits intro: by_requests converse_rtranclp_into_rtranclp)
  have channel: "channel_step\<^sup>*\<^sup>* c d \<Longrightarrow> (session_step cfg)\<^sup>*\<^sup>* (c, s) (d, s)" for c d
    by (induction rule: rtranclp_induct)
       (auto intro: by_channel [OF _ s'(3)] rtranclp.rtrancl_into_rtrancl)
  obtain c where c: "channel_step\<^sup>*\<^sup>* (channel_start True) c" "channel_down c"
    using channel_comes_down [OF channel_inv_start] by blast
  have "ProxyClose \<in> set (ch_log c)"
    using channel_reachable [OF c(1)] c(2) unfolding channel_inv_def channel_down_def by blast
  moreover have "(session_step cfg)\<^sup>*\<^sup>* (channel_start True, sr_start [r] session) (c, s)"
    using requests [OF s] channel [OF c(1)] by (rule rtranclp_trans)
  ultimately show ?thesis
    using x s' by blast
qed

theorem close_overtakes_last_request_witness:
  "\<exists>x c s. session_channel predicting ''session'' [exec_request False] = Some x \<and>
    (session_step predicting)\<^sup>*\<^sup>* x (c, s) \<and> ProxyClose \<in> set (ch_log c) \<and> sr_sent s = []"
proof -
  have "filter_set predicting"
    by (simp add: filter_set_def predicting_def)
  then show ?thesis
    using close_overtakes_last_request [of predicting "exec_request False"] by auto
qed

end
