(* ===== verification/UpdateShown.thy ===== *)
theory UpdateShown
  imports TerminalCorrect
begin

text \<open>
  The whole way of an update through the interposer (\<open>internal/predictive/termemu.go\<close>): from
  \<open>upstream.Read\<close> through the emulator, past the acknowledgement of the last epoch, to the reader
  parked in \<open>Read\<close> and the client's screen.
\<close>

section \<open>The goroutine of pullFromUpstream\<close>

text \<open>The events of one iteration of the loop; \<open>replies\<close>: the emulator has something to write back.\<close>

definition pull_round :: "byte list \<Rightarrow> bool \<Rightarrow> ip_event list" where
  "pull_round bs replies =
     [PullRead bs None, PullPerform] @ (if replies then [PullReply None] else []) @
     [PullCheck, PullCopy, PullRecord, PullPut]"

definition after_pull where
  "after_pull M bs m now s =
     (let (reply, em) = emulator_perform M (ip_emulator s) bs
      in s\<lparr>ip_received := ip_received s @ bs, ip_emulator := em,
           ip_pendingRemoteState := emulator_framebuffer M em,
           ip_completeRemoteState := emulator_framebuffer M em,
           ip_replied := ip_replied s @ (if reply \<noteq> [] then [reply] else []),
           ip_reader := RdGot m now None\<rparr>)"

lemma pull_round_run:
  assumes "ip_puller s = PlRead" and "ip_reader s = RdSelect m now" and "\<not> ip_pendingEpoch s"
    and "bs \<noteq> []" and "length bs \<le> 4096"
  shows "run (ip_step M code) (pull_round bs (fst (emulator_perform M (ip_emulator s) bs) \<noteq> [])) s =
    Some (after_pull M bs m now s)"
proof -
  obtain reply em where "emulator_perform M (ip_emulator s) bs = (reply, em)"
    by (rule prod.exhaust)
  then show ?thesis
    using assms
    by (simp add: pull_round_def after_pull_def ip_pull_read_def ip_pull_perform_def ip_pull_reply_def
        ip_pull_check_def ip_pull_copy_def ip_pull_record_def ip_pull_put_def ip_put_err_def)
qed

section \<open>The goroutine of Read\<close>

definition emit_round :: "bool \<Rightarrow> ip_event list" where
  "emit_round rest = [ReadGot, ReadClear, ReadEmit] @ (if rest then [ReadAppend] else [])"

text \<open>What \<open>Read\<close> shows of a framebuffer: the predictions that survive culling on top of it.\<close>

definition overlay :: "('f, 'd, 'e, 'p) mosh \<Rightarrow> 'p \<Rightarrow> 'f \<Rightarrow> 'f" where
  "overlay M p f = (let (p1, f1) = predictor_cull M p f in snd (predictor_apply M p1 f1))"

lemma emit_round_run:
  assumes "ip_reader s = RdGot m now None"
  shows "\<exists>rest t. run (ip_step M code) (emit_round rest) s = Some t \<and>
    ip_localState t = overlay M (ip_predictor s) (ip_completeRemoteState s) \<and>
    (\<exists>frame. ip_frames t = ip_frames s @ [frame] \<and> ip_reader t = RdRet (take m frame) None)"
proof -
  obtain p1 f1 where cull: "predictor_cull M (ip_predictor s) (ip_completeRemoteState s) = (p1, f1)"
    by (rule prod.exhaust)
  obtain p2 f2 where applied: "predictor_apply M p1 f1 = (p2, f2)"
    by (rule prod.exhaust)
  obtain frame d where frame:
    "display_new_frame M (ip_display s) (ip_initialized s) (ip_localState s) f2 = (frame, d)"
    by (rule prod.exhaust)
  have f2: "f2 = overlay M (ip_predictor s) (ip_completeRemoteState s)"
    by (simp add: overlay_def cull applied)
  show ?thesis
  proof (rule exI [of _ "m < length frame"])
    show "\<exists>t. run (ip_step M code) (emit_round (m < length frame)) s = Some t \<and>
        ip_localState t = overlay M (ip_predictor s) (ip_completeRemoteState s) \<and>
        (\<exists>frame. ip_frames t = ip_frames s @ [frame] \<and> ip_reader t = RdRet (take m frame) None)"
      using assms
      by (simp add: emit_round_def ip_read_got_def ip_read_clear_def ip_read_emit_def ip_hand_out_def
          ip_read_append_def ip_return_def ip_pending_write_def cull applied frame f2 [symmetric] Let_def
          min_def)
  qed
qed

section \<open>An update reaches the screen\<close>

text \<open>The acknowledgement of the last epoch, if one is pending.\<close>

definition ack_round :: "('f, 'd, 'e, 'p) interposer \<Rightarrow> int \<Rightarrow> ip_event list" where
  "ack_round s openedAt = (if ip_pendingEpoch s then [CloseEpoch (ip_epoch s) openedAt] else [])"

definition after_ack where
  "after_ack M openedAt s =
     (if ip_pendingEpoch s then ip_close_epoch M (ip_epoch s) openedAt s else s)"

lemma ack_round_run:
  "run (ip_step M code) (ack_round s openedAt) s = Some (after_ack M openedAt s) \<and>
     \<not> ip_pendingEpoch (after_ack M openedAt s) \<and>
     ip_puller (after_ack M openedAt s) = ip_puller s \<and>
     ip_reader (after_ack M openedAt s) = ip_reader s \<and>
     ip_emulator (after_ack M openedAt s) = ip_emulator s \<and>
     ip_frames (after_ack M openedAt s) = ip_frames s"
  by (simp add: ack_round_def after_ack_def ip_close_epoch_def Let_def)


text \<open>A client that has typed and waits: its epoch is acknowledged when the echo comes.\<close>

definition waiting_for_echo :: "ip_event list" where
  "waiting_for_echo =
     [ReadCall 8, ReadEntry, ReadOpen, WriteCall [104], WriteSink 1 None, WriteOpen,
      ReadCall 8, ReadEntry, ReadOpen, ReadError, ReadTime, ReadCheck, ReadClear, ReadEmit,
      IpTick 50000000, ReadCall 8, ReadEntry, ReadOpen,
      ReadError, ReadTime, ReadCheck, ReadPark]"


end
