(* ===== verification/KeyPath.thy ===== *)
theory KeyPath
  imports TerminalCorrect AsynkCorrect IoStreams
begin

text \<open>
  The path of a keystroke: \<open>handleSshChannel\<close> copies the client's bytes with \<open>io.Copy\<close> into the
  interposer, whose \<open>Write\<close> translates them and writes the translation to its asynchronous sink.
  The three parts are composed here as they are in \<open>Interpose\<close> and \<open>handleSshChannel\<close>, for a client's
  goroutine that no other one disturbs; a call that would wait has no result.
\<close>

section \<open>The composition\<close>

text \<open>\<open>Asynk.Write\<close> by the first goroutine of the pool, its sections one after the other.\<close>

definition ak_write_call :: "byte list \<Rightarrow> asynk \<Rightarrow> (asynk \<times> io_result) option" where
  "ak_write_call p a =
     (case run ak_step [WCall 0 p, WEntry 0] a of None \<Rightarrow> None
      | Some b \<Rightarrow>
          (case ak_writers b ! 0 of
             KRet n e \<Rightarrow> Some (b, n, e)
           | _ \<Rightarrow>
               (case run ak_step [WCopy 0, WSelect 0] b of None \<Rightarrow> None
                | Some c \<Rightarrow> (case ak_writers c ! 0 of KRet n e \<Rightarrow> Some (c, n, e) | _ \<Rightarrow> None))))"

text \<open>The sink an interposer makes for its upstream, with a pool of \<open>w\<close> goroutines.\<close>

definition interposer_sink :: "bool \<Rightarrow> nat \<Rightarrow> asynk" where
  "interposer_sink upstreamCloser w = make_asynk upstreamCloser 8192 w"

text \<open>\<open>Interposer.Write\<close> over that sink.\<close>

definition key_write ::
  "('f, 'd, 'e, 'p) mosh \<Rightarrow> (display_preference \<Rightarrow> nat) \<Rightarrow>
    (('f, 'd, 'e, 'p) interposer \<times> asynk) writer" where
  "key_write M code p st =
     (case st of (s, a) \<Rightarrow>
        (case ip_write_call M p s of None \<Rightarrow> None
         | Some s1 \<Rightarrow>
             (case ip_writer s1 of
                WrSend host epoch now \<Rightarrow>
                  (case ak_write_call host a of None \<Rightarrow> None
                   | Some (b, n, e) \<Rightarrow>
                       (case run (ip_step M code) [WriteSink n e, WriteOpen] s1 of None \<Rightarrow> None
                        | Some s2 \<Rightarrow> Some ((s2, b), n, e)))
              | _ \<Rightarrow> None)))"

section \<open>The sink\<close>

text \<open>A healthy sink whose first writer is free, with room for \<open>k\<close> bytes.\<close>

definition sink_ready :: "nat \<Rightarrow> asynk \<Rightarrow> bool" where
  "sink_ready k a \<longleftrightarrow>
     0 < length (ak_writers a) \<and> (ak_writers a ! 0 = KIdle \<or> (\<exists>n e. ak_writers a ! 0 = KRet n e)) \<and>
     ak_bufferIndex a + k \<le> length (ak_buffer a) \<and> ak_upstreamErr a = None \<and>
     \<not> ak_closed a \<and> \<not> ak_panicked a"

lemma sink_ready_start: "0 < w \<Longrightarrow> k \<le> c \<Longrightarrow> sink_ready k (make_asynk u c w)"
  by (simp add: sink_ready_def make_asynk_def)

lemma ak_write_call_fits:
  assumes "sink_ready (length p + k) a"
  shows "\<exists>b. ak_write_call p a = Some (b, length p, None) \<and>
    ak_accepted b = ak_accepted a @ p \<and> ak_notify b \<and> ak_pump b = ak_pump a \<and> sink_ready k b"
  using assms
  by (auto simp: sink_ready_def ak_write_call_def ak_step_def ak_call_def ak_entry_def ak_copy_def
      ak_select_def go_copy_def Let_def)

section \<open>The terminal\<close>

fun emulator_after :: "('f, 'd, 'e, 'p) mosh \<Rightarrow> 'e \<Rightarrow> byte list \<Rightarrow> 'e" where
  "emulator_after M em [] = em"
| "emulator_after M em (b # bs) = emulator_after M (snd (emulator_act_byte M em b)) bs"

lemma translated_append:
  "translated M em (p @ q) = translated M em p @ translated M (emulator_after M em p) q"
  by (induction p arbitrary: em) simp_all

lemma ip_user_bytes_emulator:
  "ip_emulator (snd (ip_user_bytes M bs host s)) = emulator_after M (ip_emulator s) bs"
  by (induction bs arbitrary: host s) (auto simp: Let_def split: prod.splits)

definition writer_free :: "('f, 'd, 'e, 'p) interposer \<Rightarrow> bool" where
  "writer_free s \<longleftrightarrow> ip_writer s = WrIdle \<or> (\<exists>n e. ip_writer s = WrRet n e)"

lemma ip_write_call_host:
  assumes "writer_free s"
  shows "\<exists>t. ip_write_call M p s = Some t \<and> ip_emulator t = emulator_after M (ip_emulator s) p \<and>
    ip_writer t = WrSend (translated M (ip_emulator s) p) (ip_epoch s + 1) (ip_now s)"
proof -
  define s1 where "s1 = (case ip_pendingEpochStarted s of
      None \<Rightarrow> s\<lparr>ip_pendingEpochStarted := Some (ip_now s)\<rparr>
    | Some u \<Rightarrow> s\<lparr>ip_predictor := predictor_send_interval M (ip_predictor s) (ip_now s - u)\<rparr>)"
  obtain host s2 where u: "ip_user_bytes M p [] s1 = (host, s2)"
    by (rule prod.exhaust)
  have s1: "ip_epoch s1 = ip_epoch s" "ip_emulator s1 = ip_emulator s"
    by (simp_all add: s1_def split: option.splits)
  have "host = translated M (ip_emulator s) p"
    using ip_user_bytes_translated [of M p "[]" s1] u s1 by simp
  moreover have "ip_emulator s2 = emulator_after M (ip_emulator s) p"
    using ip_user_bytes_emulator [of M p "[]" s1] u s1 by simp
  ultimately show ?thesis
    using assms u s1 ip_user_bytes_frame [OF u]
    unfolding ip_write_call_def writer_free_def Let_def s1_def [symmetric] by simp
qed

lemma key_write_fits:
  fixes M :: "('f, 'd, 'e, 'p) mosh"
  assumes "writer_free s" and "sink_ready (length (translated M (ip_emulator s) p) + k) a"
  shows "\<exists>t b. key_write M code p (s, a) = Some ((t, b), length (translated M (ip_emulator s) p), None) \<and>
    ak_accepted b = ak_accepted a @ translated M (ip_emulator s) p \<and> ak_notify b \<and>
    ak_pump b = ak_pump a \<and> sink_ready k b \<and> writer_free t \<and>
    ip_emulator t = emulator_after M (ip_emulator s) p"
proof -
  obtain t where t: "ip_write_call M p s = Some t"
    "ip_emulator t = emulator_after M (ip_emulator s) p"
    "ip_writer t = WrSend (translated M (ip_emulator s) p) (ip_epoch s + 1) (ip_now s)"
    using ip_write_call_host [OF assms(1)] by blast
  show ?thesis
    using t ak_write_call_fits [OF assms(2)]
    by (auto simp: key_write_def ip_write_sink_def ip_write_open_def writer_free_def)
qed

text \<open>The events of a client's goroutine inside the sink's \<open>Write\<close>, without waiting.\<close>

fun typing_event :: "ak_event \<Rightarrow> bool" where
  "typing_event (WCall i p) = True" | "typing_event (WEntry i) = True" | "typing_event (WCopy i) = True"
| "typing_event (WSelect i) = True" | "typing_event _ = False"

lemma ak_write_call_runs:
  assumes "ak_write_call p a = Some (b, n, e)"
  shows "runs_to ak_step typing_event a b"
proof -
  obtain b1 where b1: "run ak_step [WCall 0 p, WEntry 0] a = Some b1"
    using assms unfolding ak_write_call_def
    by (cases "run ak_step [WCall 0 p, WEntry 0] a") (simp_all del: run.simps)
  have first: "runs_to ak_step typing_event a b1"
    by (rule runs_toI [OF b1]) simp
  show ?thesis
  proof (cases "run ak_step [WCopy 0, WSelect 0] b1")
    case None
    then show ?thesis
      using assms b1 first unfolding ak_write_call_def by (cases "ak_writers b1 ! 0") (simp_all del: run.simps)
  next
    case (Some c)
    have "b = b1 \<or> b = c"
      using assms b1 Some unfolding ak_write_call_def
      by (cases "ak_writers b1 ! 0"; cases "ak_writers c ! 0") (simp_all del: run.simps)
    moreover have "runs_to ak_step typing_event a c"
      by (rule runs_to_trans [OF first runs_toI [OF Some]]) simp
    ultimately show ?thesis
      using first by (elim disjE) simp_all
  qed
qed

lemma key_write_sink:
  assumes "key_write M code p (s, a) = Some ((t, b), n, e)"
  shows "\<exists>host. ak_write_call host a = Some (b, n, e)"
proof -
  obtain s1 where s1: "ip_write_call M p s = Some s1"
    using assms by (cases "ip_write_call M p s") (auto simp: key_write_def)
  show ?thesis
  proof (cases "ip_writer s1")
    case (WrSend host epoch now)
    then have "ak_write_call host a = Some (b, n, e)"
      using assms s1
      by (cases "ak_write_call host a") (auto simp: key_write_def simp del: run.simps split: option.splits)
    then show ?thesis
      by (rule exI)
  qed (use assms s1 in \<open>simp_all add: key_write_def\<close>)
qed

lemma key_write_runs:
  "key_write M code p (s, a) = Some ((t, b), n, e) \<Longrightarrow> runs_to ak_step typing_event a b"
  using key_write_sink ak_write_call_runs by metis

section \<open>Typing\<close>

lemma translated_length:
  "\<forall>em b. length (fst (emulator_act_byte M em b)) = 1 \<Longrightarrow> length (translated M em p) = length p"
  by (induction p arbitrary: em) simp_all

lemma typing_copy:
  fixes M :: "('f, 'd, 'e, 'p) mosh"
  assumes unit: "\<forall>em b. length (fst (emulator_act_byte M em b)) = 1"
  shows "writer_free s \<Longrightarrow> sink_ready (length (concat bufs)) a \<Longrightarrow>
    \<exists>t b. io_copy (key_write M code) bufs k (s, a) = Some ((t, b), k + length (concat bufs), None) \<and>
      ak_accepted b = ak_accepted a @ translated M (ip_emulator s) (concat bufs) \<and>
      ak_pump b = ak_pump a \<and> runs_to ak_step typing_event a b \<and> sink_ready 0 b \<and>
      (concat bufs \<noteq> [] \<longrightarrow> ak_notify b)"
proof (induction bufs arbitrary: s a k)
  case Nil
  then show ?case
    by (auto intro: runs_to_here)
next
  case (Cons p bufs)
  show ?case
  proof (cases "p = []")
    case True
    then show ?thesis
      using Cons.IH [OF Cons.prems(1), of a k] Cons.prems(2) by simp
  next
    case False
    have len: "length (translated M (ip_emulator s) p) = length p"
      by (rule translated_length [OF unit])
    obtain t1 b1 where w: "key_write M code p (s, a) = Some ((t1, b1), length p, None)"
      and b1: "ak_accepted b1 = ak_accepted a @ translated M (ip_emulator s) p" "ak_notify b1"
        "ak_pump b1 = ak_pump a" "sink_ready (length (concat bufs)) b1" "writer_free t1"
        "ip_emulator t1 = emulator_after M (ip_emulator s) p"
      using key_write_fits [OF Cons.prems(1), of M p "length (concat bufs)" a code] Cons.prems(2) len
      by auto
    obtain t b where IH: "io_copy (key_write M code) bufs (k + length p) (t1, b1) =
        Some ((t, b), k + length p + length (concat bufs), None)"
      "ak_accepted b = ak_accepted b1 @ translated M (ip_emulator t1) (concat bufs)"
      "ak_pump b = ak_pump b1" "runs_to ak_step typing_event b1 b" "sink_ready 0 b"
      "concat bufs \<noteq> [] \<longrightarrow> ak_notify b"
      using Cons.IH [OF b1(5,4), of "k + length p"] by blast
    have copy: "io_copy (key_write M code) (p # bufs) k (s, a) =
        Some ((t, b), k + length (concat (p # bufs)), None)"
      using False w IH(1) by (simp add: Let_def add.assoc)
    have notified: "ak_notify b"
    proof (cases "concat bufs = []")
      case True
      then have "io_copy (key_write M code) bufs (k + length p) (t1, b1) =
          Some ((t1, b1), k + length p, None)"
        by (induction bufs) simp_all
      then show ?thesis
        using IH(1) b1(2) by simp
    qed (use IH(6) in blast)
    show ?thesis
      using copy b1 IH notified runs_to_trans [OF key_write_runs [OF w] IH(4)]
      by (intro exI [of _ t] exI [of _ b]) (simp add: translated_append)
  qed
qed

text \<open>
  Keystrokes reach the sink's upstream in order: when the emulator translates every byte to one byte
  and the sink has room, the copy of the client's chunks ends without error, the sink has accepted
  the translation of all of them, and the next round of the sink hands the upstream exactly that
  after what it had accepted before.
\<close>

theorem typing_reaches_upstream:
  fixes M :: "('f, 'd, 'e, 'p) mosh"
  assumes "\<forall>em b. length (fst (emulator_act_byte M em b)) = 1"
    and "reaches ak_step (make_asynk u c w) a" and "ak_pump a = AkRecv"
    and "writer_free s" and "sink_ready (length (concat bufs)) a" and "concat bufs \<noteq> []"
  shows "\<exists>t b d. io_copy (key_write M code) bufs 0 (s, a) = Some ((t, b), length (concat bufs), None) \<and>
    ak_accepted b = ak_accepted a @ translated M (ip_emulator s) (concat bufs) \<and>
    run ak_step ak_round b = Some d \<and> ak_sent d = ak_accepted b"
proof -
  obtain t b where c: "io_copy (key_write M code) bufs 0 (s, a) =
      Some ((t, b), length (concat bufs), None)"
    and b: "ak_accepted b = ak_accepted a @ translated M (ip_emulator s) (concat bufs)"
      "ak_pump b = AkRecv" "runs_to ak_step typing_event a b" "sink_ready 0 b" "ak_notify b"
    using typing_copy [OF assms(1,4,5), of code 0] assms(3,6) by auto
  have r: "reaches ak_step (make_asynk u c w) b"
    by (rule reaches_trans [OF runs_to_reaches [OF b(3)] assms(2)])
  obtain d where "run ak_step ak_round b = Some d" "ak_sent d = ak_accepted b"
    using ak_round_run [OF r b(5,2)] b(4) by (auto simp: sink_ready_def)
  then show ?thesis
    using c b(1) by blast
qed

theorem typing_reaches_upstream_witness:
  "\<exists>t b d. io_copy (key_write plain_terminal preference_code) [[108, 115], [13]] 0
      (plain_start, make_asynk True 8192 1) = Some ((t, b), 3, None) \<and>
    run ak_step ak_round b = Some d \<and> ak_sent d = [108, 115, 13]"
proof -
  have unit: "\<forall>em b. length (fst (emulator_act_byte plain_terminal em b)) = 1"
    by (simp add: plain_terminal_def)
  have free: "writer_free plain_start"
    by (simp add: writer_free_def plain_start_def interpose_def)
  have ready: "sink_ready (length (concat [[108, 115], [13 :: byte]])) (make_asynk True 8192 1)"
    by (rule sink_ready_start) simp_all
  have same: "translated plain_terminal em [108, 115, 13] = [108, 115, 13]" for em
    by (simp add: plain_terminal_def)
  have start: "ak_pump (make_asynk True 8192 1) = AkRecv" "ak_accepted (make_asynk True 8192 1) = []"
    by (simp_all add: make_asynk_def)
  show ?thesis
    using typing_reaches_upstream [OF unit reaches.here start(1) free ready, of preference_code]
      start(2) same by auto
qed

text \<open>
  C28. A keystroke the emulator does not translate byte by byte ends the typing: \<open>Write\<close> returns the
  sink's count of translated bytes, so for a chunk whose translation is shorter than the chunk the
  copy reports a short write, for a longer one an invalid write, and in both cases no later chunk
  reaches the target.
\<close>

theorem translation_length_ends_typing:
  fixes M :: "('f, 'd, 'e, 'p) mosh"
  assumes "writer_free s" and "sink_ready (length (translated M (ip_emulator s) p)) a"
    and "p \<noteq> []" and "length (translated M (ip_emulator s) p) \<noteq> length p"
  shows "\<exists>t b. io_copy (key_write M code) (p # bufs) 0 (s, a) =
      (if length (translated M (ip_emulator s) p) < length p
       then Some ((t, b), length (translated M (ip_emulator s) p), Some ErrShortWrite)
       else Some ((t, b), 0, Some ErrInvalidWrite)) \<and>
    ak_accepted b = ak_accepted a @ translated M (ip_emulator s) p"
proof -
  obtain t b where "key_write M code p (s, a) =
      Some ((t, b), length (translated M (ip_emulator s) p), None)"
    "ak_accepted b = ak_accepted a @ translated M (ip_emulator s) p"
    using key_write_fits [OF assms(1), of M p 0 a code] assms(2) by auto
  then show ?thesis
    using assms(3,4) by (auto simp: Let_def)
qed

text \<open>A terminal that keeps escape bytes back, as an input filter does at the start of a sequence.\<close>

definition escaping_terminal :: "(byte list, unit, byte list, unit) mosh" where
  "escaping_terminal =
     plain_terminal\<lparr>emulator_act_byte := (\<lambda>em b. (if b = 27 then [] else [b], em))\<rparr>"

theorem translation_length_ends_typing_witness:
  "\<exists>t b. io_copy (key_write escaping_terminal preference_code) [[97, 27], [98]] 0
      (plain_start, make_asynk True 8192 1) = Some ((t, b), 1, Some ErrShortWrite) \<and>
    ak_accepted b = [97]"
proof -
  have tr: "translated escaping_terminal em [97, 27] = [97]" for em
    by (simp add: escaping_terminal_def plain_terminal_def)
  have free: "writer_free plain_start"
    by (simp add: writer_free_def plain_start_def interpose_def)
  have ready: "sink_ready (length (translated escaping_terminal (ip_emulator plain_start) [97, 27]))
      (make_asynk True 8192 1)"
    unfolding tr by (rule sink_ready_start) simp_all
  show ?thesis
    using translation_length_ends_typing [OF free ready, of preference_code "[[98]]"]
    unfolding tr by (auto simp: make_asynk_def)
qed

end
