(* ===== verification/ClosePath.thy ===== *)
theory ClosePath
  imports KeyPath RingDelayCorrect
begin

text \<open>
  Taking a session down: \<open>handleSshChannel\<close> closes the wrapped stream once (theory \<open>ChannelCopy\<close>), which
  is the interposer's \<open>Close\<close>; it closes its sink, the sink closes its upstream (here the delayer, as
  \<open>activateInterposer\<close> puts them together), and the deferred function closes the upstream again.
\<close>

section \<open>The composition\<close>

text \<open>
  \<open>Asynk.Close\<close> over an upstream with a state of its own: the steps up to the upstream's \<open>Close\<close>
  (one fewer when an error is recorded already), that call, and the return. A panic has no result.
\<close>

definition ak_close_call ::
  "('u \<Rightarrow> ('u \<times> err) option) \<Rightarrow> asynk \<times> 'u \<Rightarrow> ((asynk \<times> 'u) \<times> err) option" where
  "ak_close_call closeUpstream st =
     (case st of (a, u) \<Rightarrow>
        (case run ak_step (replicate (if ak_upstreamErr a = None then 4 else 3) (CloseStep None)) a of
           None \<Rightarrow> None
         | Some b \<Rightarrow>
             (case closeUpstream u of None \<Rightarrow> None
              | Some (v, e) \<Rightarrow>
                  (case ak_step (CloseStep e) b of None \<Rightarrow> None
                   | Some c \<Rightarrow> (case ak_closer c of ClRet r \<Rightarrow> Some ((c, v), r) | _ \<Rightarrow> None)))))"

text \<open>\<open>Interposer.Close\<close>: the closing sequence, the sink, and the deferred second \<open>Close\<close>.\<close>

definition session_close ::
  "('f, 'd, 'e, 'p) mosh \<Rightarrow> (display_preference \<Rightarrow> nat) \<Rightarrow> err \<Rightarrow>
    ('f, 'd, 'e, 'p) interposer \<times> asynk \<times> ring_delayer \<Rightarrow>
    ((('f, 'd, 'e, 'p) interposer \<times> asynk \<times> ring_delayer) \<times> err) option" where
  "session_close M code e st =
     (case st of (s, a, r) \<Rightarrow>
        (case run (ip_step M code) (replicate (if ip_opened s then 2 else 1) (CloseCall None)) s of
           None \<Rightarrow> None
         | Some s1 \<Rightarrow>
             (case ak_close_call (rd_close_call e) (a, r) of None \<Rightarrow> None
              | Some ((b, r1), e1) \<Rightarrow>
                  (case rd_close_call e r1 of None \<Rightarrow> None
                   | Some (r2, e2) \<Rightarrow>
                       (case run (ip_step M code) [CloseCall e1, CloseCall None] s1 of None \<Rightarrow> None
                        | Some s2 \<Rightarrow> Some ((s2, b, r2), e1))))))"

section \<open>Its parts\<close>

definition delayer_open :: "ring_delayer \<Rightarrow> bool" where
  "delayer_open r \<longleftrightarrow> rd_closer r = CIdle \<and> rd_termination r = None \<and> \<not> rd_closed r \<and> \<not> rd_panicked r"

definition sink_open :: "asynk \<Rightarrow> bool" where
  "sink_open a \<longleftrightarrow> ak_closer a = ClIdle \<and> ak_upstreamErr a = None \<and> ak_upstreamCloser a \<and>
     \<not> ak_closed a \<and> \<not> ak_panicked a"

lemma rd_close_open:
  assumes "delayer_open r"
  shows "\<exists>t. rd_close_call e r = Some (t, e) \<and> rd_termination t = Some EOF \<and> rd_closed t \<and>
    rd_closer t = CRet e \<and> rd_upstream_closed t \<and> \<not> rd_panicked t \<and>
    rd_close_call x t = Some (t\<lparr>rd_closer := CRet (Some EOF)\<rparr>, Some EOF)"
  using assms
  by (simp add: delayer_open_def rd_close_call_def rd_step_def rd_close_def rd_close_chan_def)

lemma ak_close_open:
  assumes "sink_open a" and "closeUpstream u = Some (v, e)"
  shows "\<exists>b. ak_close_call closeUpstream (a, u) = Some ((b, v), e) \<and> ak_closed b \<and>
    ak_upstreamErr b = Some EOF \<and> ak_upstream_closed b \<and> ak_waiting b = [] \<and> \<not> ak_panicked b \<and>
    ak_closer b = ClRet e"
  using assms
  by (simp add: sink_open_def ak_close_call_def ak_step_def ak_close_step_def cond_broadcast_def
      eval_nat_numeral)

text \<open>A second \<open>Close\<close> of the sink closes the closed channel: the program ends before it returns.\<close>

lemma ak_close_twice:
  assumes "ak_closer b = ClRet x" and "ak_closed b" and "ak_upstreamErr b \<noteq> None"
  shows "ak_close_call closeUpstream (b, u) = None"
  using assms by (auto simp: ak_close_call_def ak_step_def ak_close_step_def eval_nat_numeral)

lemma ip_close_runs:
  assumes "ip_closer s = CsIdle"
  shows "\<exists>t. run (ip_step M code) (replicate (if ip_opened s then 2 else 1) (CloseCall None)) s = Some t \<and>
    ip_closer t = CsSink"
  using assms by (auto simp: ip_close_def ip_close_begin_def eval_nat_numeral split: prod.splits)

section \<open>A session closes once\<close>



end
