(* ===== verification/DelayPath.thy ===== *)
theory DelayPath
  imports AsynkCorrect RingDelayCorrect "HOL-Library.Sublist"
begin

text \<open>
  The asynchronous sink over the delayer, as \<open>activateInterposer\<close> (\<open>cmd/nosshtradamus/main.go\<close>) and
  \<open>Interpose\<close> put them together when there is a delay: the sink's goroutine (\<open>asynk.go\<close>) is a writer
  of the delayer (\<open>delay.go\<close>), the first of its pool; the other writers of the pool are the
  interposer's own goroutine, which writes the replies of the emulator to the delayer directly.
\<close>

section \<open>The composition\<close>

record delayed_sink =
  dp_sink :: asynk
  dp_delayer :: ring_delayer
  dp_stored :: "(bool \<times> byte list) list"  \<comment> \<open>the buffers the delayer has stored; from the sink?\<close>

definition dp_start :: "asynk \<Rightarrow> ring_delayer \<Rightarrow> delayed_sink" where
  "dp_start a r = \<lparr>dp_sink = a, dp_delayer = r, dp_stored = []\<rparr>"

text \<open>
  \<open>_, asynk.upstreamErr = upstream.Write(...)\<close>: the call enters the delayer's \<open>Write\<close> with the bytes
  the sink hands over, and the assignment happens when that \<open>Write\<close> has returned, with its error.
\<close>

definition dp_hand :: "delayed_sink \<Rightarrow> delayed_sink option" where
  "dp_hand s =
     (case ak_step PUpstreamWrite (dp_sink s) of
        None \<Rightarrow> None
      | Some a \<Rightarrow>
          if ak_panicked a then Some (s\<lparr>dp_sink := a\<rparr>)
          else map_option (\<lambda>r. s\<lparr>dp_sink := a, dp_delayer := r\<rparr>)
            (rd_step (Write 0 (drop (length (ak_sent (dp_sink s))) (ak_sent a))) (dp_delayer s)))"

definition dp_return :: "delayed_sink \<Rightarrow> delayed_sink option" where
  "dp_return s =
     (case rd_writers (dp_delayer s) ! 0 of
        WRet n e \<Rightarrow> map_option (\<lambda>a. s\<lparr>dp_sink := a\<rparr>) (ak_step (PResult e) (dp_sink s))
      | _ \<Rightarrow> None)"

text \<open>Every other event of the sink.\<close>

definition dp_sink_step :: "ak_event \<Rightarrow> delayed_sink \<Rightarrow> delayed_sink option" where
  "dp_sink_step e s =
     (if e = PUpstreamWrite \<or> (\<exists>x. e = PResult x) then None
      else map_option (\<lambda>a. s\<lparr>dp_sink := a\<rparr>) (ak_step e (dp_sink s)))"

text \<open>
  Every event of the delayer except the entry of the sink's goroutine into \<open>Write\<close>; what it stores is
  recorded.
\<close>

definition dp_delayer_step :: "rd_event \<Rightarrow> delayed_sink \<Rightarrow> delayed_sink option" where
  "dp_delayer_step e s =
     (if \<exists>p. e = Write 0 p then None
      else map_option
        (\<lambda>r. s\<lparr>dp_delayer := r,
               dp_stored := dp_stored s @ map (\<lambda>x. (e = Put 0, snd x))
                 (drop (length (rd_accepted (dp_delayer s))) (rd_accepted r))\<rparr>)
        (rd_step e (dp_delayer s)))"

text \<open>
  A panic of either ends the program. \<open>Close\<close> of the sink and of the delayer are events that may come
  at any time, which allows more schedules than the code has.
\<close>

datatype dp_event = DpHand | DpReturn | DpSink ak_event | DpDelayer rd_event

definition dp_step :: "dp_event \<Rightarrow> delayed_sink \<Rightarrow> delayed_sink option" where
  "dp_step e s =
     (if ak_panicked (dp_sink s) \<or> rd_panicked (dp_delayer s) then None
      else (case e of
              DpHand \<Rightarrow> dp_hand s
            | DpReturn \<Rightarrow> dp_return s
            | DpSink f \<Rightarrow> dp_sink_step f s
            | DpDelayer f \<Rightarrow> dp_delayer_step f s))"

section \<open>The link\<close>

text \<open>What a goroutine inside the delayer's \<open>Write\<close> has still to store.\<close>

fun held :: "rd_writer \<Rightarrow> byte list" where
  "held (WPut st p) = p" | "held (WSleep st p) = p" | "held _ = []"

lemma held_release: "held (rd_release w) = held w"
  by (cases w) simp_all

lemma held_signal:
  assumes "cond_signal rd_release k wt ws = Some (wt', ws')"
  shows "held (ws' ! 0) = held (ws ! 0)"
proof -
  have "held (ws[i := rd_release (ws ! i)] ! 0) = held (ws ! 0)" for i
    by (cases ws; cases i) (simp_all add: held_release)
  then show ?thesis
    using assms by (auto simp: cond_signal_def split: if_splits)
qed

lemma rd_signal_held:
  "rd_signal k s = Some t \<Longrightarrow> held (rd_writers t ! 0) = held (rd_writers s ! 0) \<and>
     rd_accepted t = rd_accepted s \<and> rd_termination t = rd_termination s"
  by (auto simp: rd_signal_def dest: held_signal)

lemma rd_remove_held:
  "rd_remove k b s = Some t \<Longrightarrow> held (rd_writers t ! 0) = held (rd_writers s ! 0) \<and>
     rd_accepted t = rd_accepted s \<and> rd_termination t = rd_termination s"
  by (auto simp: rd_remove_def ring_pop_def dest: rd_signal_held)

lemma rd_result_held:
  "rd_result e s = Some t \<Longrightarrow> rd_writers t = rd_writers s \<and> rd_accepted t = rd_accepted s \<and>
     (rd_termination s \<noteq> None \<longrightarrow> rd_termination t \<noteq> None)"
  by (auto simp: rd_result_def rd_close_chan_def split: if_splits option.splits)

lemma rd_close_held:
  "rd_close e s = Some t \<Longrightarrow> rd_writers t = rd_writers s \<and> rd_accepted t = rd_accepted s \<and>
     (rd_termination s \<noteq> None \<longrightarrow> rd_termination t \<noteq> None)"
  by (auto simp: rd_close_def rd_close_chan_def split: if_splits rd_closer.splits)

lemma held_update: "i \<noteq> 0 \<Longrightarrow> held (ws[i := w] ! 0) = held (ws ! 0)"
  by simp

lemma rd_writer_held:
  assumes "rd_write i p s = Some t \<and> i \<noteq> 0 \<or> rd_check i s = Some t \<or> rd_send i s = Some t \<or>
    rd_return i s = Some t"
  shows "held (rd_writers t ! 0) = held (rd_writers s ! 0) \<and> rd_accepted t = rd_accepted s \<and>
    rd_termination t = rd_termination s"
  using assms
  by (cases "i = 0"; cases "rd_writers s ! i")
     (auto simp: rd_write_def rd_check_def rd_send_def rd_return_def split: if_splits)

text \<open>
  An event of the delayer other than the entry of the first writer: either it stores nothing and
  leaves what that writer holds, or it stores the buffer of one writer, which then holds nothing.
\<close>

lemma rd_put_held:
  assumes "rd_put i s = Some t"
  shows "rd_termination t = rd_termination s \<and>
    ((rd_accepted t = rd_accepted s \<and> held (rd_writers t ! 0) = held (rd_writers s ! 0)) \<or>
     (\<exists>st p. i < length (rd_writers s) \<and> rd_accepted t = rd_accepted s @ [(st, p)] \<and>
        (if i = 0 then held (rd_writers s ! 0) = p \<and> held (rd_writers t ! 0) = []
         else held (rd_writers t ! 0) = held (rd_writers s ! 0))))"
proof -
  obtain st p where i: "i < length (rd_writers s)" "rd_writers s ! i = WPut st p"
    using assms by (auto simp: rd_put_def split: if_splits rd_writer.splits)
  have "0 < length (rd_writers s)"
    using i(1) by (cases "rd_writers s") auto
  then show ?thesis
    using assms i by (cases "i = 0") (auto simp: rd_put_def ring_put_def split: if_splits)
qed

lemma rd_step_held:
  assumes "rd_step e s = Some t" and "\<nexists>p. e = Write 0 p"
  shows "(rd_termination s \<noteq> None \<longrightarrow> rd_termination t \<noteq> None) \<and>
    ((rd_accepted t = rd_accepted s \<and> held (rd_writers t ! 0) = held (rd_writers s ! 0)) \<or>
     (\<exists>i st p. e = Put i \<and> i < length (rd_writers s) \<and> rd_accepted t = rd_accepted s @ [(st, p)] \<and>
        (if i = 0 then held (rd_writers s ! 0) = p \<and> held (rd_writers t ! 0) = []
         else held (rd_writers t ! 0) = held (rd_writers s ! 0))))"
proof -
  have d: "rd_dispatch e s = Some t"
    using assms(1) by (simp add: rd_step_def split: if_splits)
  show ?thesis
  proof (cases e)
    case (Put i)
    then show ?thesis
      using rd_put_held [of i s t] d by auto
  next
    case (Write i p)
    then show ?thesis
      using rd_writer_held [of i p s t] d assms(2) by auto
  next
    case (Check i)
    then show ?thesis
      using rd_writer_held [of i undefined s t] d by auto
  next
    case (Send i)
    then show ?thesis
      using rd_writer_held [of i undefined s t] d by auto
  next
    case (Return i)
    then show ?thesis
      using rd_writer_held [of i undefined s t] d by auto
  next
    case (Inspect k)
    then show ?thesis
      using d by (auto simp: rd_inspect_def Let_def split: if_splits dest: rd_remove_held)
  next
    case (Awake k)
    then show ?thesis
      using d by (auto simp: rd_awake_def split: if_splits rd_pump.splits dest: rd_remove_held)
  next
    case (Result x)
    then show ?thesis
      using rd_result_held [of x s t] d by auto
  next
    case (Close x)
    then show ?thesis
      using rd_close_held [of x s t] d by auto
  qed (use d in \<open>auto simp: rd_take_def rd_upstream_write_def rd_callback_def rd_fire_def
      split: if_splits rd_pump.splits\<close>)
qed

lemma ak_step_sent:
  assumes "ak_step e s = Some t" and "e \<noteq> PUpstreamWrite"
  shows "ak_sent t = ak_sent s"
proof -
  have d: "ak_dispatch e s = Some t"
    using assms(1) by (simp add: ak_step_def split: if_splits)
  show ?thesis
  proof (cases e)
    case (WCopy i)
    then show ?thesis
      using d by (auto simp: ak_copy_def case_prod_beta Let_def split: if_splits ak_writer.splits)
  next
    case (CloseStep r)
    then show ?thesis
      using d by (auto simp: ak_close_step_def case_prod_beta Let_def split: if_splits ak_closer.splits)
  qed (use d assms(2) in \<open>auto simp: ak_take_def ak_read_index_def ak_result_def ak_check_err_def
      ak_finish_def ak_call_def ak_entry_def ak_select_def ak_wait_def case_prod_beta Let_def
      split: if_splits ak_pump.splits ak_writer.splits\<close>)
qed

section \<open>The invariant\<close>

text \<open>The bytes of the sink among stored buffers.\<close>

definition from_sink :: "(bool \<times> byte list) list \<Rightarrow> byte list" where
  "from_sink bs = concat (map snd (filter fst bs))"

lemma from_sink_append [simp]: "from_sink (as @ bs) = from_sink as @ from_sink bs"
  by (simp add: from_sink_def)

lemma from_sink_simps [simp]:
  "from_sink [] = []" "from_sink ((b, p) # bs) = (if b then p else []) @ from_sink bs"
  by (simp_all add: from_sink_def)

text \<open>
  Both components are in states they can reach on their own; the record of what was stored is
  right; and the bytes of the sink that are stored or held by its goroutine inside \<open>Write\<close> are a prefix of
  what the sink has handed over, all of it unless the delayer has been terminated.
\<close>

definition dp_inv :: "bool \<times> nat \<times> nat \<Rightarrow> int \<times> nat \<times> int \<times> nat \<Rightarrow> delayed_sink \<Rightarrow> bool" where
  [inv_defs]: "dp_inv ak rd s \<longleftrightarrow>
     (case ak of (c, cap, w) \<Rightarrow> reaches ak_step (make_asynk c cap w) (dp_sink s)) \<and>
     (case rd of (d, n, t, w) \<Rightarrow> reaches rd_step (ring_delay d n t w) (dp_delayer s)) \<and>
     map snd (dp_stored s) = map snd (rd_accepted (dp_delayer s)) \<and>
     prefix (from_sink (dp_stored s) @ held (rd_writers (dp_delayer s) ! 0)) (ak_sent (dp_sink s)) \<and>
     (rd_termination (dp_delayer s) = None \<longrightarrow>
        ak_sent (dp_sink s) = from_sink (dp_stored s) @ held (rd_writers (dp_delayer s) ! 0))"

lemma dp_inv_start:
  assumes "0 < w2"
  shows "dp_inv (c, cap, w) (d, n, t, w2) (dp_start (make_asynk c cap w) (ring_delay d n t w2))"
  using assms by (simp add: inv_defs dp_start_def reaches.here) (simp add: make_asynk_def ring_delay_def)

lemma dp_reach:
  assumes "case ak of (c, cap, w) \<Rightarrow> reaches ak_step (make_asynk c cap w) a" and "ak_step e a = Some b"
  shows "case ak of (c, cap, w) \<Rightarrow> reaches ak_step (make_asynk c cap w) b"
  using assms by (auto intro: reaches.move)

lemma dp_reach_delayer:
  assumes "case rd of (d, n, t, w) \<Rightarrow> reaches rd_step (ring_delay d n t w) r" and "rd_step e r = Some q"
  shows "case rd of (d, n, t, w) \<Rightarrow> reaches rd_step (ring_delay d n t w) q"
  using assms by (auto intro: reaches.move)

lemma dp_inv_sink:
  assumes "dp_inv ak rd s" and "ak_step e (dp_sink s) = Some a" and "ak_sent a = ak_sent (dp_sink s)"
  shows "dp_inv ak rd (s\<lparr>dp_sink := a\<rparr>)"
  using assms dp_reach [OF _ assms(2), of ak] by (simp add: inv_defs)

lemma rd_write_first:
  assumes "rd_step (Write 0 p) r = Some q"
  shows "held (rd_writers r ! 0) = [] \<and> rd_accepted q = rd_accepted r \<and>
    rd_termination q = rd_termination r \<and>
    held (rd_writers q ! 0) = (if rd_termination r = None then p else [])"
  using assms by (auto simp: rd_step_def rd_write_def split: if_splits rd_writer.splits)

lemma dp_inv_hand:
  assumes inv: "dp_inv ak rd s" and "dp_hand s = Some t"
  shows "dp_inv ak rd t"
proof -
  obtain a where a: "ak_step PUpstreamWrite (dp_sink s) = Some a"
    using assms(2) by (auto simp: dp_hand_def split: option.splits)
  obtain x where x: "ak_sent a = ak_sent (dp_sink s) @ x"
    using ak_step_streams [OF a] by blast
  show ?thesis
  proof (cases "ak_panicked a")
    case True
    then have "t = s\<lparr>dp_sink := a\<rparr>" and "ak_sent a = ak_sent (dp_sink s)"
      using assms(2) a
      by (auto simp: dp_hand_def ak_step_def ak_upstream_write_def split: if_splits ak_pump.splits)
    then show ?thesis
      using dp_inv_sink [OF inv a] by simp
  next
    case False
    then obtain r where r: "rd_step (Write 0 x) (dp_delayer s) = Some r"
      and t: "t = s\<lparr>dp_sink := a, dp_delayer := r\<rparr>"
      using assms(2) a x by (auto simp: dp_hand_def)
    show ?thesis
      using inv dp_reach [OF _ a, of ak] dp_reach_delayer [OF _ r, of rd] rd_write_first [OF r] x
      by (auto simp: inv_defs t)
  qed
qed

lemma dp_inv_delayer:
  assumes inv: "dp_inv ak rd s" and "dp_delayer_step e s = Some t"
  shows "dp_inv ak rd t"
proof -
  obtain r where r: "rd_step e (dp_delayer s) = Some r" and e: "\<nexists>p. e = Write 0 p"
    and t: "t = s\<lparr>dp_delayer := r, dp_stored := dp_stored s @ map (\<lambda>x. (e = Put 0, snd x))
      (drop (length (rd_accepted (dp_delayer s))) (rd_accepted r))\<rparr>"
    using assms(2) by (auto simp: dp_delayer_step_def split: if_splits)
  show ?thesis
    using inv dp_reach_delayer [OF _ r, of rd] rd_step_held [OF r e]
    by (auto simp: inv_defs t split: if_splits)
qed

lemma dp_inv_step:
  assumes inv: "dp_inv ak rd s" and "dp_step e s = Some t"
  shows "dp_inv ak rd t"
proof (cases e)
  case DpHand
  then show ?thesis
    using assms dp_inv_hand [OF inv] by (simp add: dp_step_def split: if_splits)
next
  case DpReturn
  then obtain n x a where "ak_step (PResult x) (dp_sink s) = Some a" "t = s\<lparr>dp_sink := a\<rparr>"
    using assms(2) by (auto simp: dp_step_def dp_return_def split: if_splits rd_writer.splits)
  then show ?thesis
    using dp_inv_sink [OF inv] ak_step_sent by blast
next
  case (DpSink f)
  then obtain a where "ak_step f (dp_sink s) = Some a" "t = s\<lparr>dp_sink := a\<rparr>" "f \<noteq> PUpstreamWrite"
    using assms(2) by (auto simp: dp_step_def dp_sink_step_def split: if_splits)
  then show ?thesis
    using dp_inv_sink [OF inv] ak_step_sent by blast
next
  case (DpDelayer f)
  then show ?thesis
    using assms dp_inv_delayer [OF inv] by (simp add: dp_step_def split: if_splits)
qed

definition dp_begin :: "bool \<times> nat \<times> nat \<Rightarrow> int \<times> nat \<times> int \<times> nat \<Rightarrow> delayed_sink \<Rightarrow> bool" where
  "dp_begin ak rd s \<longleftrightarrow>
     (\<exists>c cap w d n t w2. ak = (c, cap, w) \<and> rd = (d, n, t, w2) \<and> 0 < w2 \<and>
        s = dp_start (make_asynk c cap w) (ring_delay d n t w2))"

interpretation dp: invariant_machine "dp_begin ak rd" dp_step "dp_inv ak rd" for ak rd
  by unfold_locales (auto simp: dp_begin_def dp_inv_start intro: dp_inv_step)

section \<open>Delivery\<close>

lemma from_sink_prefix: "prefix (from_sink (take k bs)) (from_sink bs)"
  by (metis append_take_drop_id from_sink_append prefixI)

text \<open>
  C5. What a user types leaves the delayer in order: whatever the schedule of sink, delayer, other
  writers and closes, the buffers handed to the delayer's upstream are the stored ones in the order
  of their storing, none before its send time, and those of them that are the sink's make up a
  prefix of the bytes the sink has accepted; while nothing has terminated the delayer, what is
  missing is in the sink's buffer, in the hands of its goroutine or in the ring.
\<close>

theorem delayed_stream_in_order:
  assumes "0 < n" and "0 < w2"
    and "reaches dp_step (dp_start (make_asynk c cap w) (ring_delay d n t w2)) s"
  shows "(let k = length (rd_delivered (dp_delayer s)) in
      map snd (rd_delivered (dp_delayer s)) = map (Some \<circ> snd) (take k (dp_stored s)) \<and>
      list_all2 (\<lambda>sent stored. fst stored \<le> fst sent) (rd_delivered (dp_delayer s))
        (take k (rd_accepted (dp_delayer s))) \<and>
      prefix (from_sink (take k (dp_stored s))) (ak_accepted (dp_sink s)) \<and>
      (rd_termination (dp_delayer s) = None \<longrightarrow>
         ak_accepted (dp_sink s) = from_sink (take k (dp_stored s)) @ from_sink (drop k (dp_stored s)) @
           held (rd_writers (dp_delayer s) ! 0) @ snd (ak_pipe (dp_sink s))))"
proof -
  let ?k = "length (rd_delivered (dp_delayer s))"
  have inv: "dp_inv (c, cap, w) (d, n, t, w2) s"
    by (rule dp.reachable_inv [OF _ assms(3)]) (use assms(2) in \<open>auto simp: dp_begin_def\<close>)
  have rd: "reaches rd_step (ring_delay d n t w2) (dp_delayer s)"
    and ak: "reaches ak_step (make_asynk c cap w) (dp_sink s)"
    and st: "map snd (dp_stored s) = map snd (rd_accepted (dp_delayer s))"
    and pre: "prefix (from_sink (dp_stored s) @ held (rd_writers (dp_delayer s) ! 0)) (ak_sent (dp_sink s))"
    and eq: "rd_termination (dp_delayer s) = None \<longrightarrow>
      ak_sent (dp_sink s) = from_sink (dp_stored s) @ held (rd_writers (dp_delayer s) ! 0)"
    using inv by (simp_all add: inv_defs)
  have acc: "ak_accepted (dp_sink s) = ak_sent (dp_sink s) @ snd (ak_pipe (dp_sink s))"
    using ak_pipe_held [OF ak_reachable [OF ak]] by (simp add: ak_pipe_def)
  have inv_d: "inv_data (dp_delayer s)"
    using rd_reachable [OF assms(1) rd] by (simp add: rd_inv_def)
  have del: "map snd (rd_delivered (dp_delayer s)) = map (Some \<circ> snd) (take ?k (rd_accepted (dp_delayer s)))"
    using inv_d by (auto simp: inv_data_def intro!: nth_equalityI)
  have times: "list_all2 (\<lambda>sent stored. fst stored \<le> fst sent) (rd_delivered (dp_delayer s))
      (take ?k (rd_accepted (dp_delayer s)))"
    using inv_d by (auto simp: inv_data_def list_all2_conv_all_nth)
  have "map (Some \<circ> snd) (take ?k (dp_stored s)) = map (Some \<circ> snd) (take ?k (rd_accepted (dp_delayer s)))"
    using st by (metis (no_types) map_map take_map)
  then have "map snd (rd_delivered (dp_delayer s)) = map (Some \<circ> snd) (take ?k (dp_stored s))"
    using del by simp
  moreover have "prefix (from_sink (take ?k (dp_stored s))) (ak_accepted (dp_sink s))"
    using from_sink_prefix [of ?k "dp_stored s"] pre acc
    by (metis prefix_order.trans prefixI append_prefixD)
  moreover have "ak_accepted (dp_sink s) = from_sink (take ?k (dp_stored s)) @
      from_sink (drop ?k (dp_stored s)) @ held (rd_writers (dp_delayer s) ! 0) @ snd (ak_pipe (dp_sink s))"
    if "rd_termination (dp_delayer s) = None"
    using eq that acc from_sink_append [of "take ?k (dp_stored s)" "drop ?k (dp_stored s)"] by simp
  ultimately show ?thesis
    using times by (simp add: Let_def)
qed

text \<open>Two keystrokes through a sink of eight bytes and a delay of five.\<close>

definition delayed_typing :: "dp_event list" where
  "delayed_typing =
     map DpSink [WCall 0 [97, 98], WEntry 0, WCopy 0, WSelect 0, PTake, PReadIndex] @ [DpHand] @
     map DpDelayer [Put 0, Check 0, Send 0, Return 0] @ [DpReturn] @
     map DpDelayer [Take, Inspect 0, Tick 7, Awake 0, UpstreamWrite]"

theorem delayed_stream_in_order_witness:
  "\<exists>s. run dp_step delayed_typing (dp_start (make_asynk True 8 1) (ring_delay 5 2 0 1)) = Some s \<and>
    rd_delivered (dp_delayer s) = [(7, Some [97, 98])] \<and> ak_accepted (dp_sink s) = [97, 98] \<and>
    prefix (from_sink (dp_stored s)) (ak_accepted (dp_sink s))"
proof -
  obtain s where s: "run dp_step delayed_typing (dp_start (make_asynk True 8 1) (ring_delay 5 2 0 1)) =
      Some s"
    and v: "rd_delivered (dp_delayer s) = [(7, Some [97, 98])]" "ak_accepted (dp_sink s) = [97, 98]"
      "dp_stored s = [(True, [97, 98])]"
    by (simp add: delayed_typing_def dp_step_def dp_start_def dp_hand_def dp_return_def dp_sink_step_def
        dp_delayer_step_def ak_step_defs rd_step_defs Let_def eval_nat_numeral)
  show ?thesis
    using s v delayed_stream_in_order [OF _ _ run_reaches [OF s]] by (simp add: Let_def)
qed

end
