(* ===== verification/DelayDrains.thy ===== *)
theory DelayDrains
  imports DelayPath
begin

text \<open>
  Progress of the asynchronous sink over the delayer: with no call from outside, everything the
  sink has accepted gets to the delayer's upstream. The delayer has one writer, the sink's
  goroutine: the emulator of the interposer writes nothing back.
\<close>

section \<open>The sink's goroutine inside the delayer\<close>

definition outside :: "rd_writer \<Rightarrow> bool" where
  "outside w \<longleftrightarrow> w = WIdle \<or> (\<exists>n e. w = WRet n e)"

text \<open>
  What an event of the delayer other than the entry of the first writer does to that writer: outside
  \<open>Write\<close> nothing; inside, it stays inside or returns, with an error only after termination.
\<close>

definition writer_moves :: "ring_delayer \<Rightarrow> ring_delayer \<Rightarrow> bool" where
  "writer_moves r q \<longleftrightarrow>
     length (rd_writers q) = length (rd_writers r) \<and>
     (outside (rd_writers r ! 0) \<longrightarrow> rd_writers q ! 0 = rd_writers r ! 0) \<and>
     (\<not> outside (rd_writers r ! 0) \<longrightarrow> rd_writers q ! 0 \<noteq> WIdle \<and>
        (\<forall>n e. rd_writers q ! 0 = WRet n e \<longrightarrow> e = None \<or> rd_termination q \<noteq> None))"

lemma writer_moves_same: "rd_writers q = rd_writers r \<Longrightarrow> writer_moves r q"
  by (auto simp: writer_moves_def outside_def)

lemma writer_moves_signal:
  assumes "rd_signal k r = Some q"
  shows "writer_moves r q"
proof -
  have release: "writer_moves r q"
    if "rd_writers q = (rd_writers r)[i := rd_release (rd_writers r ! i)]" for i
    using that
    by (cases "rd_writers r"; cases i; cases "rd_writers r ! 0")
       (auto simp: writer_moves_def outside_def)
  show ?thesis
    using assms release writer_moves_same [of q r]
    by (auto simp: rd_signal_def cond_signal_def split: if_splits)
qed

lemma writer_moves_remove:
  assumes "rd_remove k b r = Some q"
  shows "writer_moves r q"
proof -
  obtain t where "rd_signal k (ring_pop r) = Some t" and q: "q = t\<lparr>rd_pump := PumpWrite b\<rparr>"
    using assms by (auto simp: rd_remove_def)
  then have "writer_moves (ring_pop r) t"
    using writer_moves_signal by blast
  then show ?thesis
    by (simp add: writer_moves_def q ring_pop_def)
qed

lemma writer_moves_section:
  assumes "rd_write i p r = Some q \<and> i \<noteq> 0 \<or> rd_put i r = Some q \<or> rd_check i r = Some q \<or>
    rd_send i r = Some q \<or> rd_return i r = Some q"
  shows "writer_moves r q"
proof (cases "i = 0")
  case True
  then have "rd_writers r \<noteq> []"
    using assms
    by (auto simp: rd_put_def rd_check_def rd_send_def rd_return_def split: if_splits)
  then show ?thesis
    using assms True
    by (cases "rd_writers r ! 0")
       (auto simp: writer_moves_def outside_def rd_put_def ring_put_def rd_check_def rd_send_def
         rd_return_def split: if_splits)
next
  case False
  then show ?thesis
    using assms
    by (cases "rd_writers r ! i")
       (auto simp: writer_moves_def outside_def rd_write_def rd_put_def ring_put_def rd_check_def
         rd_send_def rd_return_def split: if_splits)
qed

lemma rd_step_writer:
  assumes "rd_step e r = Some q" and "\<nexists>p. e = Write 0 p"
  shows "writer_moves r q"
proof -
  have d: "rd_dispatch e r = Some q"
    using assms(1) by (simp add: rd_step_def split: if_splits)
  show ?thesis
  proof (cases e)
    case (Write i p)
    then show ?thesis
      using d assms(2) by (intro writer_moves_section [of i p]) auto
  next
    case (Put i)
    then show ?thesis
      using d by (intro writer_moves_section [of i undefined]) auto
  next
    case (Check i)
    then show ?thesis
      using d by (intro writer_moves_section [of i undefined]) auto
  next
    case (Send i)
    then show ?thesis
      using d by (intro writer_moves_section [of i undefined]) auto
  next
    case (Return i)
    then show ?thesis
      using d by (intro writer_moves_section [of i undefined]) auto
  next
    case (Inspect k)
    then show ?thesis
      using d by (auto simp: rd_inspect_def Let_def split: if_splits
          intro: writer_moves_same writer_moves_remove)
  next
    case (Awake k)
    then show ?thesis
      using d by (auto simp: rd_awake_def split: if_splits rd_pump.splits intro: writer_moves_remove)
  next
    case (Result x)
    then show ?thesis
      using rd_result_held [of x r q] d by (auto intro: writer_moves_same)
  next
    case (Close x)
    then show ?thesis
      using rd_close_held [of x r q] d by (auto intro: writer_moves_same)
  qed (use d in \<open>auto simp: rd_take_def rd_upstream_write_def rd_callback_def rd_fire_def
      split: if_splits rd_pump.splits intro: writer_moves_same\<close>)
qed

section \<open>A write into the delayer returns\<close>

lemma rd_internal_termination:
  assumes "rd_step e r = Some q" and "rd_internal e"
  shows "rd_termination q = rd_termination r"
proof -
  have d: "rd_dispatch e r = Some q"
    using assms(1) by (simp add: rd_step_def split: if_splits)
  show ?thesis
  proof (cases e)
    case (Inspect k)
    then show ?thesis
      using d by (auto simp: rd_inspect_def Let_def split: if_splits dest: rd_remove_held)
  next
    case (Awake k)
    then show ?thesis
      using d by (auto simp: rd_awake_def split: if_splits rd_pump.splits dest: rd_remove_held)
  next
    case (Put i)
    then show ?thesis
      using rd_put_held [of i r q] d by simp
  qed (use d assms(2) in \<open>auto simp: rd_take_def rd_upstream_write_def rd_callback_def rd_fire_def
      rd_result_def rd_check_def rd_send_def rd_return_def
      split: if_splits rd_pump.splits rd_writer.splits\<close>)
qed

lemma rd_internal_running:
  assumes "rd_running r" and "rd_step e r = Some q" and "rd_internal e"
  shows "rd_running q"
proof -
  have "rd_inv q"
    using assms(1,2) by (auto simp: rd_running_def intro: rd_step_inv)
  moreover have "rd_termination q = None"
    using rd_internal_termination [OF assms(2,3)] assms(1) by (simp add: rd_running_def)
  ultimately show ?thesis
    by (auto simp: rd_running_def rd_inv_def inv_term_def)
qed

lemma rd_internal_runs:
  assumes "runs_to rd_step rd_internal r q"
  shows "rd_running r \<longrightarrow> rd_running q \<and> length (rd_writers q) = length (rd_writers r) \<and>
    (outside (rd_writers r ! 0) \<longrightarrow> rd_writers q ! 0 = rd_writers r ! 0) \<and>
    (\<not> outside (rd_writers r ! 0) \<longrightarrow> rd_writers q ! 0 \<noteq> WIdle \<and>
       (\<forall>n e. rd_writers q ! 0 = WRet n e \<longrightarrow> e = None))"
proof -
  obtain es where "\<forall>e \<in> set es. rd_internal e" "run rd_step es r = Some q"
    using assms by (auto simp: runs_to_def)
  then show ?thesis
  proof (induction es arbitrary: r)
    case (Cons e es)
    obtain u where u: "rd_step e r = Some u" "run rd_step es u = Some q"
      using Cons.prems(2) by (auto split: option.splits)
    have e: "rd_internal e" "\<nexists>p. e = Write 0 p"
      using Cons.prems(1) by auto
    have m: "writer_moves r u"
      by (rule rd_step_writer [OF u(1) e(2)])
    show ?case
    proof
      assume run: "rd_running r"
      then have ru: "rd_running u"
        using rd_internal_running [OF _ u(1) e(1)] by simp
      have IH: "rd_running q \<and> length (rd_writers q) = length (rd_writers u) \<and>
        (outside (rd_writers u ! 0) \<longrightarrow> rd_writers q ! 0 = rd_writers u ! 0) \<and>
        (\<not> outside (rd_writers u ! 0) \<longrightarrow> rd_writers q ! 0 \<noteq> WIdle \<and>
           (\<forall>n e. rd_writers q ! 0 = WRet n e \<longrightarrow> e = None))"
        using Cons.IH [OF _ u(2)] Cons.prems(1) ru by simp
      have none: "rd_termination u = None"
        using ru by (simp add: rd_running_def)
      show "rd_running q \<and> length (rd_writers q) = length (rd_writers r) \<and>
        (outside (rd_writers r ! 0) \<longrightarrow> rd_writers q ! 0 = rd_writers r ! 0) \<and>
        (\<not> outside (rd_writers r ! 0) \<longrightarrow> rd_writers q ! 0 \<noteq> WIdle \<and>
           (\<forall>n e. rd_writers q ! 0 = WRet n e \<longrightarrow> e = None))"
        using IH m none unfolding writer_moves_def by (cases "outside (rd_writers u ! 0)") auto
    qed
  qed (auto simp: outside_def)
qed

text \<open>The remaining sections of \<open>Write\<close>, on an empty ring.\<close>

lemma rd_sections_left:
  assumes run: "rd_running q" and one: "length (rd_writers q) = 1" and empty: "rd_queue q = []"
    and w: "\<not> outside (rd_writers q ! 0)"
  shows "\<exists>es u n. (\<forall>e \<in> set es. rd_internal e) \<and> run rd_step es q = Some u \<and> rd_writers u ! 0 = WRet n None"
proof -
  have inv: "rd_inv q" and live: "rd_termination q = None" "\<not> rd_panicked q" "\<not> rd_closed q"
    and tokens: "rd_tokens q + rd_held q + count_if notifying (rd_writers q) = 0"
    using rd_runningD [OF run] empty by simp_all
  have rep: "ring_rep q []"
    using inv empty by (simp add: rd_inv_def inv_data_def)
  have ring: "0 < length (rd_ring q)" "rd_tail q < length (rd_ring q)"
    using ring_rep_bounds [OF rep] by simp_all
  have room: "\<not> ring_full q"
    using ring_rep_full_iff [OF rep] ring(1) by simp
  obtain x where x: "rd_writers q = [x]"
    using one by (cases "rd_writers q") auto
  have "\<not> notifying x"
    using tokens x by (simp split: if_splits)
  moreover have "\<not> sleeping x"
  proof
    assume s: "sleeping x"
    then have "\<not> putting x"
      by (cases x) simp_all
    then have none: "count_if putting (rd_writers q) = 0"
      using x by simp
    have wait: "inv_waiting q"
      using inv by (simp add: rd_inv_def)
    then have "0 \<in> set (rd_waiting q) \<longleftrightarrow> 0 < length (rd_writers q) \<and> sleeping (rd_writers q ! 0)"
      unfolding inv_waiting_def waiters_ok_def by blast
    then have "rd_waiting q \<noteq> []"
      using s x by auto
    then show False
      using wait none ring(1) empty by (simp add: inv_waiting_def)
  qed
  ultimately consider (put) st p where "x = WPut st p" | (sent) n where "x = WSent n"
    using w x by (cases x) (auto simp: outside_def)
  then show ?thesis
  proof cases
    case put
    then show ?thesis
      using x ring room live tokens
      by (intro exI [of _ "[Put 0, Check 0, Send 0, Return 0]"])
         (simp add: rd_step_def rd_put_def rd_check_def rd_send_def rd_return_def ring_put_def)
  next
    case sent
    then show ?thesis
      using x live
      by (intro exI [of _ "[Return 0]"]) (simp add: rd_step_def rd_return_def)
  qed
qed

lemma rd_write_returns:
  assumes run: "rd_running r" and one: "length (rd_writers r) = 1" and w: "rd_writers r ! 0 \<noteq> WIdle"
    and ok: "\<forall>n e. rd_writers r ! 0 = WRet n e \<longrightarrow> e = None"
  shows "\<exists>q n. runs_to rd_step rd_internal r q \<and> rd_running q \<and> rd_writers q ! 0 = WRet n None"
proof (cases "outside (rd_writers r ! 0)")
  case True
  then show ?thesis
    using run w ok by (auto simp: outside_def intro: runs_to_here)
next
  case False
  obtain q where q: "runs_to rd_step rd_internal r q" "rd_running q" "rd_queue q = []"
    using rd_drains_running [OF run] by blast
  have moved: "length (rd_writers q) = 1" "rd_writers q ! 0 \<noteq> WIdle"
    "\<forall>n e. rd_writers q ! 0 = WRet n e \<longrightarrow> e = None"
    using rd_internal_runs [OF q(1)] run one False by auto
  show ?thesis
  proof (cases "outside (rd_writers q ! 0)")
    case True
    then show ?thesis
      using q moved by (auto simp: outside_def)
  next
    case False
    then obtain u n where u: "runs_to rd_step rd_internal q u" "rd_writers u ! 0 = WRet n None"
      using rd_sections_left [OF q(2) moved(1) q(3)] by (auto simp: runs_to_def)
    then have "runs_to rd_step rd_internal r u \<and> rd_running u"
      using runs_to_trans [OF q(1) u(1)] rd_internal_runs [OF u(1)] q(2) by simp
    then show ?thesis
      using u(2) by blast
  qed
qed

section \<open>Where the two meet\<close>

text \<open>
  The sink's goroutine is inside \<open>upstream.Write\<close> exactly when it is the delayer's writer; the
  goroutine has stopped only for an error or a close; the only writer is the sink's.
\<close>

fun in_write :: "ak_pump \<Rightarrow> bool" where
  "in_write (AkWriting next) = True" | "in_write _ = False"

definition sink_alive :: "asynk \<Rightarrow> bool" where
  "sink_alive a \<longleftrightarrow> (ak_pump a = AkStopped \<longrightarrow> ak_upstreamErr a \<noteq> None \<or> ak_closed a)"

definition dp_call :: "delayed_sink \<Rightarrow> bool" where
  "dp_call s \<longleftrightarrow>
     (if in_write (ak_pump (dp_sink s)) then rd_writers (dp_delayer s) ! 0 \<noteq> WIdle
      else outside (rd_writers (dp_delayer s) ! 0)) \<and>
     (\<forall>n e. rd_writers (dp_delayer s) ! 0 = WRet n e \<longrightarrow> e = None \<or> rd_termination (dp_delayer s) \<noteq> None) \<and>
     sink_alive (dp_sink s) \<and>
     length (rd_writers (dp_delayer s)) = 1 \<and> (\<forall>x \<in> set (dp_stored s). fst x)"

lemma dp_call_start: "dp_call (dp_start (make_asynk c cap w) (ring_delay d n t 1))"
  by (simp add: dp_call_def dp_start_def make_asynk_def ring_delay_def outside_def sink_alive_def)

lemma ak_step_pump:
  assumes "ak_step e a = Some b" and "e \<noteq> PUpstreamWrite" and "\<nexists>x. e = PResult x" and "sink_alive a"
  shows "in_write (ak_pump b) = in_write (ak_pump a) \<and> sink_alive b"
proof -
  have d: "ak_dispatch e a = Some b"
    using assms(1) by (simp add: ak_step_def split: if_splits)
  show ?thesis
  proof (cases e)
    case (WCopy i)
    then show ?thesis
      using d assms(4) by (auto simp: ak_copy_def case_prod_beta Let_def sink_alive_def
          split: if_splits ak_writer.splits)
  next
    case (CloseStep r)
    then show ?thesis
      using d assms(4) by (auto simp: ak_close_step_def case_prod_beta Let_def sink_alive_def
          split: if_splits ak_closer.splits)
  qed (use d assms(2-4) in \<open>auto simp: ak_take_def ak_read_index_def ak_check_err_def
      ak_finish_def ak_call_def ak_entry_def ak_select_def ak_wait_def case_prod_beta Let_def
      sink_alive_def split: if_splits ak_pump.splits ak_writer.splits\<close>)
qed

lemma rd_only_put:
  assumes "rd_step e r = Some q" and "length (rd_writers r) = 1"
  shows "e = Put 0 \<or> rd_accepted q = rd_accepted r"
proof (cases "\<exists>p. e = Write 0 p")
  case True
  then show ?thesis
    using rd_write_first assms(1) by blast
next
  case False
  then show ?thesis
    using rd_step_held [OF assms(1)] assms(2) by auto
qed

lemma dp_call_step:
  assumes call: "dp_call s" and step: "dp_step e s = Some t"
  shows "dp_call t"
proof (cases e)
  case DpHand
  then obtain a where a: "ak_step PUpstreamWrite (dp_sink s) = Some a"
    and t: "t = s\<lparr>dp_sink := a\<rparr> \<and> ak_panicked a \<or>
      (\<exists>p r. rd_step (Write 0 p) (dp_delayer s) = Some r \<and> t = s\<lparr>dp_sink := a, dp_delayer := r\<rparr> \<and>
        \<not> ak_panicked a)"
    using step by (auto simp: dp_step_def dp_hand_def split: if_splits option.splits)
  obtain nx where p: "ak_pump (dp_sink s) = AkWrite nx" "sink_alive a"
    "if ak_panicked a then ak_pump a = AkWrite nx else ak_pump a = AkWriting nx"
    using a by (auto simp: ak_step_def ak_upstream_write_def sink_alive_def split: if_splits ak_pump.splits)
  then show ?thesis
    using t call by (auto simp: dp_call_def rd_step_def rd_write_def outside_def split: if_splits)
next
  case DpReturn
  then obtain n x a where "rd_writers (dp_delayer s) ! 0 = WRet n x"
    "ak_step (PResult x) (dp_sink s) = Some a" "t = s\<lparr>dp_sink := a\<rparr>"
    using step by (auto simp: dp_step_def dp_return_def split: if_splits rd_writer.splits)
  then show ?thesis
    using call by (auto simp: dp_call_def outside_def ak_step_def ak_result_def sink_alive_def
        split: if_splits ak_pump.splits)
next
  case (DpSink f)
  then obtain a where a: "ak_step f (dp_sink s) = Some a" "f \<noteq> PUpstreamWrite" "\<nexists>x. f = PResult x"
    and t: "t = s\<lparr>dp_sink := a\<rparr>"
    using step by (auto simp: dp_step_def dp_sink_step_def split: if_splits)
  then show ?thesis
    using ak_step_pump [OF a] call by (simp add: dp_call_def)
next
  case (DpDelayer f)
  then obtain r where r: "rd_step f (dp_delayer s) = Some r" "\<nexists>p. f = Write 0 p"
    and t: "t = s\<lparr>dp_delayer := r, dp_stored := dp_stored s @ map (\<lambda>x. (f = Put 0, snd x))
      (drop (length (rd_accepted (dp_delayer s))) (rd_accepted r))\<rparr>"
    using step by (auto simp: dp_step_def dp_delayer_step_def split: if_splits)
  have m: "writer_moves (dp_delayer s) r"
    by (rule rd_step_writer [OF r])
  have h: "rd_termination (dp_delayer s) \<noteq> None \<longrightarrow> rd_termination r \<noteq> None"
    using rd_step_held [OF r] by blast
  have only: "f = Put 0 \<or> rd_accepted r = rd_accepted (dp_delayer s)"
    using rd_only_put [OF r(1)] call by (auto simp: dp_call_def)
  show ?thesis
    using m h only call unfolding dp_call_def t
    by (auto simp: writer_moves_def outside_def)
qed

interpretation dpc: invariant_machine
  "\<lambda>s. \<exists>c cap w d n t. s = dp_start (make_asynk c cap w) (ring_delay d n t 1)" dp_step dp_call
  by unfold_locales (use dp_call_start dp_call_step in \<open>blast+\<close>)

section \<open>Progress\<close>

text \<open>
  The events of the program itself: the two goroutines, a client's goroutine at its \<open>select\<close>, and time;
  the upstream of the delayer accepts every write.
\<close>

fun dp_internal :: "dp_event \<Rightarrow> bool" where
  "dp_internal (DpSink (PFinish k)) = True" | "dp_internal (DpSink (WSelect i)) = True"
| "dp_internal (DpSink f) = (f \<in> {PTake, PReadIndex, PCheckErr})"
| "dp_internal (DpDelayer f) = rd_internal f" | "dp_internal _ = True"

text \<open>Nothing has been closed and nothing has failed.\<close>

definition dp_live :: "delayed_sink \<Rightarrow> bool" where
  "dp_live s \<longleftrightarrow> dp_call s \<and> ak_inv (dp_sink s) \<and> rd_running (dp_delayer s) \<and>
     \<not> ak_closed (dp_sink s) \<and> ak_upstreamErr (dp_sink s) = None"

lemma dp_liveD:
  assumes "dp_live s"
  shows "dp_call s" "ak_inv (dp_sink s)" "rd_running (dp_delayer s)" "\<not> ak_closed (dp_sink s)"
    "ak_upstreamErr (dp_sink s) = None" "\<not> ak_panicked (dp_sink s)" "\<not> rd_panicked (dp_delayer s)"
    "rd_termination (dp_delayer s) = None" "ak_pump (dp_sink s) \<noteq> AkStopped"
  using assms by (auto simp: dp_live_def ak_inv_def ak_inv_rest_def rd_running_def dp_call_def sink_alive_def)

lemma ak_internal_step:
  assumes "ak_step f a = Some b" and "dp_internal (DpSink f) \<or> f = PUpstreamWrite \<or> f = PResult None"
    and "ak_upstreamErr a = None" and "ak_inv a" and "\<not> ak_closed a"
  shows "ak_inv b \<and> \<not> ak_closed b \<and> ak_upstreamErr b = None \<and> ak_accepted b = ak_accepted a"
proof -
  have "ak_inv b"
    by (rule ak_step_inv [OF assms(4,1)])
  moreover have "ak_closed b = ak_closed a \<and> ak_upstreamErr b = None \<and> ak_accepted b = ak_accepted a"
    using assms(1-3)
    by (cases f) (auto simp: ak_step_def ak_take_def ak_read_index_def ak_upstream_write_def ak_result_def
        ak_check_err_def ak_finish_def ak_select_def Let_def
        split: if_splits ak_pump.splits ak_writer.splits)
  ultimately show ?thesis
    using assms(5) by simp
qed

lemma dp_live_sink:
  assumes "dp_live s" and "dp_step e s = Some t" and "dp_delayer t = dp_delayer s"
    and "ak_step f (dp_sink s) = Some (dp_sink t)"
    and "dp_internal (DpSink f) \<or> f = PUpstreamWrite \<or> f = PResult None"
  shows "dp_live t \<and> ak_accepted (dp_sink t) = ak_accepted (dp_sink s)"
  using ak_internal_step [OF assms(4,5)] dp_liveD [OF assms(1)] assms(3)
    dp_call_step [OF _ assms(2)] by (simp add: dp_live_def)

text \<open>The steps of the delayer, in the composition.\<close>

lemma dp_lift:
  assumes "runs_to rd_step rd_internal (dp_delayer s) q" and "\<not> ak_panicked (dp_sink s)"
  shows "\<exists>t. runs_to dp_step dp_internal s t \<and> dp_sink t = dp_sink s \<and> dp_delayer t = q"
proof -
  obtain es where "\<forall>e \<in> set es. rd_internal e" "run rd_step es (dp_delayer s) = Some q"
    using assms(1) by (auto simp: runs_to_def)
  then show ?thesis
    using assms(2)
  proof (induction es arbitrary: s)
    case Nil
    then show ?case
      by (auto intro: runs_to_here)
  next
    case (Cons e es)
    obtain r where r: "rd_step e (dp_delayer s) = Some r" "run rd_step es r = Some q"
      using Cons.prems(2) by (auto split: option.splits)
    let ?u = "s\<lparr>dp_delayer := r, dp_stored := dp_stored s @ map (\<lambda>x. (e = Put 0, snd x))
      (drop (length (rd_accepted (dp_delayer s))) (rd_accepted r))\<rparr>"
    have "\<not> rd_panicked (dp_delayer s)" "\<nexists>p. e = Write 0 p"
      using r(1) Cons.prems(1) by (auto simp: rd_step_def split: if_splits)
    then have u: "dp_step (DpDelayer e) s = Some ?u"
      using r(1) Cons.prems(3) by (simp add: dp_step_def dp_delayer_step_def)
    obtain t where t: "runs_to dp_step dp_internal ?u t" "dp_sink t = dp_sink s" "dp_delayer t = q"
      using Cons.IH [of ?u] Cons.prems r(2) by auto
    then show ?case
      using runs_to_first [of dp_internal "DpDelayer e" dp_step, OF _ u t(1)] Cons.prems(1) by auto
  qed
qed

lemma dp_live_lift:
  assumes "dp_live s" and "runs_to rd_step rd_internal (dp_delayer s) q"
  shows "\<exists>t. runs_to dp_step dp_internal s t \<and> dp_live t \<and> dp_sink t = dp_sink s \<and> dp_delayer t = q"
proof -
  obtain t where t: "runs_to dp_step dp_internal s t" "dp_sink t = dp_sink s" "dp_delayer t = q"
    using dp_lift [OF assms(2)] dp_liveD [OF assms(1)] by blast
  have "dp_call t"
    using dpc.inv_reaches [OF runs_to_reaches [OF t(1)]] dp_liveD(1) [OF assms(1)] .
  moreover have "rd_running q"
    using rd_internal_runs [OF assms(2)] dp_liveD(3) [OF assms(1)] by simp
  ultimately show ?thesis
    using t dp_liveD [OF assms(1)] by (auto simp: dp_live_def)
qed

section \<open>A round of the sink over the delayer\<close>

text \<open>
  The state \<open>t\<close> is one the program gets to from \<open>s\<close> without calls from outside: still alive, with the
  same bytes accepted, and no new notification.
\<close>

definition dp_to :: "delayed_sink \<Rightarrow> delayed_sink \<Rightarrow> bool" where
  "dp_to s t \<longleftrightarrow> runs_to dp_step dp_internal s t \<and> dp_live t \<and>
     ak_accepted (dp_sink t) = ak_accepted (dp_sink s) \<and> ak_notify (dp_sink t) = ak_notify (dp_sink s) \<and>
     count_if selecting (ak_writers (dp_sink t)) = count_if selecting (ak_writers (dp_sink s))"

lemma dp_to_trans: "dp_to s t \<Longrightarrow> dp_to t u \<Longrightarrow> dp_to s u"
  by (auto simp: dp_to_def intro: runs_to_trans)

lemma dp_to_sink:
  assumes live: "dp_live s" and step: "ak_step f (dp_sink s) = Some a"
    and f: "f = PReadIndex \<or> f = PCheckErr \<or> f = PFinish 0"
  shows "runs_to dp_step dp_internal s (s\<lparr>dp_sink := a\<rparr>) \<and> dp_live (s\<lparr>dp_sink := a\<rparr>) \<and>
    ak_accepted a = ak_accepted (dp_sink s)"
proof -
  have internal: "dp_internal (DpSink f)" "f \<noteq> PUpstreamWrite" "\<nexists>x. f = PResult x"
    using f by auto
  then have s: "dp_step (DpSink f) s = Some (s\<lparr>dp_sink := a\<rparr>)"
    using step dp_liveD [OF live] by (simp add: dp_step_def dp_sink_step_def)
  then show ?thesis
    using dp_live_sink [OF live s, of f] step internal(1) 
      runs_to_single [of dp_internal "DpSink f" dp_step, OF internal(1) s] by simp
qed

lemma dp_finish:
  assumes live: "dp_live s" and pump: "ak_pump (dp_sink s) = AkFinish nx"
  shows "\<exists>t. dp_to s t \<and> ak_pump (dp_sink t) = AkRecv"
proof -
  let ?a = "dp_sink s"
  obtain wt ws where sig: "cond_signal ak_release 0 (ak_waiting ?a) (ak_writers ?a) = Some (wt, ws)"
    using cond_signal_enabled [of ak_release "ak_waiting ?a" "ak_writers ?a"] by auto
  have same: "selecting (ak_release w) = selecting w" for w
    by (cases w) simp_all
  have n: "count_if selecting ws = count_if selecting (ak_writers ?a)"
  proof -
    have "count_if selecting ((ak_writers ?a)[i := ak_release (ak_writers ?a ! i)]) =
        count_if selecting (ak_writers ?a)" for i
      by (cases "i < length (ak_writers ?a)") (simp_all add: same list_update_beyond)
    then show ?thesis
      using sig by (auto simp: cond_signal_def split: if_splits)
  qed
  obtain a where a: "ak_step (PFinish 0) ?a = Some a" "ak_pump a = AkRecv" "ak_notify a = ak_notify ?a"
    "ak_writers a = ws"
    using dp_liveD(6) [OF live] pump sig
    by (auto simp: ak_step_def ak_finish_def Let_def)
  show ?thesis
    using dp_to_sink [OF live a(1)] a(2-4) n
    by (intro exI [of _ "s\<lparr>dp_sink := a\<rparr>"]) (simp add: dp_to_def)
qed

lemma dp_written:
  assumes live: "dp_live s" and pump: "ak_pump (dp_sink s) = AkWritten nx"
  shows "\<exists>t. dp_to s t \<and> ak_pump (dp_sink t) = AkRecv"
proof -
  let ?a = "(dp_sink s)\<lparr>ak_pump := AkFinish nx\<rparr>"
  have "ak_step PCheckErr (dp_sink s) = Some ?a"
    using pump dp_liveD [OF live] by (simp add: ak_step_def ak_check_err_def)
  then have "dp_to s (s\<lparr>dp_sink := ?a\<rparr>)"
    using dp_to_sink [OF live] by (simp add: dp_to_def)
  then show ?thesis
    using dp_finish [of "s\<lparr>dp_sink := ?a\<rparr>" nx] dp_to_trans by (fastforce simp: dp_to_def)
qed

lemma dp_writing:
  assumes live: "dp_live s" and pump: "ak_pump (dp_sink s) = AkWriting nx"
  shows "\<exists>t. dp_to s t \<and> ak_pump (dp_sink t) = AkRecv"
proof -
  have call: "rd_writers (dp_delayer s) ! 0 \<noteq> WIdle" "length (rd_writers (dp_delayer s)) = 1"
    "\<forall>n e. rd_writers (dp_delayer s) ! 0 = WRet n e \<longrightarrow> e = None"
    using dp_liveD(1,8) [OF live] pump by (auto simp: dp_call_def)
  obtain q n where q: "runs_to rd_step rd_internal (dp_delayer s) q" "rd_writers q ! 0 = WRet n None"
    using rd_write_returns [OF dp_liveD(3) [OF live] call(2,1,3)] by blast
  obtain t where t: "runs_to dp_step dp_internal s t" "dp_live t" "dp_sink t = dp_sink s"
    "dp_delayer t = q"
    using dp_live_lift [OF live q(1)] by blast
  let ?a = "(dp_sink s)\<lparr>ak_upstreamErr := None, ak_lastTransmitted := nx, ak_pump := AkWritten nx\<rparr>"
  have a: "ak_step (PResult None) (dp_sink t) = Some ?a"
    using pump dp_liveD(6) [OF live] t(3) by (simp add: ak_step_def ak_result_def)
  have u: "dp_step DpReturn t = Some (t\<lparr>dp_sink := ?a\<rparr>)"
    using a q(2) t(4) dp_liveD(6,7) [OF t(2)] by (simp add: dp_step_def dp_return_def)
  have "dp_live (t\<lparr>dp_sink := ?a\<rparr>)"
    using dp_live_sink [OF t(2) u, of "PResult None"] a by simp
  moreover have "runs_to dp_step dp_internal s (t\<lparr>dp_sink := ?a\<rparr>)"
    using runs_to_trans [OF t(1) runs_to_single [of dp_internal DpReturn dp_step, OF _ u]] by simp
  ultimately have "dp_to s (t\<lparr>dp_sink := ?a\<rparr>)" and "dp_live (t\<lparr>dp_sink := ?a\<rparr>)"
    by (simp_all add: dp_to_def)
  then show ?thesis
    using dp_written [of "t\<lparr>dp_sink := ?a\<rparr>" nx] dp_to_trans by fastforce
qed

lemma dp_write:
  assumes live: "dp_live s" and pump: "ak_pump (dp_sink s) = AkWrite nx"
  shows "\<exists>t. dp_to s t \<and> ak_pump (dp_sink t) = AkRecv"
proof -
  let ?x = "slice (ak_lastTransmitted (dp_sink s)) nx (ak_buffer (dp_sink s))"
  let ?a = "(dp_sink s)\<lparr>ak_sent := ak_sent (dp_sink s) @ ?x, ak_pump := AkWriting nx\<rparr>"
  have "ak_lastTransmitted (dp_sink s) \<le> nx \<and> nx \<le> length (ak_buffer (dp_sink s))"
    using dp_liveD(2) [OF live] pump by (simp add: ak_inv_def ak_inv_stream_def)
  then have a: "ak_step PUpstreamWrite (dp_sink s) = Some ?a"
    using pump dp_liveD(6) [OF live] by (simp add: ak_step_def ak_upstream_write_def)
  have "0 < length (rd_writers (dp_delayer s)) \<and> outside (rd_writers (dp_delayer s) ! 0)"
    using dp_liveD(1) [OF live] pump by (simp add: dp_call_def)
  then obtain r where r: "rd_step (Write 0 ?x) (dp_delayer s) = Some r"
    using dp_liveD(7) [OF live] by (auto simp: outside_def rd_step_def rd_write_def)
  let ?u = "s\<lparr>dp_sink := ?a, dp_delayer := r\<rparr>"
  have u: "dp_step DpHand s = Some ?u"
    using a r dp_liveD(6,7) [OF live] by (simp add: dp_step_def dp_hand_def)
  have "rd_termination r = None"
    using rd_write_first [OF r] dp_liveD(8) [OF live] by simp
  moreover have "rd_inv r"
    using rd_step_inv [OF _ r] dp_liveD(3) [OF live] by (simp add: rd_running_def)
  ultimately have "rd_running r"
    by (auto simp: rd_running_def rd_inv_def inv_term_def)
  then have "dp_live ?u"
    using dp_call_step [OF dp_liveD(1) [OF live] u] ak_internal_step [OF a] dp_liveD [OF live]
    by (simp add: dp_live_def)
  then have "dp_to s ?u"
    using runs_to_single [of dp_internal DpHand dp_step, OF _ u] by (simp add: dp_to_def)
  then show ?thesis
    using dp_writing [of ?u nx] \<open>dp_live ?u\<close> dp_to_trans by fastforce
qed

lemma dp_taken:
  assumes live: "dp_live s" and pump: "ak_pump (dp_sink s) = AkTaken"
  shows "\<exists>t. dp_to s t \<and> ak_pump (dp_sink t) = AkRecv"
proof -
  let ?a = "(dp_sink s)\<lparr>ak_pump := AkWrite (ak_bufferIndex (dp_sink s))\<rparr>"
  have "ak_step PReadIndex (dp_sink s) = Some ?a"
    using pump dp_liveD(6) [OF live] by (simp add: ak_step_def ak_read_index_def)
  then have "dp_to s (s\<lparr>dp_sink := ?a\<rparr>)"
    using dp_to_sink [OF live] by (simp add: dp_to_def)
  then show ?thesis
    using dp_write [of "s\<lparr>dp_sink := ?a\<rparr>"] dp_to_trans by (fastforce simp: dp_to_def)
qed

text \<open>From wherever it is, the sink's goroutine gets back to waiting for a notification.\<close>

lemma dp_settles:
  assumes "dp_live s"
  shows "\<exists>t. dp_to s t \<and> ak_pump (dp_sink t) = AkRecv"
proof (cases "ak_pump (dp_sink s)")
  case AkRecv
  then show ?thesis
    using assms by (auto simp: dp_to_def intro: runs_to_here)
qed (use assms dp_liveD(9) [OF assms] dp_taken dp_write dp_writing dp_written dp_finish in blast)+

text \<open>The writers at their \<open>select\<close> put their notification, or find one.\<close>

lemma dp_selects:
  "dp_live s \<Longrightarrow> ak_pump (dp_sink s) = AkRecv \<Longrightarrow>
    \<exists>t. runs_to dp_step dp_internal s t \<and> dp_live t \<and> ak_pump (dp_sink t) = AkRecv \<and>
      ak_accepted (dp_sink t) = ak_accepted (dp_sink s) \<and> count_if selecting (ak_writers (dp_sink t)) = 0"
proof (induction "count_if selecting (ak_writers (dp_sink s))" arbitrary: s)
  case 0
  then show ?case
    by (auto intro: runs_to_here)
next
  case (Suc k)
  then obtain i where i: "i < length (ak_writers (dp_sink s))" "selecting (ak_writers (dp_sink s) ! i)"
    using count_if_pos_ex [of selecting "ak_writers (dp_sink s)"] by auto
  then obtain p m where w: "ak_writers (dp_sink s) ! i = KSelect p m"
    by (cases "ak_writers (dp_sink s) ! i") auto
  obtain a where a: "ak_step (WSelect i) (dp_sink s) = Some a"
    using w i dp_liveD(6) [OF Suc.prems(1)] by (auto simp: ak_step_def ak_select_def)
  then have a': "count_if selecting (ak_writers a) = k" "ak_pump a = AkRecv"
    using w i dp_liveD(4,6) [OF Suc.prems(1)] Suc.hyps(2) Suc.prems(2)
    by (auto simp: ak_step_def ak_select_def split: if_splits)
  let ?u = "s\<lparr>dp_sink := a\<rparr>"
  have u: "dp_step (DpSink (WSelect i)) s = Some ?u"
    using a dp_liveD [OF Suc.prems(1)] by (simp add: dp_step_def dp_sink_step_def)
  have live: "dp_live ?u" "ak_accepted a = ak_accepted (dp_sink s)"
    using dp_live_sink [OF Suc.prems(1) u, of "WSelect i"] a by simp_all
  obtain t where "runs_to dp_step dp_internal ?u t" "dp_live t" "ak_pump (dp_sink t) = AkRecv"
    "ak_accepted (dp_sink t) = ak_accepted a" "count_if selecting (ak_writers (dp_sink t)) = 0"
    using Suc.hyps(1) [of ?u] a' live by auto
  then show ?case
    using runs_to_first [of dp_internal "DpSink (WSelect i)" dp_step, OF _ u, of t] live(2) by auto
qed

text \<open>With a notification buffered, one more round hands over the rest.\<close>

lemma dp_flushes:
  assumes live: "dp_live s" and pump: "ak_pump (dp_sink s) = AkRecv"
    and none: "count_if selecting (ak_writers (dp_sink s)) = 0"
  shows "\<exists>t. runs_to dp_step dp_internal s t \<and> dp_live t \<and> ak_pump (dp_sink t) = AkRecv \<and>
    ak_accepted (dp_sink t) = ak_accepted (dp_sink s) \<and> ak_sent (dp_sink t) = ak_accepted (dp_sink t)"
proof (cases "ak_notify (dp_sink s)")
  case False
  then show ?thesis
    using ak_flushed [OF dp_liveD(2) [OF live] pump _ none] live pump by (auto intro: runs_to_here)
next
  case True
  let ?a = "(dp_sink s)\<lparr>ak_notify := False, ak_pump := AkTaken\<rparr>"
  let ?u = "s\<lparr>dp_sink := ?a\<rparr>"
  have a: "ak_step PTake (dp_sink s) = Some ?a"
    using True pump dp_liveD(6) [OF live] by (simp add: ak_step_def ak_take_def)
  then have u: "dp_step (DpSink PTake) s = Some ?u"
    using dp_liveD [OF live] by (simp add: dp_step_def dp_sink_step_def)
  have "dp_live ?u"
    using dp_live_sink [OF live u, of PTake] a by simp
  then obtain t where t: "dp_to ?u t" "ak_pump (dp_sink t) = AkRecv"
    using dp_taken [of ?u] by auto
  then have "ak_sent (dp_sink t) = ak_accepted (dp_sink t)"
    using ak_flushed [of "dp_sink t"] none dp_liveD(2) [of t] by (auto simp: dp_to_def)
  then show ?thesis
    using t runs_to_first [of dp_internal "DpSink PTake" dp_step, OF _ u, of t] by (auto simp: dp_to_def)
qed

section \<open>Everything typed arrives\<close>

lemma dp_live_reachable:
  assumes "0 < n" and "reaches dp_step (dp_start (make_asynk c cap w) (ring_delay d n t 1)) s"
    and "rd_termination (dp_delayer s) = None" and "ak_upstreamErr (dp_sink s) = None"
    and "\<not> ak_closed (dp_sink s)"
  shows "dp_live s"
proof -
  have inv: "dp_inv (c, cap, w) (d, n, t, 1) s"
    by (rule dp.reachable_inv [OF _ assms(2)]) (auto simp: dp_begin_def)
  have "dp_call s"
    by (rule dpc.reachable_inv [OF _ assms(2)]) blast
  moreover have "ak_inv (dp_sink s)"
    using inv by (auto simp: dp_inv_def intro: ak_reachable)
  moreover have "rd_inv (dp_delayer s)"
    using inv rd_reachable [OF assms(1)] by (auto simp: dp_inv_def)
  ultimately show ?thesis
    using assms(3-5) by (auto simp: dp_live_def rd_running_def rd_inv_def inv_term_def)
qed

lemma dp_drains:
  assumes "0 < n" and "reaches dp_step (dp_start (make_asynk c cap w) (ring_delay d n t 1)) s"
    and "rd_termination (dp_delayer s) = None" and "ak_upstreamErr (dp_sink s) = None"
    and "\<not> ak_closed (dp_sink s)"
  shows "\<exists>u. runs_to dp_step dp_internal s u \<and> ak_accepted (dp_sink u) = ak_accepted (dp_sink s) \<and>
    concat (map (the \<circ> snd) (rd_delivered (dp_delayer u))) = ak_accepted (dp_sink s)"
proof -
  have live: "dp_live s"
    by (rule dp_live_reachable [OF assms])
  obtain s1 where s1: "dp_to s s1" "ak_pump (dp_sink s1) = AkRecv"
    using dp_settles [OF live] by blast
  then have live1: "dp_live s1"
    by (simp add: dp_to_def)
  obtain s2 where s2: "runs_to dp_step dp_internal s1 s2" "dp_live s2" "ak_pump (dp_sink s2) = AkRecv"
    "ak_accepted (dp_sink s2) = ak_accepted (dp_sink s1)" "count_if selecting (ak_writers (dp_sink s2)) = 0"
    using dp_selects [OF live1 s1(2)] by blast
  obtain s3 where s3: "runs_to dp_step dp_internal s2 s3" "dp_live s3" "ak_pump (dp_sink s3) = AkRecv"
    "ak_accepted (dp_sink s3) = ak_accepted (dp_sink s2)" "ak_sent (dp_sink s3) = ak_accepted (dp_sink s3)"
    using dp_flushes [OF s2(2,3,5)] by blast
  obtain q where q: "runs_to rd_step rd_internal (dp_delayer s3) q" "rd_running q"
    "rd_queue q = []" "rd_inhand q = 0"
    using rd_drains_running [OF dp_liveD(3) [OF s3(2)]] by blast
  obtain u where u: "runs_to dp_step dp_internal s3 u" "dp_live u" "dp_sink u = dp_sink s3" "dp_delayer u = q"
    using dp_live_lift [OF s3(2) q(1)] by blast
  have run: "runs_to dp_step dp_internal s u"
    using s1(1) s2(1) s3(1) u(1) by (auto simp: dp_to_def intro: runs_to_trans)
  have acc: "ak_accepted (dp_sink u) = ak_accepted (dp_sink s)"
    using s1(1) s2(4) s3(4) u(3) by (simp add: dp_to_def)
  have inv: "dp_inv (c, cap, w) (d, n, t, 1) u"
    by (rule dp.reachable_inv [OF _ reaches_trans [OF runs_to_reaches [OF run] assms(2)]])
       (auto simp: dp_begin_def)
  have "outside (rd_writers q ! 0)" and tags: "\<forall>x \<in> set (dp_stored u). fst x"
    using dp_liveD(1) [OF u(2)] u(3,4) s3(3) by (simp_all add: dp_call_def)
  then have "held (rd_writers q ! 0) = []"
    by (auto simp: outside_def)
  then have "from_sink (dp_stored u) = ak_accepted (dp_sink s)"
    using inv dp_liveD(8) [OF u(2)] u(3,4) s3(5) acc by (simp add: dp_inv_def)
  moreover have "from_sink (dp_stored u) = concat (map snd (rd_accepted q))"
    using tags inv u(4) by (simp add: from_sink_def dp_inv_def filter_id_conv)
  moreover have "map snd (rd_delivered q) = map (Some \<circ> snd) (rd_accepted q)"
    using q(2-4) rd_delivered_all by blast
  then have "map the (map snd (rd_delivered q)) = map the (map (Some \<circ> snd) (rd_accepted q))"
    by (simp only:)
  then have "map (the \<circ> snd) (rd_delivered q) = map snd (rd_accepted q)"
    by (simp add: comp_def)
  ultimately show ?thesis
    using run acc u(4) by (intro exI [of _ u]) simp
qed

text \<open>
  C6. Sink and delayer together lose nothing and never get stuck: from every reachable state in which
  nothing has been closed and nothing has failed there is a continuation without any call from
  outside, over an upstream that accepts its writes, at whose end the delayer has handed to its
  upstream, in order, exactly the bytes the sink had accepted.
\<close>

theorem delayed_stream_drains:
  assumes "0 < n" and "reaches dp_step (dp_start (make_asynk c cap w) (ring_delay d n t 1)) s"
    and "rd_termination (dp_delayer s) = None" and "ak_upstreamErr (dp_sink s) = None"
    and "\<not> ak_closed (dp_sink s)"
  shows "\<exists>u. runs_to dp_step dp_internal s u \<and> ak_accepted (dp_sink u) = ak_accepted (dp_sink s) \<and>
    concat (map (the \<circ> snd) (rd_delivered (dp_delayer u))) = ak_accepted (dp_sink s)"
  by (rule dp_drains [OF assms])

text \<open>Two keystrokes in the sink, the goroutines not started: both arrive.\<close>

theorem delayed_stream_drains_witness:
  "\<exists>s u. run dp_step (map DpSink [WCall 0 [97, 98], WEntry 0, WCopy 0])
      (dp_start (make_asynk True 8 1) (ring_delay 5 2 0 1)) = Some s \<and>
    runs_to dp_step dp_internal s u \<and>
    concat (map (the \<circ> snd) (rd_delivered (dp_delayer u))) = [97, 98]"
proof -
  obtain s where s: "run dp_step (map DpSink [WCall 0 [97, 98], WEntry 0, WCopy 0])
      (dp_start (make_asynk True 8 1) (ring_delay 5 2 0 1)) = Some s"
    and v: "rd_termination (dp_delayer s) = None" "ak_upstreamErr (dp_sink s) = None"
      "\<not> ak_closed (dp_sink s)" "ak_accepted (dp_sink s) = [97, 98]"
    by (simp add: dp_step_def dp_start_def dp_sink_step_def ak_step_defs rd_step_defs Let_def
        eval_nat_numeral)
  show ?thesis
    using s delayed_stream_drains [OF _ run_reaches [OF s] v(1-3)] v(4) by auto
qed

end
