(* ===== verification/TypingPath.thy ===== *)
theory TypingPath
  imports KeyPath DelayDrains
begin

text \<open>
  The whole way of a keystroke in a session with a delay: \<open>io.Copy\<close> of \<open>handleSshChannel\<close> into the
  interposer (\<open>KeyPath\<close>), whose sink hands the translation to the delayer (\<open>DelayDrains\<close>), which hands
  it to the target's channel.
\<close>

section \<open>Typing into the composition\<close>

text \<open>The events of the client's goroutine, in the composition of sink and delayer.\<close>

fun typed :: "dp_event \<Rightarrow> bool" where
  "typed (DpSink f) = typing_event f" | "typed _ = False"

lemma typing_lift:
  assumes "runs_to ak_step typing_event (dp_sink s) b" and "\<not> rd_panicked (dp_delayer s)"
  shows "runs_to dp_step typed s (s\<lparr>dp_sink := b\<rparr>)"
proof -
  obtain es where "\<forall>e \<in> set es. typing_event e" "run ak_step es (dp_sink s) = Some b"
    using assms(1) by (auto simp: runs_to_def)
  then show ?thesis
    using assms(2)
  proof (induction es arbitrary: s)
    case Nil
    then show ?case
      by (cases s) (auto intro: runs_to_here)
  next
    case (Cons e es)
    obtain a where a: "ak_step e (dp_sink s) = Some a" "run ak_step es a = Some b"
      using Cons.prems(2) by (auto split: option.splits)
    have e: "typing_event e"
      using Cons.prems(1) by simp
    have "\<not> ak_panicked (dp_sink s)" "e \<noteq> PUpstreamWrite" "\<nexists>x. e = PResult x"
      using a(1) e by (auto simp: ak_step_def split: if_splits)
    then have u: "dp_step (DpSink e) s = Some (s\<lparr>dp_sink := a\<rparr>)"
      using a(1) Cons.prems(3) by (simp add: dp_step_def dp_sink_step_def)
    have "runs_to dp_step typed (s\<lparr>dp_sink := a\<rparr>) (s\<lparr>dp_sink := b\<rparr>)"
      using Cons.IH [of "s\<lparr>dp_sink := a\<rparr>"] Cons.prems(1,3) a(2) by simp
    then show ?case
      using runs_to_first [of typed "DpSink e" dp_step, OF _ u] e by simp
  qed
qed

section \<open>From the client to the target\<close>



end
