(* ===== verification/SwitchPath.thy ===== *)
theory SwitchPath
  imports TerminalCorrect
begin

text \<open>
  The switch of a session while its calls are in flight: the goroutine of \<open>handleSshChannel\<close> that
  copies the target's output to the client (\<open>internal/sshproxy/proxy.go\<close>) reads through the switch
  (\<open>internal/predictive/ioswitch.go\<close>) from the moment the channel is open, the request filter puts
  the interposer behind it at the first \<open>pty-req\<close> (\<open>cmd/nosshtradamus/main.go\<close>), and the goroutine of
  the interposer (\<open>internal/predictive/termemu.go\<close>) then reads the same channel.
\<close>

section \<open>State\<close>

text \<open>The copying goroutine: at the test of \<open>enabled\<close>, in \<open>passthrough.Read\<close>, in \<open>refractor.Read\<close>, done.\<close>

datatype sw_copier = CpTest | CpPass | CpRefract | CpOver

text \<open>Who reads the channel: the copy, with what \<open>enabled\<close> is at its return, or the interposer.\<close>

datatype sw_reader = ByCopy bool | ByPuller

record ('f, 'd, 'e, 'p) switched =
  sw_enabled :: bool
  sw_ip :: "('f, 'd, 'e, 'p) interposer option"     \<comment> \<open>None: not made yet\<close>
  sw_copier :: sw_copier
  sw_input :: "byte list"                             \<comment> \<open>arrived on the channel and not read\<close>
  sw_eof :: bool
  sw_arrived :: "byte list"                           \<comment> \<open>every byte of the target\<close>
  sw_reads :: "(sw_reader \<times> byte list) list"         \<comment> \<open>every read of the channel\<close>
  sw_client :: "byte list"                            \<comment> \<open>every byte written to the client\<close>

definition sw_start :: "('f, 'd, 'e, 'p) switched" where
  "sw_start =
     \<lparr>sw_enabled = False, sw_ip = None, sw_copier = CpTest, sw_input = [], sw_eof = False,
      sw_arrived = [], sw_reads = [], sw_client = []\<rparr>"

section \<open>The channel\<close>

text \<open>
  The SSH channel is the environment. All that is assumed of its \<open>Read\<close> is the contract of a stream: a
  read into \<open>cap\<close> bytes waits for data and gives the next \<open>n\<close> bytes, or \<open>io.EOF\<close> once there is none and
  no more will come. How many, and which of two waiting readers is served, is left open.
\<close>

definition sw_take :: "sw_reader \<Rightarrow> nat \<Rightarrow> nat \<Rightarrow> ('f, 'd, 'e, 'p) switched \<Rightarrow>
    (('f, 'd, 'e, 'p) switched \<times> byte list \<times> err) option" where
  "sw_take who cap n s =
     (if sw_input s \<noteq> [] then
        (if 0 < n \<and> n \<le> cap \<and> n \<le> length (sw_input s)
         then Some (s\<lparr>sw_input := drop n (sw_input s),
                      sw_reads := sw_reads s @ [(who, take n (sw_input s))]\<rparr>,
                    take n (sw_input s), None)
         else None)
      else if sw_eof s then Some (s, [], Some EOF) else None)"

section \<open>The copy to the client\<close>

text \<open>
  One turn of \<open>io.Copy(clientChan, copyTarget)\<close>: what a \<open>Read\<close> returned is written to the client,
  and an error of either ends the copy.
\<close>

definition sw_written :: "byte list \<Rightarrow> err \<Rightarrow> err \<Rightarrow> ('f, 'd, 'e, 'p) switched \<Rightarrow> ('f, 'd, 'e, 'p) switched"
  where
  "sw_written bs e werr s =
     s\<lparr>sw_client := sw_client s @ bs,
       sw_copier := (if bs \<noteq> [] \<and> werr \<noteq> None \<or> e \<noteq> None then CpOver else CpTest)\<rparr>"

text \<open>\<open>IoSwitch.Read\<close> with the copy's buffer of 32 KiB: the test, and the call on the object chosen.\<close>

definition sw_test :: "('f, 'd, 'e, 'p) switched \<Rightarrow> ('f, 'd, 'e, 'p) switched option" where
  "sw_test s =
     (if sw_copier s = CpTest then
        (if sw_enabled s then
           (case sw_ip s of
              None \<Rightarrow> None
            | Some i \<Rightarrow> map_option (\<lambda>j. s\<lparr>sw_ip := Some j, sw_copier := CpRefract\<rparr>) (ip_read_call 32768 i))
         else Some (s\<lparr>sw_copier := CpPass\<rparr>))
      else None)"

definition sw_pass :: "nat \<Rightarrow> err \<Rightarrow> ('f, 'd, 'e, 'p) switched \<Rightarrow> ('f, 'd, 'e, 'p) switched option" where
  "sw_pass n werr s =
     (if sw_copier s = CpPass
      then map_option (\<lambda>(t, bs, e). sw_written bs e werr t) (sw_take (ByCopy (sw_enabled s)) 32768 n s)
      else None)"

definition sw_return :: "err \<Rightarrow> ('f, 'd, 'e, 'p) switched \<Rightarrow> ('f, 'd, 'e, 'p) switched option" where
  "sw_return werr s =
     (case (sw_copier s, sw_ip s) of
        (CpRefract, Some i) \<Rightarrow>
          (case ip_reader i of RdRet out e \<Rightarrow> Some (sw_written out e werr s) | _ \<Rightarrow> None)
      | _ \<Rightarrow> None)"

section \<open>The activation and the interposer\<close>

text \<open>\<open>Interpose(...)\<close>, which starts its goroutine, and then \<open>ioSwitch.Enable(wrapped)\<close>.\<close>

definition sw_interpose ::
  "('f, 'd, 'e, 'p) mosh \<Rightarrow> (display_preference \<Rightarrow> nat) \<Rightarrow> int \<Rightarrow>
    ('f, 'd, 'e, 'p) switched \<Rightarrow> ('f, 'd, 'e, 'p) switched option" where
  "sw_interpose M code clock s =
     (if sw_ip s = None
      then Some (s\<lparr>sw_ip := Some (interpose M code get_default_interposer_options clock)\<rparr>) else None)"

definition sw_enable :: "('f, 'd, 'e, 'p) switched \<Rightarrow> ('f, 'd, 'e, 'p) switched option" where
  "sw_enable s = (if sw_ip s \<noteq> None \<and> \<not> sw_enabled s then Some (s\<lparr>sw_enabled := True\<rparr>) else None)"

text \<open>\<open>upstream.Read\<close> of \<open>pullFromUpstream\<close>; a delayer in between reads without delay.\<close>

definition sw_pull :: "nat \<Rightarrow> ('f, 'd, 'e, 'p) switched \<Rightarrow> ('f, 'd, 'e, 'p) switched option" where
  "sw_pull n s =
     (case sw_ip s of
        None \<Rightarrow> None
      | Some i \<Rightarrow>
          if ip_puller i = PlRead then
            (case sw_take ByPuller 4096 n s of
               None \<Rightarrow> None
             | Some (t, bs, e) \<Rightarrow> map_option (\<lambda>j. t\<lparr>sw_ip := Some j\<rparr>) (ip_pull_read bs e i))
          else None)"

text \<open>
  Every other event of the interposer, in any order, which allows more schedules than the code has:
  the client's keystrokes, for instance, come through the switch as well.
\<close>

fun sw_shared :: "ip_event \<Rightarrow> bool" where
  "sw_shared (PullRead _ _) = True" | "sw_shared (ReadCall _) = True" | "sw_shared _ = False"

definition sw_inside ::
  "('f, 'd, 'e, 'p) mosh \<Rightarrow> (display_preference \<Rightarrow> nat) \<Rightarrow> ip_event \<Rightarrow>
    ('f, 'd, 'e, 'p) switched \<Rightarrow> ('f, 'd, 'e, 'p) switched option" where
  "sw_inside M code f s =
     (case sw_ip s of
        None \<Rightarrow> None
      | Some i \<Rightarrow>
          if sw_shared f then None
          else map_option (\<lambda>j. s\<lparr>sw_ip := Some j\<rparr>) (ip_step M code f i))"

section \<open>The machine\<close>

datatype sw_event =
    SwArrive "byte list" | SwEof | SwTest | SwPass nat err | SwReturn err
  | SwInterpose int | SwEnable | SwPull nat | SwInside ip_event

fun sw_step ::
  "('f, 'd, 'e, 'p) mosh \<Rightarrow> (display_preference \<Rightarrow> nat) \<Rightarrow> sw_event \<Rightarrow>
    ('f, 'd, 'e, 'p) switched \<Rightarrow> ('f, 'd, 'e, 'p) switched option" where
  "sw_step M code (SwArrive bs) s =
     (if sw_eof s then None
      else Some (s\<lparr>sw_input := sw_input s @ bs, sw_arrived := sw_arrived s @ bs\<rparr>))"
| "sw_step M code SwEof s = Some (s\<lparr>sw_eof := True\<rparr>)"
| "sw_step M code SwTest s = sw_test s"
| "sw_step M code (SwPass n werr) s = sw_pass n werr s"
| "sw_step M code (SwReturn werr) s = sw_return werr s"
| "sw_step M code (SwInterpose clock) s = sw_interpose M code clock s"
| "sw_step M code SwEnable s = sw_enable s"
| "sw_step M code (SwPull n) s = sw_pull n s"
| "sw_step M code (SwInside f) s = sw_inside M code f s"

lemmas sw_defs = sw_take_def sw_written_def sw_test_def sw_pass_def sw_return_def sw_interpose_def
  sw_enable_def sw_pull_def sw_inside_def

section \<open>What the interposer does between the calls of the copy\<close>

fun resting :: "ip_reader \<Rightarrow> bool" where
  "resting RdIdle = True" | "resting (RdRet _ _) = True" | "resting _ = False"

fun returned :: "ip_reader \<Rightarrow> byte list" where
  "returned (RdRet out e) = out" | "returned _ = []"

text \<open>
  Without a call of \<open>Read\<close> a resting reader stays as it is, and a reader under way delivers what it
  returns; nothing is received from upstream without a read of it.
\<close>

definition reader_moves :: "('f, 'd, 'e, 'p) interposer \<Rightarrow> ('f, 'd, 'e, 'p) interposer \<Rightarrow> bool" where
  "reader_moves s t \<longleftrightarrow>
     (resting (ip_reader s) \<longrightarrow> ip_reader t = ip_reader s \<and> ip_delivered t = ip_delivered s \<and>
        ip_frames t = ip_frames s) \<and>
     (\<not> resting (ip_reader s) \<longrightarrow> ip_reader t \<noteq> RdIdle \<and>
        ip_delivered t = ip_delivered s @ returned (ip_reader t))"

lemma reader_moves_same:
  "ip_reader t = ip_reader s \<Longrightarrow> ip_delivered t = ip_delivered s \<Longrightarrow> ip_frames t = ip_frames s \<Longrightarrow>
    reader_moves s t"
  by (cases "ip_reader s") (auto simp: reader_moves_def)

lemma reader_moves_put:
  "reader_moves s (ip_put_err e s)"
  by (cases "ip_reader s") (simp_all add: reader_moves_def ip_put_err_def)

lemma reader_moves_read:
  assumes "ip_step M code f s = Some t" and "f \<in> {ReadEntry, ReadPending, ReadOpen, ReadError, ReadTime,
    ReadWake, ReadCheck, ReadPark, ReadGot, ReadClear, ReadEmit, ReadAppend}"
  shows "reader_moves s t \<and> ip_received t = ip_received s"
  using assms
  by (cases "ip_reader s")
     (auto simp: reader_moves_def ip_events ip_hand_out_def ip_pending_write_def Let_def
       split: if_splits option.splits prod.splits)

lemma ip_user_bytes_received:
  "ip_user_bytes M bs host s = (h, t) \<Longrightarrow> ip_received t = ip_received s"
  by (induction M bs host s rule: ip_user_bytes.induct) (auto simp: Let_def split: prod.splits)

lemma ip_put_received [simp]:
  "ip_received (ip_put_err e s) = ip_received s" "ip_received (ip_put_prediction s) = ip_received s"
  by (simp_all add: ip_put_err_def ip_put_prediction_def split: ip_reader.splits)

lemma ip_write_call_received: "ip_write_call M p s = Some t \<Longrightarrow> ip_received t = ip_received s"
  by (auto simp: ip_write_call_def Let_def dest!: ip_user_bytes_received
      split: if_splits option.splits prod.splits)

lemma ip_step_moves:
  assumes "ip_step M code f s = Some t" and "\<not> sw_shared f"
  shows "reader_moves s t \<and> ip_received t = ip_received s"
proof (cases "f \<in> {ReadEntry, ReadPending, ReadOpen, ReadError, ReadTime, ReadWake, ReadCheck,
    ReadPark, ReadGot, ReadClear, ReadEmit, ReadAppend}")
  case True
  then show ?thesis
    using reader_moves_read [OF assms(1)] by blast
next
  case other: False
  show ?thesis
  proof (cases f)
    case (WriteCall p)
    then have w: "ip_write_call M p s = Some t"
      using assms(1) by simp
    have "reader_moves s t"
      using w by (rule ip_write_call_cases) (cases "ip_reader s"; auto simp: reader_moves_def)
    then show ?thesis
      using ip_write_call_received [OF w] by simp
  next
    case PullPut
    then obtain e where "t = (ip_put_err e s)\<lparr>ip_puller := (if e \<noteq> None then PlDone else PlRead)\<rparr>"
      using assms(1) by (auto simp: ip_pull_put_def split: ip_puller.splits)
    then show ?thesis
      using reader_moves_put [of s e] by (simp add: reader_moves_def)
  next
    case Notify
    define u where "u = s\<lparr>ip_notifying := ip_notifying s - 1\<rparr>"
    have "t = ip_put_err None u"
      using assms(1) Notify by (auto simp: ip_notify_def u_def split: if_splits)
    then show ?thesis
      using reader_moves_put [of u None] by (simp add: reader_moves_def u_def)
  qed (use assms other in \<open>auto simp: ip_events ip_pending_write_def Let_def intro!: reader_moves_same
      split: if_splits prod.splits ip_puller.splits ip_writer.splits ip_closer.splits\<close>)
qed

section \<open>The invariant\<close>

definition sw_received :: "('f, 'd, 'e, 'p) switched \<Rightarrow> byte list" where
  "sw_received s = (case sw_ip s of None \<Rightarrow> [] | Some i \<Rightarrow> ip_received i)"

definition sw_delivered :: "('f, 'd, 'e, 'p) switched \<Rightarrow> byte list" where
  "sw_delivered s = (case sw_ip s of None \<Rightarrow> [] | Some i \<Rightarrow> ip_delivered i)"

text \<open>What the copy read around the interposer, what the interposer read, and how often the former
  happened after \<open>Enable\<close>.\<close>

definition passed :: "(sw_reader \<times> byte list) list \<Rightarrow> byte list" where
  "passed rs = concat (map snd (filter (\<lambda>r. fst r \<noteq> ByPuller) rs))"

definition pulled :: "(sw_reader \<times> byte list) list \<Rightarrow> byte list" where
  "pulled rs = concat (map snd (filter (\<lambda>r. fst r = ByPuller) rs))"

definition late :: "(sw_reader \<times> byte list) list \<Rightarrow> nat" where
  "late rs = length (filter (\<lambda>r. fst r = ByCopy True) rs)"

lemma sw_reads_append [simp]:
  "passed (rs @ [(ByCopy b, bs)]) = passed rs @ bs" "passed (rs @ [(ByPuller, bs)]) = passed rs"
  "pulled (rs @ [(ByCopy b, bs)]) = pulled rs" "pulled (rs @ [(ByPuller, bs)]) = pulled rs @ bs"
  "late (rs @ [(ByCopy b, bs)]) = late rs + (if b then 1 else 0)" "late (rs @ [(ByPuller, bs)]) = late rs"
  "passed [] = []" "pulled [] = []" "late [] = 0"
  by (simp_all add: passed_def pulled_def late_def)

text \<open>What a finished \<open>Read\<close> of the interposer has returned and the copy has not written yet.\<close>

definition sw_between :: "('f, 'd, 'e, 'p) switched \<Rightarrow> byte list" where
  "sw_between s =
     (case sw_ip s of None \<Rightarrow> []
      | Some i \<Rightarrow> if sw_copier s = CpRefract then returned (ip_reader i) else [])"

definition untouched :: "('f, 'd, 'e, 'p) interposer \<Rightarrow> bool" where
  "untouched i \<longleftrightarrow> ip_reader i = RdIdle \<and> ip_delivered i = [] \<and> ip_frames i = []"

definition sw_inv :: "('f, 'd, 'e, 'p) switched \<Rightarrow> bool" where
  "sw_inv s \<longleftrightarrow>
     sw_arrived s = concat (map snd (sw_reads s)) @ sw_input s \<and>
     sw_received s = pulled (sw_reads s) \<and>
     passed (sw_reads s) @ sw_delivered s = sw_client s @ sw_between s \<and>
     (sw_copier s = CpRefract \<longrightarrow> sw_enabled s) \<and>
     (sw_enabled s \<longrightarrow> sw_ip s \<noteq> None) \<and>
     (sw_copier s \<noteq> CpRefract \<longrightarrow> (\<forall>i. sw_ip s = Some i \<longrightarrow> resting (ip_reader i))) \<and>
     (\<not> sw_enabled s \<or> sw_copier s = CpPass \<longrightarrow> (\<forall>i. sw_ip s = Some i \<longrightarrow> untouched i)) \<and>
     late (sw_reads s) + (if sw_enabled s \<and> sw_copier s = CpPass then 1 else 0) \<le> 1 \<and>
     (\<not> sw_enabled s \<longrightarrow> late (sw_reads s) = 0)"

lemmas sw_state_defs = sw_received_def sw_delivered_def sw_between_def

lemma sw_inv_start: "sw_inv sw_start"
  by (simp add: sw_inv_def sw_state_defs sw_start_def)

lemma sw_take_cases:
  assumes "sw_take who cap n s = Some (t, bs, e)"
  obtains "0 < length bs" "length bs \<le> cap" "e = None" "sw_input s = bs @ sw_input t"
    "t = s\<lparr>sw_input := sw_input t, sw_reads := sw_reads s @ [(who, bs)]\<rparr>"
  | "bs = []" "e = Some EOF" "t = s" "sw_input s = []"
  using assms by (auto simp: sw_take_def split: if_splits)

lemma sw_inv_test:
  assumes inv: "sw_inv s" and "sw_test s = Some t"
  shows "sw_inv t"
proof (cases "sw_enabled s")
  case True
  then obtain i j where i: "sw_ip s = Some i" and j: "ip_read_call 32768 i = Some j"
    and t: "t = s\<lparr>sw_ip := Some j, sw_copier := CpRefract\<rparr>" and c: "sw_copier s = CpTest"
    using assms(2) by (auto simp: sw_test_def split: if_splits option.splits)
  have "ip_reader j = RdEntry 32768" "ip_received j = ip_received i" "ip_delivered j = ip_delivered i"
    using j by (auto simp: ip_read_call_def split: ip_reader.splits)
  then show ?thesis
    using inv True i c by (simp add: sw_inv_def sw_state_defs t)
next
  case False
  then show ?thesis
    using assms by (auto simp: sw_inv_def sw_state_defs sw_test_def split: if_splits option.splits)
qed

lemma sw_inv_pass:
  assumes inv: "sw_inv s" and "sw_pass n werr s = Some t"
  shows "sw_inv t"
proof -
  obtain u bs e where c: "sw_copier s = CpPass" and u: "sw_take (ByCopy (sw_enabled s)) 32768 n s = Some (u, bs, e)"
    and t: "t = sw_written bs e werr u"
    using assms(2) by (auto simp: sw_pass_def split: if_splits)
  have ip: "untouched i" if "sw_ip s = Some i" for i
    using inv c that by (simp add: sw_inv_def)
  from u show ?thesis
  proof (cases rule: sw_take_cases)
    case 1
    have "sw_copier t = CpTest \<or> sw_copier t = CpOver"
      by (simp add: t sw_written_def)
    then show ?thesis
      using inv c ip 1(4) unfolding t
      by (subst (asm) 1(5), subst 1(5))
         (auto simp: sw_inv_def sw_state_defs sw_written_def untouched_def split: option.splits if_splits)
  next
    case 2
    then show ?thesis
      using inv c ip by (auto simp: sw_inv_def sw_state_defs sw_written_def t split: option.splits)
  qed
qed

lemma sw_inv_return:
  assumes inv: "sw_inv s" and "sw_return werr s = Some t"
  shows "sw_inv t"
proof -
  obtain i out e where "sw_copier s = CpRefract" "sw_ip s = Some i" "ip_reader i = RdRet out e"
    "t = sw_written out e werr s"
    using assms(2) by (auto simp: sw_return_def split: sw_copier.splits option.splits ip_reader.splits)
  then show ?thesis
    using inv by (auto simp: sw_inv_def sw_state_defs sw_written_def)
qed

lemma sw_inv_interpose:
  "sw_inv s \<Longrightarrow> sw_interpose M code clock s = Some t \<Longrightarrow> sw_inv t"
  by (auto simp: sw_inv_def sw_state_defs sw_interpose_def interpose_def untouched_def
      split: if_splits sw_copier.splits)

lemma sw_inv_enable: "sw_inv s \<Longrightarrow> sw_enable s = Some t \<Longrightarrow> sw_inv t"
  by (cases "sw_copier s") (auto simp: sw_inv_def sw_state_defs sw_enable_def split: if_splits)

lemma sw_inv_pull:
  assumes inv: "sw_inv s" and "sw_pull n s = Some t"
  shows "sw_inv t"
proof -
  obtain i u bs e j where i: "sw_ip s = Some i" and u: "sw_take ByPuller 4096 n s = Some (u, bs, e)"
    and j: "ip_pull_read bs e i = Some j" and t: "t = u\<lparr>sw_ip := Some j\<rparr>"
    using assms(2) by (auto simp: sw_pull_def split: if_splits option.splits)
  have same: "ip_reader j = ip_reader i" "ip_delivered j = ip_delivered i" "ip_frames j = ip_frames i"
    "ip_received j = ip_received i @ bs"
    using j by (auto simp: ip_pull_read_def split: if_splits)
  from u show ?thesis
  proof (cases rule: sw_take_cases)
    case 1
    show ?thesis
      using inv i same 1(4) unfolding t
      by (subst 1(5)) (auto simp: sw_inv_def sw_state_defs untouched_def split: sw_copier.splits)
  next
    case 2
    then show ?thesis
      using inv i same by (auto simp: sw_inv_def sw_state_defs untouched_def t split: sw_copier.splits)
  qed
qed

lemma sw_inv_inside:
  assumes inv: "sw_inv s" and "sw_inside M code f s = Some t"
  shows "sw_inv t"
proof -
  obtain i j where i: "sw_ip s = Some i" and j: "ip_step M code f i = Some j" "\<not> sw_shared f"
    and t: "t = s\<lparr>sw_ip := Some j\<rparr>"
    using assms(2) by (auto simp: sw_inside_def split: if_splits option.splits)
  have m: "reader_moves i j" "ip_received j = ip_received i"
    using ip_step_moves [OF j] by simp_all
  show ?thesis
  proof (cases "resting (ip_reader i)")
    case True
    then have "ip_reader j = ip_reader i" "ip_delivered j = ip_delivered i" "ip_frames j = ip_frames i"
      using m(1) by (simp_all add: reader_moves_def)
    then show ?thesis
      using inv m(2) i by (simp add: sw_inv_def sw_state_defs untouched_def t)
  next
    case False
    then have r: "returned (ip_reader i) = []" "ip_delivered j = ip_delivered i @ returned (ip_reader j)"
      using m(1) by (cases "ip_reader i"; simp add: reader_moves_def)+
    have "sw_copier s = CpRefract"
      using inv i False by (auto simp: sw_inv_def)
    then show ?thesis
      using inv m(2) i r by (simp add: sw_inv_def sw_state_defs t)
  qed
qed

lemma sw_inv_step:
  assumes "sw_inv s" and "sw_step M code e s = Some t"
  shows "sw_inv t"
proof (cases e)
  case (SwArrive bs)
  then have "t = s\<lparr>sw_input := sw_input s @ bs, sw_arrived := sw_arrived s @ bs\<rparr>"
    using assms(2) by (simp split: if_splits)
  then show ?thesis
    using assms(1) by (cases "sw_ip s") (auto simp: sw_inv_def sw_state_defs)
next
  case SwEof
  then have "t = s\<lparr>sw_eof := True\<rparr>"
    using assms(2) by simp
  then show ?thesis
    using assms(1) by (cases "sw_ip s") (auto simp: sw_inv_def sw_state_defs)
next
  case SwTest
  then show ?thesis
    using sw_inv_test [OF assms(1)] assms(2) by simp
next
  case (SwPass n werr)
  then show ?thesis
    using sw_inv_pass [OF assms(1)] assms(2) by simp
next
  case (SwReturn werr)
  then show ?thesis
    using sw_inv_return [OF assms(1)] assms(2) by simp
next
  case (SwInterpose clock)
  then show ?thesis
    using sw_inv_interpose [OF assms(1)] assms(2) by simp
next
  case SwEnable
  then show ?thesis
    using sw_inv_enable [OF assms(1)] assms(2) by simp
next
  case (SwPull n)
  then show ?thesis
    using sw_inv_pull [OF assms(1)] assms(2) by simp
next
  case (SwInside f)
  then show ?thesis
    using sw_inv_inside [OF assms(1)] assms(2) by simp
qed

interpretation sw: invariant_machine "\<lambda>s. s = sw_start" "sw_step M code" sw_inv for M code
  by unfold_locales (auto simp: sw_inv_start intro: sw_inv_step)

section \<open>Where the output goes\<close>

lemmas sw_reachable = sw.reachable_inv [OF refl]


text \<open>A session whose prompt arrives after the terminal is on: the copy is already in its first read.\<close>

definition prompt_goes_around :: "sw_event list" where
  "prompt_goes_around =
     [SwTest, SwInterpose 1000, SwEnable, SwArrive [36, 32], SwPass 2 None, SwTest,
      SwArrive [104], SwPull 1]"

lemmas sw_run = prompt_goes_around_def sw_start_def sw_defs ip_read_call_def ip_pull_read_def
  interpose_def


section \<open>The read in flight\<close>

definition sw_frames :: "('f, 'd, 'e, 'p) switched \<Rightarrow> byte list list" where
  "sw_frames s = (case sw_ip s of None \<Rightarrow> [] | Some i \<Rightarrow> ip_frames i)"

fun is_pass :: "sw_event \<Rightarrow> bool" where
  "is_pass (SwPass n werr) = True" | "is_pass _ = False"

lemma sw_waits_step:
  assumes "sw_step M code e s = Some t" and "\<not> is_pass e" and "sw_enabled s" and "sw_copier s = CpPass"
  shows "sw_enabled t \<and> sw_copier t = CpPass \<and> sw_client t = sw_client s"
  using assms
  by (cases e) (auto simp: sw_defs split: if_splits option.splits)

lemma sw_waits_run:
  assumes "run (sw_step M code) es s = Some t" and "\<forall>e \<in> set es. \<not> is_pass e"
    and "sw_enabled s" and "sw_copier s = CpPass"
  shows "sw_enabled t \<and> sw_copier t = CpPass \<and> sw_client t = sw_client s"
  using assms
proof (induction es arbitrary: s)
  case (Cons e es)
  obtain u where u: "sw_step M code e s = Some u" "run (sw_step M code) es u = Some t"
    using Cons.prems(1) by (auto split: option.splits)
  then show ?case
    using Cons.IH [OF u(2)] Cons.prems sw_waits_step [OF u(1)] by simp
qed simp

text \<open>Once the copy is past the passthrough, the terminal gets all that is still to be read.\<close>

definition to_terminal :: "('f, 'd, 'e, 'p) switched \<Rightarrow> byte list \<Rightarrow> ('f, 'd, 'e, 'p) switched \<Rightarrow> bool" where
  "to_terminal s new t \<longleftrightarrow> sw_enabled t \<and> sw_copier t \<noteq> CpPass \<and>
     sw_arrived t = sw_arrived s @ new \<and> sw_received t @ sw_input t = sw_received s @ sw_input s @ new"

lemma sw_terminal_pull:
  assumes "sw_pull n s = Some t" and "sw_enabled s" and "sw_copier s \<noteq> CpPass"
  shows "to_terminal s [] t"
proof -
  obtain i u bs e j where i: "sw_ip s = Some i" and u: "sw_take ByPuller 4096 n s = Some (u, bs, e)"
    and j: "ip_pull_read bs e i = Some j" and t: "t = u\<lparr>sw_ip := Some j\<rparr>"
    using assms(1) by (auto simp: sw_pull_def split: if_splits option.splits)
  have r: "ip_received j = ip_received i @ bs"
    using j by (auto simp: ip_pull_read_def split: if_splits)
  from u show ?thesis
  proof (cases rule: sw_take_cases)
    case 1
    show ?thesis
      using assms(2,3) i r 1(4) unfolding t
      by (subst 1(5)) (simp add: to_terminal_def sw_received_def)
  next
    case 2
    then show ?thesis
      using assms(2,3) i r by (simp add: to_terminal_def sw_received_def t)
  qed
qed

lemma sw_terminal_step:
  assumes "sw_step M code e s = Some t" and on: "sw_enabled s" "sw_copier s \<noteq> CpPass"
  shows "\<exists>new. to_terminal s new t"
proof (cases e)
  case (SwArrive bs)
  then show ?thesis
    using assms by (intro exI [of _ bs]) (auto simp: to_terminal_def sw_received_def split: if_splits)
next
  case (SwPull n)
  then show ?thesis
    using assms sw_terminal_pull by fastforce
next
  case (SwInside f)
  then obtain i j where "sw_ip s = Some i" and j: "ip_step M code f i = Some j" "\<not> sw_shared f"
    and "t = s\<lparr>sw_ip := Some j\<rparr>"
    using assms(1) by (auto simp: sw_inside_def split: if_splits option.splits)
  then show ?thesis
    using on ip_step_moves [OF j] by (intro exI [of _ "[]"]) (simp add: to_terminal_def sw_received_def)
next
  case SwTest
  then obtain i j where "sw_ip s = Some i" and "ip_read_call 32768 i = Some j"
    and t: "t = s\<lparr>sw_ip := Some j, sw_copier := CpRefract\<rparr>"
    using assms by (auto simp: sw_test_def split: if_splits option.splits)
  moreover from this have "ip_received j = ip_received i"
    by (auto simp: ip_read_call_def split: ip_reader.splits)
  ultimately show ?thesis
    using on by (intro exI [of _ "[]"]) (simp add: to_terminal_def sw_received_def)
qed (use assms in \<open>auto simp: to_terminal_def sw_received_def sw_pass_def sw_return_def sw_written_def
    sw_interpose_def interpose_def sw_enable_def
    split: if_splits option.splits sw_copier.splits ip_reader.splits\<close>)

lemma sw_terminal_reaches:
  assumes "reaches (sw_step M code) s t" and "sw_enabled s" and "sw_copier s \<noteq> CpPass"
  shows "\<exists>new. to_terminal s new t"
  using assms
proof (induction rule: reaches.induct)
  case here
  then show ?case
    by (intro exI [of _ "[]"]) (simp add: to_terminal_def)
next
  case (move t e u)
  then obtain new where new: "to_terminal s new t"
    by blast
  then obtain more where "to_terminal t more u"
    using sw_terminal_step [OF move.hyps(2)] by (auto simp: to_terminal_def)
  then show ?case
    using new by (intro exI [of _ "new @ more"]) (auto simp: to_terminal_def)
qed

text \<open>
  C22. A \<open>Read\<close> of the copy that is under way when the terminal is switched on stays on the channel.
  Until it returns the client is shown nothing, whatever is typed, acknowledged, or received and
  drawn by the interposer; and what it returns, up to 32 KiB of the target's output, goes to the
  client as it is and never reaches the terminal, which gets all the rest.
\<close>

theorem read_in_flight_bypasses_terminal:
  assumes "reaches (sw_step M code) sw_start s" and "sw_enabled s" and "sw_copier s = CpPass"
    and "run (sw_step M code) es s = Some t" and "\<forall>e \<in> set es. \<not> is_pass e"
    and "0 < n" and "n \<le> 32768" and "n \<le> length (sw_input t)"
  shows "sw_client t = sw_client s \<and> sw_frames t = [] \<and>
    (\<exists>u. sw_step M code (SwPass n None) t = Some u \<and>
      sw_client u = sw_client s @ take n (sw_input t) \<and>
      (\<forall>v. reaches (sw_step M code) u v \<longrightarrow>
        sw_received v @ sw_input v =
          sw_received t @ drop n (sw_input t) @ drop (length (sw_arrived t)) (sw_arrived v)))"
proof -
  have t: "sw_enabled t" "sw_copier t = CpPass" "sw_client t = sw_client s"
    using sw_waits_run [OF assms(4,5,2,3)] by simp_all
  have "sw_inv t"
    by (rule sw_reachable [OF reaches_trans [OF run_reaches [OF assms(4)] assms(1)]])
  then have frames: "sw_frames t = []"
    using t(2) by (auto simp: sw_inv_def sw_frames_def untouched_def split: option.splits)
  have "sw_input t \<noteq> []"
    using assms(6,8) by auto
  then obtain u where u: "sw_step M code (SwPass n None) t = Some u"
    "sw_client u = sw_client t @ take n (sw_input t)" "sw_enabled u" "sw_copier u = CpTest"
    "sw_received u = sw_received t" "sw_input u = drop n (sw_input t)" "sw_arrived u = sw_arrived t"
    using t(1,2) assms(6-8)
    by (simp add: sw_pass_def sw_take_def sw_written_def sw_received_def)
  have "sw_received v @ sw_input v =
      sw_received t @ drop n (sw_input t) @ drop (length (sw_arrived t)) (sw_arrived v)"
    if "reaches (sw_step M code) u v" for v
    using sw_terminal_reaches [OF that u(3)] u(4-7) by (auto simp: to_terminal_def)
  then show ?thesis
    using t(3) frames u(1,2) by auto
qed

text \<open>The client types while the prompt is still to come: no prediction is shown, and the terminal
  never hears of the prompt.\<close>

theorem read_in_flight_bypasses_terminal_witness:
  "\<exists>s t u. run (sw_step plain_terminal preference_code) [SwTest, SwInterpose 1000, SwEnable] sw_start = Some s \<and>
    run (sw_step plain_terminal preference_code)
      [SwInside (WriteCall [108]), SwInside (WriteSink 1 None), SwInside WriteOpen, SwArrive [36, 32]] s =
      Some t \<and> sw_client t = [] \<and>
    sw_step plain_terminal preference_code (SwPass 2 None) t = Some u \<and> sw_client u = [36, 32] \<and>
    sw_received u = []"
proof -
  obtain s where s: "run (sw_step plain_terminal preference_code) [SwTest, SwInterpose 1000, SwEnable]
      sw_start = Some s"
    and v: "sw_enabled s" "sw_copier s = CpPass" "sw_client s = []" "sw_input s = []"
      "sw_ip s = Some plain_start" "sw_eof s = False"
    by (simp add: sw_start_def sw_defs plain_start_def)
  obtain t where t: "run (sw_step plain_terminal preference_code)
      [SwInside (WriteCall [108]), SwInside (WriteSink 1 None), SwInside WriteOpen, SwArrive [36, 32]] s =
      Some t"
    and w: "sw_input t = [36, 32]" "sw_received t = []"
    using v by (simp add: sw_defs plain_defs ip_step_defs sw_received_def Let_def)
  obtain u where "sw_step plain_terminal preference_code (SwPass 2 None) t = Some u"
    "sw_client t = []" "sw_client u = [36, 32]" "sw_received u @ sw_input u =
      sw_received t @ drop (length (sw_arrived t)) (sw_arrived u)"
    using read_in_flight_bypasses_terminal [OF run_reaches [OF s] v(1,2) t, of 2] v(3) w
    by (auto intro: reaches.here)
  then show ?thesis
    using s t w by (auto simp: sw_defs split: if_splits)
qed

end
