(* ===== verification/Startup.thy ===== *)
theory Startup
  imports Signers SessionFilter Proxy
begin

text \<open>
  \<open>main\<close> from the flags to the configuration of the proxy (\<open>cmd/nosshtradamus/main.go\<close>): the flags with
  their defaults, what is printed, and the fields of \<open>ProxyConfig\<close>. Parsing the command line is the
  flag package's; the result is a list of settings, in the order given.
\<close>

section \<open>Flags\<close>

record flags =
  fl_port :: int
  fl_target :: string
  fl_version :: bool
  fl_noPrediction :: bool
  fl_fakeDelay :: int
  fl_optionArgs :: "string list"
  fl_identityArgs :: "string list"
  fl_agentForward :: bool
  fl_disableAgent :: bool
  fl_dumbAuth :: bool
  fl_authErrDetails :: bool
  fl_printTiming :: bool
  fl_noBanner :: bool

definition default_flags :: flags where
  "default_flags =
     \<lparr>fl_port = 0, fl_target = '''', fl_version = False, fl_noPrediction = False, fl_fakeDelay = 0,
      fl_optionArgs = [], fl_identityArgs = [], fl_agentForward = False, fl_disableAgent = False,
      fl_dumbAuth = False, fl_authErrDetails = False, fl_printTiming = False, fl_noBanner = False\<rparr>"

datatype flag =
    Port int | Target string | Version bool | NoPredict bool | FakeDelay int | PrintTiming bool
  | NoBanner bool | Option string | Identity string | AgentForward bool | NoAgent bool
  | DumbAuth bool | AuthErr bool

fun flag_name :: "flag \<Rightarrow> string" where
  "flag_name (Port _) = ''port''" | "flag_name (Target _) = ''target''"
| "flag_name (Version _) = ''version''" | "flag_name (NoPredict _) = ''nopredict''"
| "flag_name (FakeDelay _) = ''fakeDelay''" | "flag_name (PrintTiming _) = ''printTiming''"
| "flag_name (NoBanner _) = ''noBanner''" | "flag_name (Option _) = ''o''"
| "flag_name (Identity _) = ''i''" | "flag_name (AgentForward _) = ''A''"
| "flag_name (NoAgent _) = ''a''" | "flag_name (DumbAuth _) = ''dumbauth''"
| "flag_name (AuthErr _) = ''authErr''"

fun set_flag :: "flags \<Rightarrow> flag \<Rightarrow> flags" where
  "set_flag fl (Port k) = fl\<lparr>fl_port := k\<rparr>"
| "set_flag fl (Target t) = fl\<lparr>fl_target := t\<rparr>"
| "set_flag fl (Version b) = fl\<lparr>fl_version := b\<rparr>"
| "set_flag fl (NoPredict b) = fl\<lparr>fl_noPrediction := b\<rparr>"
| "set_flag fl (FakeDelay d) = fl\<lparr>fl_fakeDelay := d\<rparr>"
| "set_flag fl (PrintTiming b) = fl\<lparr>fl_printTiming := b\<rparr>"
| "set_flag fl (NoBanner b) = fl\<lparr>fl_noBanner := b\<rparr>"
| "set_flag fl (Option v) = fl\<lparr>fl_optionArgs := fst (array_flags_set (fl_optionArgs fl) v)\<rparr>"
| "set_flag fl (Identity v) = fl\<lparr>fl_identityArgs := fst (array_flags_set (fl_identityArgs fl) v)\<rparr>"
| "set_flag fl (AgentForward b) = fl\<lparr>fl_agentForward := b\<rparr>"
| "set_flag fl (NoAgent b) = fl\<lparr>fl_disableAgent := b\<rparr>"
| "set_flag fl (DumbAuth b) = fl\<lparr>fl_dumbAuth := b\<rparr>"
| "set_flag fl (AuthErr b) = fl\<lparr>fl_authErrDetails := b\<rparr>"

definition parse_flags :: "flag list \<Rightarrow> flags" where
  "parse_flags args = foldl set_flag default_flags args"

section \<open>Output\<close>

datatype version_line = BackendDisabled | BackendVersion | AddedLatency int

definition version_output :: "flags \<Rightarrow> version_line list" where
  "version_output fl =
     (if fl_version fl
      then [if fl_noPrediction fl then BackendDisabled else BackendVersion] @
           (if fl_fakeDelay fl > 0 then [AddedLatency (fl_fakeDelay fl)] else [])
      else [])"

definition banner_text :: "string \<Rightarrow> string \<Rightarrow> string" where
  "banner_text target user = ''Nosshtradamus proxying ~ '' @ user @ ''@'' @ target @ [CHR 0x0A]"

section \<open>The configuration\<close>

record proxy_config =
  pc_checker :: host_key_checker
  pc_filter :: filter_config        \<comment> \<open>\<open>ChannelFilter\<close> is nil unless \<open>filter_set\<close>\<close>
  pc_authMethods :: "auth_method list"
  pc_banner :: "(string \<Rightarrow> string) option"
  pc_reportAuthErr :: bool
  pc_extraQuestions :: bool         \<comment> \<open>\<open>ExtraQuestions\<close> is not nil\<close>
  pc_blockAgent :: bool

definition config_of :: "flags \<Rightarrow> key_env \<Rightarrow> host_key_checker \<Rightarrow> string list \<Rightarrow> proxy_config" where
  "config_of fl env checker identities =
     \<lparr>pc_checker = checker,
      pc_filter = \<lparr>fc_noPrediction = fl_noPrediction fl, fc_fakeDelay = fl_fakeDelay fl,
                   fc_printTiming = fl_printTiming fl\<rparr>,
      pc_authMethods = auth_methods (fl_dumbAuth fl) (fl_disableAgent fl) env identities,
      pc_banner = (if fl_noBanner fl then None else Some (banner_text (fl_target fl))),
      pc_reportAuthErr = fl_authErrDetails fl, pc_extraQuestions = (\<not> fl_dumbAuth fl),
      pc_blockAgent = (\<not> fl_agentForward fl)\<rparr>"

section \<open>The server\<close>

text \<open>
  \<open>GenHostKey\<close>, over the results of the library: the generated key and the signer made of it.
\<close>

definition gen_host_key :: "go_error + 'k \<Rightarrow> ('k \<Rightarrow> go_error + 'signer) \<Rightarrow> go_error + 'signer" where
  "gen_host_key generated new_signer =
     (case generated of Inl e \<Rightarrow> Inl e | Inr privateKey \<Rightarrow> new_signer privateKey)"

record 'signer server_config =
  sc_MaxAuthTries :: nat
  sc_BannerCallback :: "(string \<Rightarrow> string) option"
  sc_hostKeys :: "'signer list"

text \<open>What \<open>RunProxy\<close> does before its loop: it returns the error of the key provider.\<close>

definition run_proxy :: "proxy_config \<Rightarrow> go_error + 'signer \<Rightarrow> go_error + 'signer server_config" where
  "run_proxy cfg key =
     (let config = \<lparr>sc_MaxAuthTries = 1, sc_BannerCallback = pc_banner cfg, sc_hostKeys = []\<rparr>
      in case key of
           Inl e \<Rightarrow> Inl e
         | Inr hostKey \<Rightarrow> Inr (config\<lparr>sc_hostKeys := sc_hostKeys config @ [hostKey]\<rparr>))"

text \<open>
  The environment: \<open>HOME\<close>, the files, the keys, the resolver, the listener, and the libraries that make
  the host key (keys and signers are the library's, of any type).
\<close>

record ('k, 'signer) main_env =
  me_home :: "string option"
  me_knownHosts :: "string \<Rightarrow> err"
  me_exists :: "string \<Rightarrow> bool"
  me_keys :: key_env
  me_resolve :: "string \<Rightarrow> err"
  me_listen :: "int \<Rightarrow> err"
  me_generated :: "go_error + 'k"
  me_signer :: "'k \<Rightarrow> go_error + 'signer"

datatype 'signer main_result =
    MainUsage | MainPanic startup_panic | MainErrPanic go_error
  | MainServes proxy_config "'signer server_config"

definition main_run ::
  "('k, 'signer) main_env \<Rightarrow> flag list \<Rightarrow> version_line list \<times> 'signer main_result" where
  "main_run env args =
     (let fl = parse_flags args in
      case start_up (me_home env) (me_knownHosts env) (me_exists env) (fl_port fl) (fl_target fl)
          (fl_optionArgs fl) (fl_identityArgs fl) of
        Panic p \<Rightarrow> ([], MainPanic p)
      | Usage \<Rightarrow> (version_output fl, MainUsage)
      | Serve checker identities \<Rightarrow>
          (version_output fl,
           case me_resolve env (fl_target fl) of
             Some e \<Rightarrow> MainErrPanic e
           | None \<Rightarrow>
               (case me_listen env (fl_port fl) of
                  Some e \<Rightarrow> MainErrPanic e
                | None \<Rightarrow>
                    (let cfg = config_of fl (me_keys env) checker identities in
                     case run_proxy cfg (gen_host_key (me_generated env) (me_signer env)) of
                       Inl e \<Rightarrow> MainErrPanic e
                     | Inr server \<Rightarrow> MainServes cfg server))))"

section \<open>Safe by default\<close>

fun loosens :: "flag \<Rightarrow> bool" where
  "loosens (AgentForward b) = b"
| "loosens (Option v) = (option_value ''StrictHostKeyChecking'' v \<noteq> None)"
| "loosens _ = False"

lemma parse_flags_safe:
  assumes "\<forall>f \<in> set args. \<not> loosens f"
  shows "\<not> fl_agentForward (parse_flags args) \<and>
    (\<forall>v \<in> set (fl_optionArgs (parse_flags args)). option_value ''StrictHostKeyChecking'' v = None)"
  using assms
proof (induction args rule: rev_induct)
  case (snoc f args)
  then show ?case
    by (cases f) (auto simp: parse_flags_def array_flags_set_def)
qed (simp add: parse_flags_def default_flags_def)

text \<open>
  C25. The proxy is strict unless told otherwise: with any flags among which neither \<open>-A\<close> nor an option
  \<open>StrictHostKeyChecking\<close> occurs, a proxy that serves checks the target's host key against a
  known-hosts file that could be read, and refuses every agent channel the target opens, before
  anything is opened or accepted.
\<close>

theorem strict_by_default:
  assumes "\<forall>f \<in> set args. \<not> loosens f" and "main_run env args = (out, MainServes cfg server)"
  shows "(\<exists>file. pc_checker cfg = KnownHosts file \<and> file \<noteq> '''' \<and> me_knownHosts env file = None) \<and>
    auth_agent_channel (pc_blockAgent cfg) res accept =
      ([RejectChannel 1 ''agent forwarding prohibited''], None)"
proof -
  define fl where "fl = parse_flags args"
  have safe: "\<not> fl_agentForward fl"
    "\<forall>v \<in> set (fl_optionArgs fl). option_value ''StrictHostKeyChecking'' v = None"
    using parse_flags_safe [OF assms(1)] by (simp_all add: fl_def)
  have "List.find (\<lambda>a. option_value ''StrictHostKeyChecking'' a \<noteq> None) (rev (fl_optionArgs fl)) = None"
    using safe(2) by (simp add: find_None_iff)
  then have strict: "strict_host_checking (client_options (fl_optionArgs fl))"
    by (simp add: strict_host_checking_def client_options_value)
  obtain checker ids where s: "start_up (me_home env) (me_knownHosts env) (me_exists env) (fl_port fl)
      (fl_target fl) (fl_optionArgs fl) (fl_identityArgs fl) = Serve checker ids"
    and cfg: "cfg = config_of fl (me_keys env) checker ids"
    using assms(2) by (auto simp: main_run_def fl_def Let_def split: startup.splits option.splits sum.splits)
  have "host_key_policy (me_home env) (me_knownHosts env) (client_options (fl_optionArgs fl)) = Inr checker"
    using s by (auto simp: start_up_def split: sum.splits if_splits)
  then have "\<exists>file. checker = KnownHosts file \<and> file \<noteq> '''' \<and> me_knownHosts env file = None"
    using strict by (auto simp: host_key_policy_def Let_def split: if_splits option.splits)
  then show ?thesis
    using cfg safe(1) by (simp add: config_of_def auth_agent_channel_def)
qed

definition quiet_env :: "(unit, unit) main_env" where
  "quiet_env =
     \<lparr>me_home = Some ''/h'', me_knownHosts = (\<lambda>f. None), me_exists = (\<lambda>f. False),
      me_keys = \<lparr>ke_agent = None, ke_read = (\<lambda>f. None), ke_parse = (\<lambda>b. NotAKey), ke_public = (\<lambda>b. None)\<rparr>,
      me_resolve = (\<lambda>t. None), me_listen = (\<lambda>p. None), me_generated = Inr (),
      me_signer = (\<lambda>k. Inr ())\<rparr>"

theorem strict_by_default_witness:
  "\<exists>out cfg server. main_run quiet_env [Port 2222, Target ''t:22''] = (out, MainServes cfg server) \<and>
    (\<exists>file. pc_checker cfg = KnownHosts file) \<and> pc_blockAgent cfg"
proof -
  obtain out cfg server where
      m: "main_run quiet_env [Port 2222, Target ''t:22''] = (out, MainServes cfg server)"
    and b: "pc_blockAgent cfg"
    by (simp add: main_run_def quiet_env_def parse_flags_def default_flags_def start_up_def
        host_key_policy_def strict_host_checking_def known_hosts_file_def client_options_def Let_def
        config_of_def gen_host_key_def run_proxy_def)
  show ?thesis
    using m b strict_by_default [OF _ m, of ChannelOpened "\<lambda>d. None"] by auto
qed

end
